(* ===== verification/Crust_Prelude.thy ===== *)
theory Crust_Prelude
  imports Main "HOL-Library.Word" "HOL-Library.Monad_Syntax"
begin

text \<open>
  The vocabulary the components share.
  \<^item> Machine integers: \<open>u8\<close>, \<open>u32\<close>, \<open>u64\<close> are words; \<open>usize\<close> is a natural number together with
    the bound \<open>usize_max\<close> of a 64-bit target, and the saturating and checked operations of
    the Rust standard library are written out over that bound.
  \<^item> Byte sequences: \<open>Bytes\<close>, \<open>BytesMut\<close>, \<open>&[u8]\<close> and \<open>[u8; N]\<close> are lists of \<open>u8\<close>; a \<open>&str\<close> or
    \<open>String\<close> is an Isabelle \<open>string\<close>, whose characters are the bytes of the UTF-8 text.
  \<^item> Big-endian integers (\<open>to_be_bytes\<close>, \<open>from_be_bytes\<close>) with their round trips.
  \<^item> Fallible, stateful code: a computation takes a state and returns an \<open>outcome\<close> (a value,
    an error, or a panic) with the new state; \<open>and_then\<close> is the sequencing that Rust's \<open>?\<close> gives.
  \<^item> A locale for transition systems with an invariant, which the state machines instantiate.
\<close>

unbundle bit_operations_syntax

named_theorems safe_intros \<open>introduction rules for computations that never panic\<close>
named_theorems len_simps \<open>lengths of encoded values\<close>
named_theorems run_simps \<open>running a computation on a state\<close>

subsection \<open>Machine integers\<close>

type_synonym u8 = "8 word"
type_synonym u32 = "32 word"
type_synonym u64 = "64 word"
type_synonym usize = nat
type_synonym bytes = "u8 list"

definition usize_max :: usize where
  "usize_max = 2 ^ 64 - 1"

definition u32_max :: usize where
  "u32_max = 2 ^ 32 - 1"

definition saturating_add :: "usize \<Rightarrow> usize \<Rightarrow> usize" where
  "saturating_add a b = min (a + b) usize_max"

definition saturating_mul :: "usize \<Rightarrow> usize \<Rightarrow> usize" where
  "saturating_mul a b = min (a * b) usize_max"

definition saturating_sub :: "usize \<Rightarrow> usize \<Rightarrow> usize" where
  "saturating_sub a b = a - b"

definition checked_add :: "usize \<Rightarrow> usize \<Rightarrow> usize option" where
  "checked_add a b = (if a + b \<le> usize_max then Some (a + b) else None)"

definition checked_mul :: "usize \<Rightarrow> usize \<Rightarrow> usize option" where
  "checked_mul a b = (if a * b \<le> usize_max then Some (a * b) else None)"

definition checked_sub :: "usize \<Rightarrow> usize \<Rightarrow> usize option" where
  "checked_sub a b = (if b \<le> a then Some (a - b) else None)"

lemma u32_max_less_usize_max: "u32_max < usize_max"
  by (simp add: u32_max_def usize_max_def)

lemma usize_max_pos [simp]: "0 < usize_max"
  by (simp add: usize_max_def)

lemma saturating_add_le [simp]: "saturating_add a b \<le> usize_max"
  by (simp add: saturating_add_def)

lemma saturating_add_exact: "a + b \<le> usize_max \<Longrightarrow> saturating_add a b = a + b"
  by (simp add: saturating_add_def)

lemma saturating_add_less_iff:
  "saturating_add a b < usize_max \<longleftrightarrow> a + b < usize_max"
  by (auto simp: saturating_add_def)

lemma saturating_add_lessD:
  "saturating_add a b < usize_max \<Longrightarrow> saturating_add a b = a + b"
  by (simp add: saturating_add_def min_def split: if_splits)

lemma saturating_add_0 [simp]:
  "a \<le> usize_max \<Longrightarrow> saturating_add 0 a = a"
  "a \<le> usize_max \<Longrightarrow> saturating_add a 0 = a"
  by (simp_all add: saturating_add_def)

lemma saturating_add_assoc:
  "saturating_add (saturating_add a b) c = min (a + b + c) usize_max"
  by (auto simp: saturating_add_def)

lemma saturating_add_mono: "a \<le> a' \<Longrightarrow> b \<le> b' \<Longrightarrow> saturating_add a b \<le> saturating_add a' b'"
  by (auto simp: saturating_add_def)

text \<open>A left fold of saturating additions is the sum, cut off at the bound.\<close>

lemma foldl_saturating_add:
  "a \<le> usize_max \<Longrightarrow> foldl saturating_add a xs = min (a + sum_list xs) usize_max"
  by (induction xs arbitrary: a) (auto simp: saturating_add_def)

lemma unat_less_2p32 [simp]: "unat (w :: u32) < 4294967296"
  using unsigned_less [of w] by simp

lemma unat_le_u32_max [simp]: "unat (w :: u32) \<le> u32_max"
  using unat_less_2p32 [of w] by (simp add: u32_max_def del: unat_less_2p32)

lemma unat_le_usize_max [simp]: "unat (w :: u32) \<le> usize_max"
  using unat_le_u32_max [of w] u32_max_less_usize_max by linarith

lemma unat_of_nat_u32: "n \<le> u32_max \<Longrightarrow> unat (of_nat n :: u32) = n"
  by (simp add: unat_of_nat u32_max_def)

subsection \<open>Big-endian integers\<close>

primrec be_bytes :: "nat \<Rightarrow> 'a::len word \<Rightarrow> bytes" where
  "be_bytes 0 w = []"
| "be_bytes (Suc n) w = ucast (drop_bit (8 * n) w) # be_bytes n w"

primrec of_be :: "bytes \<Rightarrow> 'a::len word" where
  "of_be [] = 0"
| "of_be (b # bs) = push_bit (8 * length bs) (ucast b) OR of_be bs"

lemma length_be_bytes [simp, len_simps]: "length (be_bytes n w) = n"
  by (induction n) simp_all

lemma length_concat_be_bytes [simp, len_simps]:
  "length (concat (map (be_bytes n) ws)) = n * length ws"
  "length (concat (map (\<lambda>i. be_bytes n (f i)) xs)) = n * length xs"
  by (induction ws, simp_all) (induction xs, simp_all)

lemma be_bytes_4: "be_bytes 4 w =
    [ucast (drop_bit 24 w), ucast (drop_bit 16 w), ucast (drop_bit 8 w), ucast w]"
  by (simp add: numeral_eq_Suc)

lemma bit_of_be:
  "bit (of_be bs :: 'a::len word) i \<longleftrightarrow>
     i < LENGTH('a) \<and> i < 8 * length bs \<and> bit (bs ! (length bs - Suc (i div 8))) (i mod 8)"
proof (induction bs)
  case Nil
  then show ?case by simp
next
  case (Cons b bs)
  have top: "i div 8 = length bs" if "8 * length bs \<le> i" "i < 8 * Suc (length bs)"
    using that by auto
  have modeq: "i - 8 * length bs = i mod 8" if "i div 8 = length bs"
    using that by (metis minus_mult_div_eq_mod)
  show ?case
  proof (cases "i < 8 * length bs")
    case True
    then have "i div 8 < length bs" by auto
    then have "length (b # bs) - Suc (i div 8) = Suc (length bs - Suc (i div 8))" by auto
    with True Cons.IH show ?thesis
      by (simp add: bit_or_iff bit_push_bit_iff)
  next
    case False
    then show ?thesis
      using Cons.IH top modeq bit_imp_le_length [of b "i - 8 * length bs"]
      by (auto simp: bit_or_iff bit_push_bit_iff bit_ucast_iff not_less)
  qed
qed

lemma nth_be_bytes: "k < n \<Longrightarrow> be_bytes n w ! k = ucast (drop_bit (8 * (n - Suc k)) w)"
proof (induction n arbitrary: k)
  case 0
  then show ?case by simp
next
  case (Suc n)
  then show ?case by (cases k) simp_all
qed

lemma of_be_be_bytes: "of_be (be_bytes n (w :: 'a::len word)) = (take_bit (8 * n) w :: 'a word)"
proof (rule bit_word_eqI)
  fix i assume i: "i < LENGTH('a)"
  show "bit (of_be (be_bytes n w) :: 'a word) i \<longleftrightarrow> bit (take_bit (8 * n) w) i"
  proof (cases "i < 8 * n")
    case True
    then have "i div 8 < n" by auto
    then have "be_bytes n w ! (n - Suc (i div 8)) = ucast (drop_bit (8 * (i div 8)) w)"
      by (subst nth_be_bytes) auto
    then show ?thesis using i True
      by (simp add: bit_of_be bit_take_bit_iff bit_ucast_iff bit_drop_bit_eq)
  next
    case False
    then show ?thesis by (simp add: bit_of_be bit_take_bit_iff)
  qed
qed

lemma of_be_be_bytes_4 [simp]: "of_be (be_bytes 4 (w :: u32)) = w"
  using of_be_be_bytes [of 4 w] by (simp add: take_bit_word_eq_self)

lemma of_be_be_bytes_8 [simp]: "of_be (be_bytes 8 (w :: u64)) = w"
  using of_be_be_bytes [of 8 w] by (simp add: take_bit_word_eq_self)

lemma be_bytes_of_be:
  assumes "length bs = n" and "8 * n \<le> LENGTH('a::len)"
  shows "be_bytes n (of_be bs :: 'a word) = bs"
proof (rule nth_equalityI)
  show "length (be_bytes n (of_be bs :: 'a word)) = length bs" using assms by simp
next
  fix k assume "k < length (be_bytes n (of_be bs :: 'a word))"
  then have k: "k < n" by simp
  show "be_bytes n (of_be bs :: 'a word) ! k = bs ! k"
  proof (rule bit_word_eqI)
    fix i assume "i < LENGTH(8)"
    then have i: "i < 8" by simp
    let ?j = "8 * (n - Suc k) + i"
    have j: "?j < 8 * n" "?j div 8 = n - Suc k" "?j mod 8 = i"
      using k i by auto
    have idx: "n - Suc (n - Suc k) = k" using k by auto
    show "bit (be_bytes n (of_be bs :: 'a word) ! k) i = bit (bs ! k) i"
      using k i j assms idx
      by (simp add: nth_be_bytes bit_ucast_iff bit_drop_bit_eq bit_of_be)
  qed
qed

subsection \<open>Strings and their bytes\<close>

definition as_bytes :: "string \<Rightarrow> bytes" where
  "as_bytes s = map (\<lambda>c. of_nat (of_char c)) s"

definition from_bytes :: "bytes \<Rightarrow> string" where
  "from_bytes bs = map (\<lambda>b. char_of (unat b)) bs"

lemma length_as_bytes [simp, len_simps]: "length (as_bytes s) = length s"
  by (simp add: as_bytes_def)

lemma length_from_bytes [simp]: "length (from_bytes bs) = length bs"
  by (simp add: from_bytes_def)

lemma of_char_less_256: "(of_char c :: nat) < 256"
  by (metis of_char_of char_of_char mod_less_divisor zero_less_numeral)

lemma unat_of_char_u8 [simp]: "unat (of_nat (of_char c) :: u8) = of_char c"
  using of_char_less_256 [of c] by (simp add: unat_of_nat)

lemma unat_u8_mod [simp]: "unat (b :: u8) mod 256 = unat b"
proof -
  have "unat b < 2 ^ LENGTH(8)" by (rule unsigned_less)
  then show ?thesis by simp
qed

lemma from_bytes_as_bytes [simp]: "from_bytes (as_bytes s) = s"
  by (simp add: from_bytes_def as_bytes_def o_def)

lemma as_bytes_from_bytes [simp]: "as_bytes (from_bytes bs) = bs"
  by (simp add: from_bytes_def as_bytes_def o_def)

text \<open>
  \<open>std::str::from_utf8\<close> accepts exactly the well-formed sequences of the Unicode standard
  (table 3-7): no overlong forms, no surrogates, nothing above U+10FFFF.
\<close>

definition utf8_cont :: "u8 \<Rightarrow> bool" where
  "utf8_cont b \<longleftrightarrow> 0x80 \<le> b \<and> b \<le> 0xBF"

fun utf8_valid :: "bytes \<Rightarrow> bool" where
  "utf8_valid [] = True"
| "utf8_valid (a # bs) =
    (if a < 0x80 then utf8_valid bs
     else case bs of
       [] \<Rightarrow> False
     | b # cs \<Rightarrow>
         if 0xC2 \<le> a \<and> a \<le> 0xDF then utf8_cont b \<and> utf8_valid cs
         else case cs of
           [] \<Rightarrow> False
         | c # ds \<Rightarrow>
             if 0xE0 \<le> a \<and> a \<le> 0xEF
             then utf8_cont b \<and> utf8_cont c \<and> (a = 0xE0 \<longrightarrow> 0xA0 \<le> b) \<and>
                  (a = 0xED \<longrightarrow> b \<le> 0x9F) \<and> utf8_valid ds
             else case ds of
               [] \<Rightarrow> False
             | d # es \<Rightarrow>
                 if 0xF0 \<le> a \<and> a \<le> 0xF4
                 then utf8_cont b \<and> utf8_cont c \<and> utf8_cont d \<and> (a = 0xF0 \<longrightarrow> 0x90 \<le> b) \<and>
                      (a = 0xF4 \<longrightarrow> b \<le> 0x8F) \<and> utf8_valid es
                 else False)"

lemma utf8_valid_ascii: "(\<And>b. b \<in> set bs \<Longrightarrow> b < 0x80) \<Longrightarrow> utf8_valid bs"
  by (induction bs) simp_all

subsection \<open>Outcomes and stateful computations\<close>

datatype ('a, 'e) outcome = Ok 'a | Err 'e | Panic

type_synonym ('s, 'e, 'a) stm = "'s \<Rightarrow> ('a, 'e) outcome \<times> 's"

definition ok :: "'a \<Rightarrow> ('s, 'e, 'a) stm" where
  "ok v s = (Ok v, s)"

definition fail :: "'e \<Rightarrow> ('s, 'e, 'a) stm" where
  "fail e s = (Err e, s)"

definition panicking :: "('s, 'e, 'a) stm" where
  "panicking s = (Panic, s)"

definition and_then :: "('s, 'e, 'a) stm \<Rightarrow> ('a \<Rightarrow> ('s, 'e, 'b) stm) \<Rightarrow> ('s, 'e, 'b) stm" where
  "and_then m f s = (case m s of
     (Ok v, s') \<Rightarrow> f v s'
   | (Err e, s') \<Rightarrow> (Err e, s')
   | (Panic, s') \<Rightarrow> (Panic, s'))"

text \<open>\<open>lift r\<close>: the \<open>?\<close> operator applied to a result that no state takes part in.\<close>

definition lift :: "('a, 'e) outcome \<Rightarrow> ('s, 'e, 'a) stm" where
  "lift r s = (r, s)"

definition ok_or :: "'e \<Rightarrow> 'a option \<Rightarrow> ('a, 'e) outcome" where
  "ok_or e x = (case x of Some v \<Rightarrow> Ok v | None \<Rightarrow> Err e)"

fun map_err :: "('e \<Rightarrow> 'f) \<Rightarrow> ('a, 'e) outcome \<Rightarrow> ('a, 'f) outcome" where
  "map_err f (Ok v) = Ok v"
| "map_err f (Err e) = Err (f e)"
| "map_err f Panic = Panic"

fun then_outcome :: "('a, 'e) outcome \<Rightarrow> ('a \<Rightarrow> ('b, 'e) outcome) \<Rightarrow> ('b, 'e) outcome" where
  "then_outcome (Ok v) f = f v"
| "then_outcome (Err e) f = Err e"
| "then_outcome Panic f = Panic"

fun is_ok :: "('a, 'e) outcome \<Rightarrow> bool" where
  "is_ok (Ok v) = True"
| "is_ok (Err e) = False"
| "is_ok Panic = False"

lemma and_then_run [run_simps]:
  "m s = (Ok v, s') \<Longrightarrow> and_then m f s = f v s'"
  "m s = (Err e, s') \<Longrightarrow> and_then m f s = (Err e, s')"
  "m s = (Panic, s') \<Longrightarrow> and_then m f s = (Panic, s')"
  by (simp_all add: and_then_def)

lemma and_then_Ok:
  "and_then m f s = (Ok w, s') \<longleftrightarrow> (\<exists>v t. m s = (Ok v, t) \<and> f v t = (Ok w, s'))"
  by (auto simp: and_then_def split: prod.splits outcome.splits)

lemma and_then_OkE:
  assumes "and_then m f s = (Ok w, s')"
  obtains v t where "m s = (Ok v, t)" and "f v t = (Ok w, s')"
  using assms by (auto simp: and_then_Ok)

lemma and_then_Err:
  "and_then m f s = (Err e, s') \<longleftrightarrow>
     m s = (Err e, s') \<or> (\<exists>v t. m s = (Ok v, t) \<and> f v t = (Err e, s'))"
  by (auto simp: and_then_def split: prod.splits outcome.splits)

lemma ok_run [simp, run_simps]: "ok v s = (Ok v, s)"
  by (simp add: ok_def)

lemma fail_run [simp, run_simps]: "fail e s = (Err e, s)"
  by (simp add: fail_def)

lemma panicking_run [simp]: "panicking s = (Panic, s)"
  by (simp add: panicking_def)

lemma lift_run [run_simps, simp]: "lift r s = (r, s)"
  by (simp add: lift_def)

lemma and_then_ok [simp]: "and_then (ok v) f = f v"
  by (simp add: and_then_def fun_eq_iff)

lemma and_then_fail [simp]: "and_then (fail e) f = fail e"
  by (simp add: and_then_def fun_eq_iff)

lemma and_then_assoc: "and_then (and_then m f) g = and_then m (\<lambda>v. and_then (f v) g)"
  by (auto simp: and_then_def fun_eq_iff split: prod.splits outcome.splits)

lemma ok_or_eq [simp]:
  "ok_or e (Some v) = Ok v"
  "ok_or e None = Err e"
  by (simp_all add: ok_or_def)

lemma ok_or_not_Panic [simp]: "ok_or e x \<noteq> Panic"
  by (cases x) simp_all

lemma ok_or_Ok [simp]: "ok_or e x = Ok v \<longleftrightarrow> x = Some v"
  by (cases x) simp_all

lemma map_err_eq_Panic [simp]: "map_err f r = Panic \<longleftrightarrow> r = Panic"
  by (cases r) simp_all

lemma map_err_eq_Ok [simp]: "map_err f r = Ok v \<longleftrightarrow> r = Ok v"
  by (cases r) simp_all

lemma then_outcome_Ok: "then_outcome r f = Ok w \<longleftrightarrow> (\<exists>v. r = Ok v \<and> f v = Ok w)"
  by (cases r) simp_all

lemma then_outcome_Panic: "then_outcome r f = Panic \<longleftrightarrow> r = Panic \<or> (\<exists>v. r = Ok v \<and> f v = Panic)"
  by (cases r) simp_all

subsection \<open>Transition systems with an invariant\<close>

text \<open>
  The reachable states of a system given by its initial states and its steps, and the
  interface of an inductive invariant. A state machine of the development interprets the
  locale on its own step relation; \<open>reachable_inv\<close> and \<open>run_inv\<close> then hold for it.
\<close>

inductive reachable :: "('s \<Rightarrow> bool) \<Rightarrow> ('s \<Rightarrow> 's \<Rightarrow> bool) \<Rightarrow> 's \<Rightarrow> bool"
  for init :: "'s \<Rightarrow> bool" and step :: "'s \<Rightarrow> 's \<Rightarrow> bool" where
  reach_init: "init s \<Longrightarrow> reachable init step s"
| reach_step: "reachable init step s \<Longrightarrow> step s t \<Longrightarrow> reachable init step t"

locale inductive_invariant =
  fixes init :: "'s \<Rightarrow> bool"
    and step :: "'s \<Rightarrow> 's \<Rightarrow> bool"
    and inv :: "'s \<Rightarrow> bool"
  assumes init_inv: "init s \<Longrightarrow> inv s"
    and step_inv: "step s t \<Longrightarrow> inv s \<Longrightarrow> inv t"
begin

lemma reachable_inv: "reachable init step s \<Longrightarrow> inv s"
  by (induction rule: reachable.induct) (auto intro: init_inv step_inv)

lemma run_inv: "step\<^sup>*\<^sup>* s t \<Longrightarrow> inv s \<Longrightarrow> inv t"
  by (induction rule: rtranclp_induct) (auto intro: step_inv)

lemma reachable_run: "reachable init step s \<Longrightarrow> step\<^sup>*\<^sup>* s t \<Longrightarrow> reachable init step t"
  by (rotate_tac 1, induction rule: rtranclp_induct) (auto intro: reach_step)

end

end
