(* ===== verification/Errors.thy ===== *)
theory Errors
  imports Crust_Prelude
begin

text \<open>
  Status codes and operation codes (\<open>src/nfs4.rs\<close>) and the error type with its
  classification (\<open>src/error.rs\<close>). An error message keeps the source's format string; the values
  a message interpolates are left out, since no code of the crate reads a message back.
  A \<open>Duration\<close> is a number of nanoseconds.
\<close>

named_theorems err_simps \<open>the classification predicates of errors\<close>

type_synonym duration = nat

subsection \<open>Status codes\<close>

abbreviation (input) status_OK :: u32 where "status_OK \<equiv> 0"
abbreviation (input) status_PERM :: u32 where "status_PERM \<equiv> 1"
abbreviation (input) status_NOENT :: u32 where "status_NOENT \<equiv> 2"
abbreviation (input) status_ACCESS :: u32 where "status_ACCESS \<equiv> 13"
abbreviation (input) status_INVAL :: u32 where "status_INVAL \<equiv> 22"
abbreviation (input) status_EXIST :: u32 where "status_EXIST \<equiv> 17"
abbreviation (input) status_DELAY :: u32 where "status_DELAY \<equiv> 10008"
abbreviation (input) status_GRACE :: u32 where "status_GRACE \<equiv> 10013"
abbreviation (input) status_NOTSUPP :: u32 where "status_NOTSUPP \<equiv> 10004"
abbreviation (input) status_WRONGSEC :: u32 where "status_WRONGSEC \<equiv> 10016"
abbreviation (input) status_STALE_CLIENTID :: u32 where "status_STALE_CLIENTID \<equiv> 10022"
abbreviation (input) status_BAD_STATEID :: u32 where "status_BAD_STATEID \<equiv> 10025"
abbreviation (input) status_OP_ILLEGAL :: u32 where "status_OP_ILLEGAL \<equiv> 10044"
abbreviation (input) status_BADSESSION :: u32 where "status_BADSESSION \<equiv> 10052"
abbreviation (input) status_BADSLOT :: u32 where "status_BADSLOT \<equiv> 10053"
abbreviation (input) status_COMPLETE_ALREADY :: u32 where "status_COMPLETE_ALREADY \<equiv> 10054"
abbreviation (input) status_SEQ_MISORDERED :: u32 where "status_SEQ_MISORDERED \<equiv> 10063"
abbreviation (input) status_BAD_HIGH_SLOT :: u32 where "status_BAD_HIGH_SLOT \<equiv> 10077"
abbreviation (input) status_DEADSESSION :: u32 where "status_DEADSESSION \<equiv> 10078"

subsection \<open>Operation codes\<close>

datatype OpCode =
    Access | Close | Commit | Create | DelegPurge | DelegReturn
  | GetAttr | GetFh | Link | Lock | LockT | LockU
  | Lookup | LookupP | NVerify | Open | OpenAttr | OpenConfirm
  | OpenDowngrade | PutFh | PutPubFh | PutRootFh | Read | ReadDir
  | ReadLink | Remove | Rename | Renew | RestoreFh | SaveFh
  | SecInfo | SetAttr | SetClientId | SetClientIdConfirm | Verify | Write
  | ReleaseLockOwner | BackchannelCtl | BindConnToSession | ExchangeId | CreateSession | DestroySession
  | FreeStateId | GetDirDelegation | GetDeviceInfo | GetDeviceList | LayoutCommit | LayoutGet
  | LayoutReturn | SecInfoNoName | Sequence | SetSsv | TestStateId | WantDelegation
  | DestroyClientId | ReclaimComplete | Illegal

primrec op_u32 :: "OpCode \<Rightarrow> u32" where
  "op_u32 OpCode.Access = 3"
| "op_u32 OpCode.Close = 4"
| "op_u32 OpCode.Commit = 5"
| "op_u32 OpCode.Create = 6"
| "op_u32 OpCode.DelegPurge = 7"
| "op_u32 OpCode.DelegReturn = 8"
| "op_u32 OpCode.GetAttr = 9"
| "op_u32 OpCode.GetFh = 10"
| "op_u32 OpCode.Link = 11"
| "op_u32 OpCode.Lock = 12"
| "op_u32 OpCode.LockT = 13"
| "op_u32 OpCode.LockU = 14"
| "op_u32 OpCode.Lookup = 15"
| "op_u32 OpCode.LookupP = 16"
| "op_u32 OpCode.NVerify = 17"
| "op_u32 OpCode.Open = 18"
| "op_u32 OpCode.OpenAttr = 19"
| "op_u32 OpCode.OpenConfirm = 20"
| "op_u32 OpCode.OpenDowngrade = 21"
| "op_u32 OpCode.PutFh = 22"
| "op_u32 OpCode.PutPubFh = 23"
| "op_u32 OpCode.PutRootFh = 24"
| "op_u32 OpCode.Read = 25"
| "op_u32 OpCode.ReadDir = 26"
| "op_u32 OpCode.ReadLink = 27"
| "op_u32 OpCode.Remove = 28"
| "op_u32 OpCode.Rename = 29"
| "op_u32 OpCode.Renew = 30"
| "op_u32 OpCode.RestoreFh = 31"
| "op_u32 OpCode.SaveFh = 32"
| "op_u32 OpCode.SecInfo = 33"
| "op_u32 OpCode.SetAttr = 34"
| "op_u32 OpCode.SetClientId = 35"
| "op_u32 OpCode.SetClientIdConfirm = 36"
| "op_u32 OpCode.Verify = 37"
| "op_u32 OpCode.Write = 38"
| "op_u32 OpCode.ReleaseLockOwner = 39"
| "op_u32 OpCode.BackchannelCtl = 40"
| "op_u32 OpCode.BindConnToSession = 41"
| "op_u32 OpCode.ExchangeId = 42"
| "op_u32 OpCode.CreateSession = 43"
| "op_u32 OpCode.DestroySession = 44"
| "op_u32 OpCode.FreeStateId = 45"
| "op_u32 OpCode.GetDirDelegation = 46"
| "op_u32 OpCode.GetDeviceInfo = 47"
| "op_u32 OpCode.GetDeviceList = 48"
| "op_u32 OpCode.LayoutCommit = 49"
| "op_u32 OpCode.LayoutGet = 50"
| "op_u32 OpCode.LayoutReturn = 51"
| "op_u32 OpCode.SecInfoNoName = 52"
| "op_u32 OpCode.Sequence = 53"
| "op_u32 OpCode.SetSsv = 54"
| "op_u32 OpCode.TestStateId = 55"
| "op_u32 OpCode.WantDelegation = 56"
| "op_u32 OpCode.DestroyClientId = 57"
| "op_u32 OpCode.ReclaimComplete = 58"
| "op_u32 OpCode.Illegal = 10044"

primrec op_name :: "OpCode \<Rightarrow> string" where
  "op_name OpCode.Access = ''ACCESS''"
| "op_name OpCode.Close = ''CLOSE''"
| "op_name OpCode.Commit = ''COMMIT''"
| "op_name OpCode.Create = ''CREATE''"
| "op_name OpCode.DelegPurge = ''DELEGPURGE''"
| "op_name OpCode.DelegReturn = ''DELEGRETURN''"
| "op_name OpCode.GetAttr = ''GETATTR''"
| "op_name OpCode.GetFh = ''GETFH''"
| "op_name OpCode.Link = ''LINK''"
| "op_name OpCode.Lock = ''LOCK''"
| "op_name OpCode.LockT = ''LOCKT''"
| "op_name OpCode.LockU = ''LOCKU''"
| "op_name OpCode.Lookup = ''LOOKUP''"
| "op_name OpCode.LookupP = ''LOOKUPP''"
| "op_name OpCode.NVerify = ''NVERIFY''"
| "op_name OpCode.Open = ''OPEN''"
| "op_name OpCode.OpenAttr = ''OPENATTR''"
| "op_name OpCode.OpenConfirm = ''OPEN_CONFIRM''"
| "op_name OpCode.OpenDowngrade = ''OPEN_DOWNGRADE''"
| "op_name OpCode.PutFh = ''PUTFH''"
| "op_name OpCode.PutPubFh = ''PUTPUBFH''"
| "op_name OpCode.PutRootFh = ''PUTROOTFH''"
| "op_name OpCode.Read = ''READ''"
| "op_name OpCode.ReadDir = ''READDIR''"
| "op_name OpCode.ReadLink = ''READLINK''"
| "op_name OpCode.Remove = ''REMOVE''"
| "op_name OpCode.Rename = ''RENAME''"
| "op_name OpCode.Renew = ''RENEW''"
| "op_name OpCode.RestoreFh = ''RESTOREFH''"
| "op_name OpCode.SaveFh = ''SAVEFH''"
| "op_name OpCode.SecInfo = ''SECINFO''"
| "op_name OpCode.SetAttr = ''SETATTR''"
| "op_name OpCode.SetClientId = ''SETCLIENTID''"
| "op_name OpCode.SetClientIdConfirm = ''SETCLIENTID_CONFIRM''"
| "op_name OpCode.Verify = ''VERIFY''"
| "op_name OpCode.Write = ''WRITE''"
| "op_name OpCode.ReleaseLockOwner = ''RELEASE_LOCKOWNER''"
| "op_name OpCode.BackchannelCtl = ''BACKCHANNEL_CTL''"
| "op_name OpCode.BindConnToSession = ''BIND_CONN_TO_SESSION''"
| "op_name OpCode.ExchangeId = ''EXCHANGE_ID''"
| "op_name OpCode.CreateSession = ''CREATE_SESSION''"
| "op_name OpCode.DestroySession = ''DESTROY_SESSION''"
| "op_name OpCode.FreeStateId = ''FREE_STATEID''"
| "op_name OpCode.GetDirDelegation = ''GET_DIR_DELEGATION''"
| "op_name OpCode.GetDeviceInfo = ''GETDEVICEINFO''"
| "op_name OpCode.GetDeviceList = ''GETDEVICELIST''"
| "op_name OpCode.LayoutCommit = ''LAYOUTCOMMIT''"
| "op_name OpCode.LayoutGet = ''LAYOUTGET''"
| "op_name OpCode.LayoutReturn = ''LAYOUTRETURN''"
| "op_name OpCode.SecInfoNoName = ''SECINFO_NO_NAME''"
| "op_name OpCode.Sequence = ''SEQUENCE''"
| "op_name OpCode.SetSsv = ''SET_SSV''"
| "op_name OpCode.TestStateId = ''TEST_STATEID''"
| "op_name OpCode.WantDelegation = ''WANT_DELEGATION''"
| "op_name OpCode.DestroyClientId = ''DESTROY_CLIENTID''"
| "op_name OpCode.ReclaimComplete = ''RECLAIM_COMPLETE''"
| "op_name OpCode.Illegal = ''ILLEGAL''"

definition all_opcodes :: "OpCode list" where
  "all_opcodes =
    [OpCode.Access, OpCode.Close, OpCode.Commit, OpCode.Create, OpCode.DelegPurge,
     OpCode.DelegReturn, OpCode.GetAttr, OpCode.GetFh, OpCode.Link, OpCode.Lock,
     OpCode.LockT, OpCode.LockU, OpCode.Lookup, OpCode.LookupP, OpCode.NVerify,
     OpCode.Open, OpCode.OpenAttr, OpCode.OpenConfirm, OpCode.OpenDowngrade, OpCode.PutFh,
     OpCode.PutPubFh, OpCode.PutRootFh, OpCode.Read, OpCode.ReadDir, OpCode.ReadLink,
     OpCode.Remove, OpCode.Rename, OpCode.Renew, OpCode.RestoreFh, OpCode.SaveFh,
     OpCode.SecInfo, OpCode.SetAttr, OpCode.SetClientId, OpCode.SetClientIdConfirm, OpCode.Verify,
     OpCode.Write, OpCode.ReleaseLockOwner, OpCode.BackchannelCtl, OpCode.BindConnToSession, OpCode.ExchangeId,
     OpCode.CreateSession, OpCode.DestroySession, OpCode.FreeStateId, OpCode.GetDirDelegation, OpCode.GetDeviceInfo,
     OpCode.GetDeviceList, OpCode.LayoutCommit, OpCode.LayoutGet, OpCode.LayoutReturn, OpCode.SecInfoNoName,
     OpCode.Sequence, OpCode.SetSsv, OpCode.TestStateId, OpCode.WantDelegation, OpCode.DestroyClientId,
     OpCode.ReclaimComplete, OpCode.Illegal]"

lemma UNIV_OpCode: "set all_opcodes = UNIV"
proof -
  have "op \<in> set all_opcodes" for op by (cases op) (simp_all add: all_opcodes_def)
  then show ?thesis by auto
qed

lemma distinct_op_names: "distinct (map op_name all_opcodes)"
  by (simp add: all_opcodes_def)

lemma op_name_inject [simp]: "op_name a = op_name b \<longleftrightarrow> a = b"
  using distinct_op_names UNIV_OpCode by (metis distinct_map inj_eq)

lemma distinct_op_u32: "distinct (map op_u32 all_opcodes)"
  by (simp add: all_opcodes_def)

lemma op_u32_inject [simp]: "op_u32 a = op_u32 b \<longleftrightarrow> a = b"
  using distinct_op_u32 UNIV_OpCode by (metis distinct_map inj_eq)

subsection \<open>The error type\<close>

datatype Error =
    Io string
  | Rpc string
  | ConnectionLost string
  | RequestNotSent Error
  | Xdr string
  | Nfs (status_code: u32) (operation: string)
  | Protocol string
  | InvalidPath string
  | AlreadyExists string
  | OutcomeUnknown string string string
  | FileSizeMismatch u64 "u64 option"
  | InvalidConfig string
  | Unsupported string
  | Timeout duration
  | BufferedReadTooLarge "u64 option" u64

type_synonym 'a result = "('a, Error) outcome"

definition op_from_u32 :: "u32 \<Rightarrow> (OpCode, Error) outcome" where
  "op_from_u32 v =
    (if v = 3 then Ok OpCode.Access
     else if v = 4 then Ok OpCode.Close
     else if v = 5 then Ok OpCode.Commit
     else if v = 6 then Ok OpCode.Create
     else if v = 7 then Ok OpCode.DelegPurge
     else if v = 8 then Ok OpCode.DelegReturn
     else if v = 9 then Ok OpCode.GetAttr
     else if v = 10 then Ok OpCode.GetFh
     else if v = 11 then Ok OpCode.Link
     else if v = 12 then Ok OpCode.Lock
     else if v = 13 then Ok OpCode.LockT
     else if v = 14 then Ok OpCode.LockU
     else if v = 15 then Ok OpCode.Lookup
     else if v = 16 then Ok OpCode.LookupP
     else if v = 17 then Ok OpCode.NVerify
     else if v = 18 then Ok OpCode.Open
     else if v = 19 then Ok OpCode.OpenAttr
     else if v = 20 then Ok OpCode.OpenConfirm
     else if v = 21 then Ok OpCode.OpenDowngrade
     else if v = 22 then Ok OpCode.PutFh
     else if v = 23 then Ok OpCode.PutPubFh
     else if v = 24 then Ok OpCode.PutRootFh
     else if v = 25 then Ok OpCode.Read
     else if v = 26 then Ok OpCode.ReadDir
     else if v = 27 then Ok OpCode.ReadLink
     else if v = 28 then Ok OpCode.Remove
     else if v = 29 then Ok OpCode.Rename
     else if v = 30 then Ok OpCode.Renew
     else if v = 31 then Ok OpCode.RestoreFh
     else if v = 32 then Ok OpCode.SaveFh
     else if v = 33 then Ok OpCode.SecInfo
     else if v = 34 then Ok OpCode.SetAttr
     else if v = 35 then Ok OpCode.SetClientId
     else if v = 36 then Ok OpCode.SetClientIdConfirm
     else if v = 37 then Ok OpCode.Verify
     else if v = 38 then Ok OpCode.Write
     else if v = 39 then Ok OpCode.ReleaseLockOwner
     else if v = 40 then Ok OpCode.BackchannelCtl
     else if v = 41 then Ok OpCode.BindConnToSession
     else if v = 42 then Ok OpCode.ExchangeId
     else if v = 43 then Ok OpCode.CreateSession
     else if v = 44 then Ok OpCode.DestroySession
     else if v = 45 then Ok OpCode.FreeStateId
     else if v = 46 then Ok OpCode.GetDirDelegation
     else if v = 47 then Ok OpCode.GetDeviceInfo
     else if v = 48 then Ok OpCode.GetDeviceList
     else if v = 49 then Ok OpCode.LayoutCommit
     else if v = 50 then Ok OpCode.LayoutGet
     else if v = 51 then Ok OpCode.LayoutReturn
     else if v = 52 then Ok OpCode.SecInfoNoName
     else if v = 53 then Ok OpCode.Sequence
     else if v = 54 then Ok OpCode.SetSsv
     else if v = 55 then Ok OpCode.TestStateId
     else if v = 56 then Ok OpCode.WantDelegation
     else if v = 57 then Ok OpCode.DestroyClientId
     else if v = 58 then Ok OpCode.ReclaimComplete
     else if v = 10044 then Ok OpCode.Illegal
     else Err (Protocol ''unknown NFS operation {other}''))"

lemma op_from_u32_op_u32 [simp]: "op_from_u32 (op_u32 op) = Ok op"
  by (cases op) (simp_all add: op_from_u32_def)

lemma op_from_u32_not_Panic [simp]: "op_from_u32 v \<noteq> Panic"
  by (simp add: op_from_u32_def)

lemma op_from_u32_Ok: "op_from_u32 v = Ok op \<longleftrightarrow> v = op_u32 op"
proof
  assume "op_from_u32 v = Ok op"
  then show "v = op_u32 op"
    unfolding op_from_u32_def by (simp split: if_split_asm)
qed simp

lemma op_from_u32_Err: "op_from_u32 v = Err e \<Longrightarrow> e = Protocol ''unknown NFS operation {other}''"
  unfolding op_from_u32_def by (simp split: if_split_asm)

definition request_not_sent :: "Error \<Rightarrow> Error" where
  "request_not_sent source = (case source of
     RequestNotSent e \<Rightarrow> source
   | _ \<Rightarrow> RequestNotSent source)"

definition nfs_error :: "u32 \<Rightarrow> OpCode \<Rightarrow> Error" where
  "nfs_error status op = Nfs status (op_name op)"

primrec is_retryable :: "Error \<Rightarrow> bool" where
  "is_retryable (Io m) = True"
| "is_retryable (ConnectionLost m) = True"
| "is_retryable (Timeout d) = True"
| "is_retryable (RequestNotSent source) = is_retryable source"
| "is_retryable (Nfs status op) \<longleftrightarrow>
     status = status_DELAY \<or> status = status_GRACE \<or> status = status_STALE_CLIENTID \<or>
     status = status_BADSESSION \<or> status = status_BADSLOT \<or> status = status_SEQ_MISORDERED \<or>
     status = status_BAD_HIGH_SLOT \<or> status = status_DEADSESSION"
| "is_retryable (Rpc m) = False"
| "is_retryable (Xdr m) = False"
| "is_retryable (Protocol m) = False"
| "is_retryable (InvalidPath m) = False"
| "is_retryable (AlreadyExists m) = False"
| "is_retryable (OutcomeUnknown op path reason) = False"
| "is_retryable (FileSizeMismatch e a) = False"
| "is_retryable (InvalidConfig m) = False"
| "is_retryable (Unsupported m) = False"
| "is_retryable (BufferedReadTooLarge s l) = False"

primrec requires_session_rebuild :: "Error \<Rightarrow> bool" where
  "requires_session_rebuild (Io m) = True"
| "requires_session_rebuild (ConnectionLost m) = True"
| "requires_session_rebuild (Timeout d) = True"
| "requires_session_rebuild (RequestNotSent source) = requires_session_rebuild source"
| "requires_session_rebuild (Nfs status op) \<longleftrightarrow>
     status = status_STALE_CLIENTID \<or> status = status_BADSESSION \<or> status = status_BADSLOT \<or>
     status = status_SEQ_MISORDERED \<or> status = status_BAD_HIGH_SLOT \<or> status = status_DEADSESSION"
| "requires_session_rebuild (Rpc m) = False"
| "requires_session_rebuild (Xdr m) = False"
| "requires_session_rebuild (Protocol m) = False"
| "requires_session_rebuild (InvalidPath m) = False"
| "requires_session_rebuild (AlreadyExists m) = False"
| "requires_session_rebuild (OutcomeUnknown op path reason) = False"
| "requires_session_rebuild (FileSizeMismatch e a) = False"
| "requires_session_rebuild (InvalidConfig m) = False"
| "requires_session_rebuild (Unsupported m) = False"
| "requires_session_rebuild (BufferedReadTooLarge s l) = False"

definition with_close_failure :: "Error \<Rightarrow> Error \<Rightarrow> Error" where
  "with_close_failure self close_err =
    (let message = ''{self}; additionally failed to close NFS file: {close_err}'' in
     if requires_session_rebuild self \<or> requires_session_rebuild close_err
     then ConnectionLost message
     else if is_retryable self then self
     else if is_retryable close_err then close_err
     else Protocol message)"

definition is_nfs_status :: "Error \<Rightarrow> u32 \<Rightarrow> bool" where
  "is_nfs_status e status = (case e of Nfs s _ \<Rightarrow> s = status | _ \<Rightarrow> False)"

definition is_nfs_error :: "Error \<Rightarrow> u32 \<Rightarrow> OpCode \<Rightarrow> bool" where
  "is_nfs_error e status op = (case e of Nfs s o' \<Rightarrow> s = status \<and> o' = op_name op | _ \<Rightarrow> False)"

definition is_nfs_operation :: "Error \<Rightarrow> OpCode \<Rightarrow> bool" where
  "is_nfs_operation e op = (case e of Nfs s o' \<Rightarrow> o' = op_name op | _ \<Rightarrow> False)"

definition is_not_found :: "Error \<Rightarrow> bool" where
  "is_not_found e \<longleftrightarrow>
     is_nfs_error e status_NOENT OpCode.Lookup \<or>
     is_nfs_error e status_NOENT OpCode.Open \<or>
     is_nfs_error e status_NOENT OpCode.Remove"

definition is_permission_denied :: "Error \<Rightarrow> bool" where
  "is_permission_denied e = (case e of
     Nfs s _ \<Rightarrow> s = status_PERM \<or> s = status_ACCESS \<or> s = status_WRONGSEC
   | _ \<Rightarrow> False)"

definition is_outcome_unknown :: "Error \<Rightarrow> bool" where
  "is_outcome_unknown e = (case e of OutcomeUnknown _ _ _ \<Rightarrow> True | _ \<Rightarrow> False)"

definition is_request_not_sent :: "Error \<Rightarrow> bool" where
  "is_request_not_sent e = (case e of RequestNotSent _ \<Rightarrow> True | _ \<Rightarrow> False)"

definition is_buffered_read_too_large :: "Error \<Rightarrow> bool" where
  "is_buffered_read_too_large e = (case e of BufferedReadTooLarge _ _ \<Rightarrow> True | _ \<Rightarrow> False)"

definition nfs_status_code :: "Error \<Rightarrow> u32 option" where
  "nfs_status_code e = (case e of Nfs s _ \<Rightarrow> Some s | _ \<Rightarrow> None)"

definition nfs_operation :: "Error \<Rightarrow> string option" where
  "nfs_operation e = (case e of Nfs _ op \<Rightarrow> Some op | _ \<Rightarrow> None)"

subsection \<open>Facts about the classification\<close>

lemmas [err_simps] = is_nfs_status_def is_nfs_error_def is_nfs_operation_def
  is_outcome_unknown_def is_request_not_sent_def is_permission_denied_def is_not_found_def
  nfs_error_def nfs_status_code_def nfs_operation_def is_buffered_read_too_large_def

lemma rebuild_is_retryable: "requires_session_rebuild e \<Longrightarrow> is_retryable e"
  by (induction e) auto

lemma outcome_unknown_final:
  "is_outcome_unknown e \<Longrightarrow> \<not> is_retryable e \<and> \<not> requires_session_rebuild e"
  by (cases e) (simp_all add: err_simps)

lemma request_not_sent_idem [simp]:
  "request_not_sent (request_not_sent e) = request_not_sent e"
  by (cases e) (simp_all add: request_not_sent_def)

lemma request_not_sent_class [simp]:
  "is_request_not_sent (request_not_sent e)"
  "is_retryable (request_not_sent e) = is_retryable e"
  "requires_session_rebuild (request_not_sent e) = requires_session_rebuild e"
  by (cases e; simp add: request_not_sent_def is_request_not_sent_def)+

lemma is_nfs_error_nfs_error [simp]:
  "is_nfs_error (nfs_error st op) st' op' \<longleftrightarrow> st = st' \<and> op = op'"
  by (auto simp: err_simps)

lemma with_close_failure_retryable [simp]:
  "is_retryable (with_close_failure e c) \<longleftrightarrow> is_retryable e \<or> is_retryable c"
  by (auto simp: with_close_failure_def Let_def dest: rebuild_is_retryable)

lemma with_close_failure_rebuild [simp]:
  "requires_session_rebuild (with_close_failure e c) \<longleftrightarrow>
     requires_session_rebuild e \<or> requires_session_rebuild c"
  by (auto simp: with_close_failure_def Let_def)

lemma retryable_not_rebuild:
  "is_retryable e \<Longrightarrow> \<not> requires_session_rebuild e \<Longrightarrow>
     \<exists>st op. (e = Nfs st op \<or> is_request_not_sent e) \<and>
       (is_nfs_status e st \<longrightarrow> st = status_DELAY \<or> st = status_GRACE)"
  by (induction e) (auto simp: err_simps)

subsection \<open>Properties\<close>

text \<open>
  C27. The error classification that drives retries is coherent: an error that needs a new session
  is always retryable, a mutation whose outcome is unknown is never either, wrapping an error as
  not sent keeps both classes, and folding a CLOSE failure into an error is retryable, or needs a
  new session, exactly when one of the two errors does.
\<close>

theorem error_classification:
  "(requires_session_rebuild e \<longrightarrow> is_retryable e) \<and>
   (is_outcome_unknown e \<longrightarrow> \<not> is_retryable e \<and> \<not> requires_session_rebuild e) \<and>
   is_retryable (request_not_sent e) = is_retryable e \<and>
   requires_session_rebuild (request_not_sent e) = requires_session_rebuild e \<and>
   is_retryable (with_close_failure e c) = (is_retryable e \<or> is_retryable c) \<and>
   requires_session_rebuild (with_close_failure e c) =
     (requires_session_rebuild e \<or> requires_session_rebuild c)"
  using rebuild_is_retryable [of e] outcome_unknown_final [of e] by simp

theorem error_classification_witness:
  "is_retryable (ConnectionLost ''x'') \<and> \<not> is_retryable (OutcomeUnknown ''put'' ''a'' ''b'') \<and>
   is_retryable (with_close_failure (Protocol ''x'') (Nfs status_DELAY ''CLOSE''))"
  using error_classification [of "ConnectionLost ''x''" "Protocol ''x''"]
    error_classification [of "OutcomeUnknown ''put'' ''a'' ''b''" "Protocol ''x''"]
    error_classification [of "Protocol ''x''" "Nfs status_DELAY ''CLOSE''"]
  by (simp add: is_outcome_unknown_def)

text \<open>
  Decoding an operation number inverts the numbering of the operations, every other number is
  a protocol error, and an NFS error built for an operation is recognised for that status and
  operation only.
\<close>

lemma opcode_round_trip:
  "(op_from_u32 v = Ok op \<longleftrightarrow> v = op_u32 op) \<and>
   (op_from_u32 v = Err e \<longleftrightarrow>
      e = Protocol ''unknown NFS operation {other}'' \<and> (\<forall>op. v \<noteq> op_u32 op)) \<and>
   (is_nfs_error (nfs_error st op) st' op' \<longleftrightarrow> st = st' \<and> op = op')"
proof -
  have "op_from_u32 v = Err (Protocol ''unknown NFS operation {other}'')" if "\<forall>op. v \<noteq> op_u32 op"
    using that op_from_u32_Ok [of v] op_from_u32_Err [of v] op_from_u32_not_Panic [of v]
    by (cases "op_from_u32 v") auto
  moreover have "v \<noteq> op_u32 op" if "op_from_u32 v = Err e" for op using that by auto
  ultimately show ?thesis using op_from_u32_Ok [of v op] op_from_u32_Err [of v e] by auto
qed

end
