(* ===== verification/Xdr_Codec.thy ===== *)
theory Xdr_Codec
  imports Errors "HOL-Library.Sublist"
begin

text \<open>
  The XDR encoder and decoder of \<open>src/xdr.rs\<close>. An \<open>XdrEncoder\<close> is the byte list written so far; a
  \<open>put_\<close> operation appends to it and is \<open>None\<close> where the code panics (\<open>xdr_length_word\<close> on a value
  longer than \<open>u32::MAX\<close>). An \<open>XdrDecoder\<close> is the byte list not read yet; a \<open>read_\<close> operation is a
  computation on it. The buffer methods of \<open>Bytes\<close> (\<open>get_u32\<close>, \<open>advance\<close>, \<open>copy_to_slice\<close>) panic
  when the buffer is too short, and so do their models.
\<close>

unbundle bit_operations_syntax

type_synonym XdrEncoder = bytes
type_synonym XdrDecoder = bytes
type_synonym 'a decoder = "(XdrDecoder, Error, 'a) stm"

subsection \<open>Lengths\<close>

definition xdr_padding :: "usize \<Rightarrow> usize" where
  "xdr_padding len = (4 - (len AND 3)) AND 3"

definition xdr_fixed_opaque_len :: "usize \<Rightarrow> usize" where
  "xdr_fixed_opaque_len len = saturating_add len (xdr_padding len)"

definition xdr_opaque_len :: "usize \<Rightarrow> usize" where
  "xdr_opaque_len len = saturating_add 4 (xdr_fixed_opaque_len len)"

definition xdr_length_word :: "usize \<Rightarrow> u32 option" where
  "xdr_length_word len = (if len \<le> u32_max then Some (of_nat len) else None)"

definition decode_bool_word :: "u32 \<Rightarrow> bool result" where
  "decode_bool_word value =
    (if value = 0 then Ok False
     else if value = 1 then Ok True
     else Err (Xdr ''invalid XDR bool value {value}''))"

definition opaque_padded_len :: "usize \<Rightarrow> usize result" where
  "opaque_padded_len len = ok_or (Xdr ''opaque length overflow'') (checked_add len (xdr_padding len))"

definition opaque_remaining_len :: "usize \<Rightarrow> usize \<Rightarrow> usize result" where
  "opaque_remaining_len len consumed =
    then_outcome
      (ok_or (Xdr ''opaque decoder consumed {consumed} bytes from a {len} byte value'')
        (checked_sub len consumed))
      (\<lambda>remaining_value.
         ok_or (Xdr ''opaque length overflow'') (checked_add remaining_value (xdr_padding len)))"

lemma nat_and_3: "(n :: nat) AND 3 = n mod 4"
proof -
  have "(3 :: nat) = mask 2" by (simp add: mask_eq_exp_minus_1)
  then have "n AND 3 = take_bit 2 n" by (simp only: take_bit_eq_mask)
  then show ?thesis by (simp add: take_bit_eq_mod)
qed

lemma xdr_padding_mod: "xdr_padding len = (4 - len mod 4) mod 4"
  by (simp add: xdr_padding_def nat_and_3)

lemma xdr_padding_less: "xdr_padding len < 4"
  by (simp add: xdr_padding_mod)

lemma xdr_padding_le [simp]: "xdr_padding len \<le> 3"
  using xdr_padding_less [of len] by simp

lemma xdr_padding_0 [simp]: "xdr_padding 0 = 0"
  by (simp add: xdr_padding_mod)

lemma xdr_padding_aligns: "4 dvd len + xdr_padding len"
proof -
  have "len mod 4 < 4" by simp
  then consider "len mod 4 = 0" | "len mod 4 = 1" | "len mod 4 = 2" | "len mod 4 = 3" by linarith
  then have "(len + xdr_padding len) mod 4 = 0"
    unfolding xdr_padding_mod by cases (simp_all, presburger+)
  then show ?thesis by (simp only: dvd_eq_mod_eq_0)
qed

lemma xdr_padding_aligned [simp]: "4 dvd len \<Longrightarrow> xdr_padding len = 0"
  by (simp add: xdr_padding_mod)

lemma xdr_padding_u32_fits: "len \<le> u32_max \<Longrightarrow> len + xdr_padding len \<le> usize_max"
  using xdr_padding_less [of len] by (simp add: u32_max_def usize_max_def)

lemma xdr_opaque_len_exact:
  "len \<le> u32_max \<Longrightarrow> xdr_opaque_len len = 4 + (len + xdr_padding len)"
  using xdr_padding_less [of len]
  by (simp add: xdr_opaque_len_def xdr_fixed_opaque_len_def saturating_add_def
      u32_max_def usize_max_def min_def)

lemma opaque_padded_len_word [simp]:
  "opaque_padded_len (unat (w :: u32)) = Ok (unat w + xdr_padding (unat w))"
  using xdr_padding_u32_fits [of "unat w"] by (simp add: opaque_padded_len_def checked_add_def)

lemma opaque_padded_len_exact:
  "len \<le> u32_max \<Longrightarrow> opaque_padded_len len = Ok (len + xdr_padding len)"
  using xdr_padding_u32_fits [of len] by (simp add: opaque_padded_len_def checked_add_def)

lemma opaque_padded_len_not_Panic [simp]: "opaque_padded_len len \<noteq> Panic"
  by (simp add: opaque_padded_len_def)

lemma decode_bool_word_not_Panic [simp]: "decode_bool_word v \<noteq> Panic"
  by (simp add: decode_bool_word_def)

lemma decode_bool_word_of_bool [simp]: "decode_bool_word (of_bool b) = Ok b"
  by (cases b) (simp_all add: decode_bool_word_def)

lemma decode_bool_word_0_1 [simp]: "decode_bool_word 0 = Ok False" "decode_bool_word 1 = Ok True"
  by (simp_all add: decode_bool_word_def)

lemma decode_bool_word_Ok: "decode_bool_word v = Ok b \<longleftrightarrow> v = of_bool b"
  by (cases b) (auto simp: decode_bool_word_def)

subsection \<open>The encoder\<close>

definition put_u32 :: "u32 \<Rightarrow> XdrEncoder \<Rightarrow> XdrEncoder option" where
  "put_u32 value enc = Some (enc @ be_bytes 4 value)"

definition put_u64 :: "u64 \<Rightarrow> XdrEncoder \<Rightarrow> XdrEncoder option" where
  "put_u64 value enc = Some (enc @ be_bytes 8 value)"

definition put_bool :: "bool \<Rightarrow> XdrEncoder \<Rightarrow> XdrEncoder option" where
  "put_bool value enc = put_u32 (of_bool value) enc"

definition put_bytes :: "bytes \<Rightarrow> XdrEncoder \<Rightarrow> XdrEncoder option" where
  "put_bytes value enc = Some (enc @ value)"

definition put_padding :: "usize \<Rightarrow> XdrEncoder \<Rightarrow> XdrEncoder option" where
  "put_padding len enc =
    (let padding = xdr_padding len in
     if padding \<noteq> 0 then Some (enc @ take padding [0, 0, 0]) else Some enc)"

definition put_opaque :: "bytes \<Rightarrow> XdrEncoder \<Rightarrow> XdrEncoder option" where
  "put_opaque value enc = do {
     len \<leftarrow> xdr_length_word (length value);
     enc \<leftarrow> put_u32 len enc;
     if value = [] then Some enc
     else do {
       enc \<leftarrow> put_bytes value enc;
       put_padding (length value) enc
     }
   }"

definition put_string :: "string \<Rightarrow> XdrEncoder \<Rightarrow> XdrEncoder option" where
  "put_string value enc = put_opaque (as_bytes value) enc"

text \<open>The bytes an opaque value occupies on the wire: length word, contents, zero padding.\<close>

definition pad :: "usize \<Rightarrow> bytes" where
  "pad len = replicate (xdr_padding len) 0"

definition opaque_wire :: "bytes \<Rightarrow> bytes" where
  "opaque_wire value = be_bytes 4 (of_nat (length value) :: u32) @ value @ pad (length value)"

lemma length_pad [simp]: "length (pad len) = xdr_padding len"
  by (simp add: pad_def)

lemma pad_0 [simp]: "pad 0 = []"
  by (simp add: pad_def)

lemma put_padding_eq [simp]: "put_padding len enc = Some (enc @ pad len)"
proof -
  have "xdr_padding len \<in> {0, 1, 2, 3}" using xdr_padding_less [of len] by auto
  then show ?thesis by (auto simp: put_padding_def pad_def numeral_eq_Suc)
qed

lemma put_u32_eq [simp]: "put_u32 v enc = Some (enc @ be_bytes 4 v)"
  by (simp add: put_u32_def)

lemma put_u64_eq [simp]: "put_u64 v enc = Some (enc @ be_bytes 8 v)"
  by (simp add: put_u64_def)

lemma put_bool_eq [simp]: "put_bool b enc = Some (enc @ be_bytes 4 (of_bool b :: u32))"
  by (simp add: put_bool_def)

lemma put_bytes_eq [simp]: "put_bytes bs enc = Some (enc @ bs)"
  by (simp add: put_bytes_def)

lemma put_opaque_eq:
  "put_opaque bs enc = (if length bs \<le> u32_max then Some (enc @ opaque_wire bs) else None)"
  by (auto simp: put_opaque_def xdr_length_word_def opaque_wire_def)

lemma put_string_eq:
  "put_string s enc =
     (if length s \<le> u32_max then Some (enc @ opaque_wire (as_bytes s)) else None)"
  by (simp add: put_string_def put_opaque_eq)

lemma length_opaque_wire [simp]:
  "length (opaque_wire bs) = 4 + (length bs + xdr_padding (length bs))"
  by (simp add: opaque_wire_def)

subsection \<open>Buffer primitives\<close>

definition require :: "usize \<Rightarrow> unit decoder" where
  "require len buf =
    (if length buf < len
     then (Err (Xdr ''buffer underflow: need {len} bytes, have {}''), buf)
     else (Ok (), buf))"

definition buf_get_u32 :: "u32 decoder" where
  "buf_get_u32 buf = (if length buf < 4 then (Panic, buf) else (Ok (of_be (take 4 buf)), drop 4 buf))"

definition buf_get_u64 :: "u64 decoder" where
  "buf_get_u64 buf = (if length buf < 8 then (Panic, buf) else (Ok (of_be (take 8 buf)), drop 8 buf))"

definition buf_take :: "usize \<Rightarrow> bytes decoder" where
  "buf_take n buf = (if length buf < n then (Panic, buf) else (Ok (take n buf), drop n buf))"

definition buf_advance :: "usize \<Rightarrow> unit decoder" where
  "buf_advance n buf = (if length buf < n then (Panic, buf) else (Ok (), drop n buf))"

definition remaining :: "usize decoder" where
  "remaining buf = (Ok (length buf), buf)"

subsection \<open>The decoder\<close>

definition read_u32_after_require :: "u32 decoder" where
  "read_u32_after_require = buf_get_u32"

definition read_u64_after_require :: "u64 decoder" where
  "read_u64_after_require = buf_get_u64"

definition read_u32 :: "u32 decoder" where
  "read_u32 = and_then (require 4) (\<lambda>_. read_u32_after_require)"

definition read_u64 :: "u64 decoder" where
  "read_u64 = and_then (require 8) (\<lambda>_. read_u64_after_require)"

definition read_u32_pair :: "(u32 \<times> u32) decoder" where
  "read_u32_pair =
    and_then (require 8) (\<lambda>_.
    and_then read_u32_after_require (\<lambda>a.
    and_then read_u32_after_require (\<lambda>b. ok (a, b))))"

definition read_u32_triple :: "(u32 \<times> u32 \<times> u32) decoder" where
  "read_u32_triple =
    and_then (require 12) (\<lambda>_.
    and_then read_u32_after_require (\<lambda>a.
    and_then read_u32_after_require (\<lambda>b.
    and_then read_u32_after_require (\<lambda>c. ok (a, b, c)))))"

definition read_u32_and_bytes :: "usize \<Rightarrow> (u32 \<times> bytes) decoder" where
  "read_u32_and_bytes N =
    and_then (lift (ok_or (Xdr ''fixed read length overflow'') (checked_add 4 N))) (\<lambda>total_len.
    and_then (require total_len) (\<lambda>_.
    and_then read_u32_after_require (\<lambda>word.
    and_then (buf_take N) (\<lambda>bytes. ok (word, bytes)))))"

definition read_u32_pair_and_bytes :: "usize \<Rightarrow> (u32 \<times> u32 \<times> bytes) decoder" where
  "read_u32_pair_and_bytes N =
    and_then (lift (ok_or (Xdr ''fixed read length overflow'') (checked_add 8 N))) (\<lambda>total_len.
    and_then (require total_len) (\<lambda>_.
    and_then read_u32_after_require (\<lambda>first.
    and_then read_u32_after_require (\<lambda>second.
    and_then (buf_take N) (\<lambda>bytes. ok (first, second, bytes))))))"

definition read_bool :: "bool decoder" where
  "read_bool = and_then read_u32 (\<lambda>value. lift (decode_bool_word value))"

definition read_bool_and_skip :: "usize \<Rightarrow> bool decoder" where
  "read_bool_and_skip skip_len =
    and_then (lift (ok_or (Xdr ''bool skip length overflow'') (checked_add 4 skip_len))) (\<lambda>total_len.
    and_then (require total_len) (\<lambda>_.
    and_then read_u32_after_require (\<lambda>word.
    and_then (lift (decode_bool_word word)) (\<lambda>out.
    and_then (buf_advance skip_len) (\<lambda>_. ok out)))))"

definition read_opaque_bytes :: "usize \<Rightarrow> bytes decoder" where
  "read_opaque_bytes len =
    (if len = 0 then ok []
     else
       (let padding = xdr_padding len in
        and_then (lift (opaque_padded_len len)) (\<lambda>total_len.
        and_then (require total_len) (\<lambda>_.
        and_then (buf_take len) (\<lambda>out.
        and_then (buf_advance padding) (\<lambda>_. ok out))))))"

definition read_bool_and_opaque :: "(bool \<times> bytes) decoder" where
  "read_bool_and_opaque =
    and_then read_u32_pair (\<lambda>(value, len).
    and_then (lift (decode_bool_word value)) (\<lambda>value.
    and_then (read_opaque_bytes (unat len)) (\<lambda>data. ok (value, data))))"

definition read_bytes :: "usize \<Rightarrow> bytes decoder" where
  "read_bytes N = and_then (require N) (\<lambda>_. buf_take N)"

definition skip_bytes_after_require :: "usize \<Rightarrow> unit decoder" where
  "skip_bytes_after_require len = buf_advance len"

definition skip_bytes :: "usize \<Rightarrow> unit decoder" where
  "skip_bytes len = and_then (require len) (\<lambda>_. skip_bytes_after_require len)"

definition read_opaque :: "bytes decoder" where
  "read_opaque = and_then read_u32 (\<lambda>len. read_opaque_bytes (unat len))"

definition read_opaque_extent_len :: "usize decoder" where
  "read_opaque_extent_len =
    and_then read_u32 (\<lambda>len.
    and_then (lift (opaque_padded_len (unat len))) (\<lambda>padded.
    and_then (require padded) (\<lambda>_. ok (unat len))))"

definition finish_opaque_after_require :: "usize \<Rightarrow> usize \<Rightarrow> unit decoder" where
  "finish_opaque_after_require len consumed =
    and_then (lift (opaque_remaining_len len consumed)) (\<lambda>skip_len. buf_advance skip_len)"

definition read_string_unless :: "(bytes \<Rightarrow> bool) \<Rightarrow> string option decoder" where
  "read_string_unless skip =
    and_then read_u32 (\<lambda>len.
    let len = unat len; padding = xdr_padding len in
    and_then (lift (ok_or (Xdr ''string length overflow'') (checked_add len padding))) (\<lambda>total_len.
    and_then (require total_len) (\<lambda>_.
    and_then (\<lambda>buf. (Ok (take len buf), buf)) (\<lambda>value.
    and_then
      (if skip value then ok None
       else if utf8_valid value then ok (Some (from_bytes value))
       else fail (Xdr ''invalid utf-8 sequence'')) (\<lambda>string.
    and_then (buf_advance total_len) (\<lambda>_. ok string))))))"

definition read_u32_skip_opaque_and_read_u32 :: "(u32 \<times> u32) decoder" where
  "read_u32_skip_opaque_and_read_u32 =
    and_then read_u32_pair (\<lambda>(first, len).
    and_then (lift (opaque_padded_len (unat len))) (\<lambda>skip_len.
    and_then (lift (ok_or (Xdr ''opaque skip length overflow'') (checked_add skip_len 4))) (\<lambda>total_len.
    and_then (require total_len) (\<lambda>_.
    and_then (buf_advance skip_len) (\<lambda>_.
    and_then read_u32_after_require (\<lambda>second. ok (first, second)))))))"

definition skip_opaque :: "unit decoder" where
  "skip_opaque =
    and_then read_u32 (\<lambda>len.
    and_then (lift (opaque_padded_len (unat len))) (\<lambda>skip_len.
    if skip_len = 0 then ok ()
    else and_then (require skip_len) (\<lambda>_. buf_advance skip_len)))"

definition into_remaining :: "XdrDecoder \<Rightarrow> bytes" where
  "into_remaining buf = (if length buf = 0 then [] else take (length buf) buf)"

text \<open>\<open>for _ in 0..n { out.push(m()?) }\<close>: the loop with which the crate reads a counted array.\<close>

primrec read_many :: "nat \<Rightarrow> ('s, 'e, 'a) stm \<Rightarrow> ('s, 'e, 'a list) stm" where
  "read_many 0 m = ok []"
| "read_many (Suc n) m = and_then m (\<lambda>x. and_then (read_many n m) (\<lambda>xs. ok (x # xs)))"

subsection \<open>What each operation does to the buffer\<close>

abbreviation underflow :: Error where
  "underflow \<equiv> Xdr ''buffer underflow: need {len} bytes, have {}''"

named_theorems dec_eqs \<open>closed forms of the read operations\<close>

lemma require_run [run_simps]:
  "n \<le> length d \<Longrightarrow> require n d = (Ok (), d)"
  "length d < n \<Longrightarrow> require n d = (Err underflow, d)"
  by (simp_all add: require_def)

lemma buf_run [run_simps]:
  "4 \<le> length d \<Longrightarrow> buf_get_u32 d = (Ok (of_be (take 4 d)), drop 4 d)"
  "8 \<le> length d \<Longrightarrow> buf_get_u64 d = (Ok (of_be (take 8 d)), drop 8 d)"
  "n \<le> length d \<Longrightarrow> buf_take n d = (Ok (take n d), drop n d)"
  "n \<le> length d \<Longrightarrow> buf_advance n d = (Ok (), drop n d)"
  by (simp_all add: buf_get_u32_def buf_get_u64_def buf_take_def buf_advance_def)

lemma after_require_run [run_simps]:
  "4 \<le> length d \<Longrightarrow> read_u32_after_require d = (Ok (of_be (take 4 d)), drop 4 d)"
  "8 \<le> length d \<Longrightarrow> read_u64_after_require d = (Ok (of_be (take 8 d)), drop 8 d)"
  "n \<le> length d \<Longrightarrow> skip_bytes_after_require n d = (Ok (), drop n d)"
  by (simp_all add: read_u32_after_require_def read_u64_after_require_def
      skip_bytes_after_require_def buf_run)

lemma read_u32_eq [dec_eqs]:
  "read_u32 d = (if length d < 4 then (Err underflow, d) else (Ok (of_be (take 4 d)), drop 4 d))"
  by (simp add: read_u32_def run_simps)

lemma read_u64_eq [dec_eqs]:
  "read_u64 d = (if length d < 8 then (Err underflow, d) else (Ok (of_be (take 8 d)), drop 8 d))"
  by (simp add: read_u64_def run_simps)

lemma read_u32_pair_eq [dec_eqs]:
  "read_u32_pair d = (if length d < 8 then (Err underflow, d)
     else (Ok (of_be (take 4 d), of_be (take 4 (drop 4 d))), drop 8 d))"
  by (simp add: read_u32_pair_def run_simps)

lemma read_u32_triple_eq [dec_eqs]:
  "read_u32_triple d = (if length d < 12 then (Err underflow, d)
     else (Ok (of_be (take 4 d), of_be (take 4 (drop 4 d)), of_be (take 4 (drop 8 d))), drop 12 d))"
  by (simp add: read_u32_triple_def run_simps)

lemma read_u32_and_bytes_eq [dec_eqs]:
  "N \<le> u32_max \<Longrightarrow> read_u32_and_bytes N d = (if length d < 4 + N then (Err underflow, d)
     else (Ok (of_be (take 4 d), take N (drop 4 d)), drop (4 + N) d))"
  by (simp add: read_u32_and_bytes_def checked_add_def u32_max_def usize_max_def run_simps add.commute)

lemma read_u32_pair_and_bytes_eq [dec_eqs]:
  "N \<le> u32_max \<Longrightarrow> read_u32_pair_and_bytes N d = (if length d < 8 + N then (Err underflow, d)
     else (Ok (of_be (take 4 d), of_be (take 4 (drop 4 d)), take N (drop 8 d)), drop (8 + N) d))"
  by (simp add: read_u32_pair_and_bytes_def checked_add_def u32_max_def usize_max_def run_simps
      add.commute)

lemma read_bool_eq [dec_eqs]:
  "read_bool d = (if length d < 4 then (Err underflow, d)
     else (decode_bool_word (of_be (take 4 d)), drop 4 d))"
  by (simp add: read_bool_def and_then_def read_u32_eq)

lemma read_bytes_eq [dec_eqs]:
  "read_bytes N d = (if length d < N then (Err underflow, d) else (Ok (take N d), drop N d))"
  by (simp add: read_bytes_def run_simps)

lemma skip_bytes_eq [dec_eqs]:
  "skip_bytes N d = (if length d < N then (Err underflow, d) else (Ok (), drop N d))"
  by (simp add: skip_bytes_def run_simps)

lemma read_opaque_bytes_eq [dec_eqs]:
  "len \<le> u32_max \<Longrightarrow> read_opaque_bytes len d =
     (if length d < len + xdr_padding len then (Err underflow, d)
      else (Ok (take len d), drop (len + xdr_padding len) d))"
  by (auto simp: read_opaque_bytes_def opaque_padded_len_exact run_simps add.commute)

lemma read_opaque_eq [dec_eqs]:
  "read_opaque d = (if length d < 4 then (Err underflow, d)
     else read_opaque_bytes (unat (of_be (take 4 d) :: u32)) (drop 4 d))"
  by (simp add: read_opaque_def and_then_def read_u32_eq)

lemma skip_opaque_eq [dec_eqs]:
  "skip_opaque d = (if length d < 4 then (Err underflow, d)
     else let len = unat (of_be (take 4 d) :: u32); n = len + xdr_padding len in
       if length d - 4 < n then (Err underflow, drop 4 d) else (Ok (), drop (4 + n) d))"
  by (auto simp: skip_opaque_def and_then_def read_u32_eq require_def buf_advance_def Let_def
      add.commute)

lemma read_opaque_extent_len_eq [dec_eqs]:
  "read_opaque_extent_len d = (if length d < 4 then (Err underflow, d)
     else let len = unat (of_be (take 4 d) :: u32) in
       if length d - 4 < len + xdr_padding len then (Err underflow, drop 4 d)
       else (Ok len, drop 4 d))"
  by (auto simp: read_opaque_extent_len_def and_then_def read_u32_eq require_def Let_def)

subsection \<open>Safe decoders\<close>

text \<open>
  A decoder is safe when it never panics and only moves forward: what it leaves is a suffix
  of what it was given. The rules below derive it for composed decoders.
\<close>

definition safe :: "'a decoder \<Rightarrow> bool" where
  "safe m \<longleftrightarrow> (\<forall>d. fst (m d) \<noteq> Panic \<and> suffix (snd (m d)) d)"

lemma safeI: "(\<And>d. fst (m d) \<noteq> Panic \<and> suffix (snd (m d)) d) \<Longrightarrow> safe m"
  by (simp add: safe_def)

lemma safe_not_Panic: "safe m \<Longrightarrow> m d \<noteq> (Panic, d')"
  by (metis fst_conv safe_def)

lemma safe_suffix: "safe m \<Longrightarrow> m d = (r, d') \<Longrightarrow> suffix d' d"
  by (metis snd_conv safe_def)

lemma safe_length: "safe m \<Longrightarrow> m d = (r, d') \<Longrightarrow> length d' \<le> length d"
  by (simp add: safe_suffix suffix_length_le)

lemma safe_and_then [safe_intros]:
  assumes "safe m" and "\<And>v. safe (f v)"
  shows "safe (and_then m f)"
proof (rule safeI)
  fix d
  obtain r d' where m: "m d = (r, d')" by fastforce
  have "suffix d' d" using safe_suffix [OF assms(1) m] .
  then show "fst (and_then m f d) \<noteq> Panic \<and> suffix (snd (and_then m f d)) d"
    using m assms safe_not_Panic [OF assms(1)]
    by (cases r) (auto simp: and_then_def safe_def intro: suffix_order.order_trans)
qed

lemma safe_ok [safe_intros]: "safe (ok v)"
  by (simp add: safe_def)

lemma safe_fail [safe_intros]: "safe (fail e)"
  by (simp add: safe_def)

lemma safe_lift [safe_intros]: "r \<noteq> Panic \<Longrightarrow> safe (lift r)"
  by (simp add: safe_def)

lemma safe_if [safe_intros]: "(b \<Longrightarrow> safe m) \<Longrightarrow> (\<not> b \<Longrightarrow> safe n) \<Longrightarrow> safe (if b then m else n)"
  by simp

lemma safe_case_prod [safe_intros]: "(\<And>a b. safe (f a b)) \<Longrightarrow> safe (case p of (a, b) \<Rightarrow> f a b)"
  by (cases p) simp

lemma safe_case_option [safe_intros]:
  "safe m \<Longrightarrow> (\<And>v. safe (f v)) \<Longrightarrow> safe (case x of None \<Rightarrow> m | Some v \<Rightarrow> f v)"
  by (cases x) simp_all

lemma safe_Let [safe_intros]: "safe (f v) \<Longrightarrow> safe (let x = v in f x)"
  by simp

lemma safe_require [safe_intros]: "safe (require n)"
  by (simp add: safe_def require_def)

lemma safe_read_many [safe_intros]: "safe m \<Longrightarrow> safe (read_many n m)"
  by (induction n) (auto intro: safe_intros)

lemma suffix_drop_self [simp]: "suffix (drop n d) d"
  by (rule suffix_drop)

lemma suffix_self [simp]: "suffix d d"
  by simp

lemma safe_read_u32 [safe_intros]: "safe read_u32"
  by (simp add: safe_def read_u32_eq)

lemma safe_read_u64 [safe_intros]: "safe read_u64"
  by (simp add: safe_def read_u64_eq)

lemma safe_read_u32_pair [safe_intros]: "safe read_u32_pair"
  by (simp add: safe_def read_u32_pair_eq)

lemma safe_read_u32_triple [safe_intros]: "safe read_u32_triple"
  by (simp add: safe_def read_u32_triple_eq)

lemma safe_read_bytes [safe_intros]: "safe (read_bytes N)"
  by (simp add: safe_def read_bytes_eq)

lemma safe_skip_bytes [safe_intros]: "safe (skip_bytes N)"
  by (simp add: safe_def skip_bytes_eq)

lemma safe_read_bool [safe_intros]: "safe read_bool"
  unfolding read_bool_def by (intro safe_intros) simp

lemma safe_read_u32_and_bytes [safe_intros]: "safe (read_u32_and_bytes N)"
  by (auto simp: safe_def read_u32_and_bytes_def checked_add_def and_then_def require_def
      after_require_run buf_take_def split: prod.splits outcome.splits)

lemma safe_read_u32_pair_and_bytes [safe_intros]: "safe (read_u32_pair_and_bytes N)"
  by (auto simp: safe_def read_u32_pair_and_bytes_def checked_add_def and_then_def require_def
      after_require_run buf_take_def split: prod.splits outcome.splits)

lemma safe_read_bool_and_skip [safe_intros]: "safe (read_bool_and_skip N)"
  by (auto simp: safe_def read_bool_and_skip_def checked_add_def and_then_def require_def
      after_require_run buf_advance_def split: prod.splits outcome.splits)

lemma safe_read_opaque_bytes [safe_intros]: "safe (read_opaque_bytes len)"
  by (auto simp: safe_def read_opaque_bytes_def opaque_padded_len_def checked_add_def and_then_def
      require_def buf_take_def buf_advance_def Let_def split: prod.splits outcome.splits)

lemma safe_read_opaque [safe_intros]: "safe read_opaque"
  unfolding read_opaque_def by (intro safe_intros)

lemma safe_read_bool_and_opaque [safe_intros]: "safe read_bool_and_opaque"
  unfolding read_bool_and_opaque_def by (intro safe_intros) simp

lemma safe_read_opaque_extent_len [safe_intros]: "safe read_opaque_extent_len"
  unfolding read_opaque_extent_len_def by (intro safe_intros) simp

lemma safe_skip_opaque [safe_intros]: "safe skip_opaque"
  by (simp add: safe_def skip_opaque_eq Let_def)

lemma safe_read_string_unless [safe_intros]: "safe (read_string_unless skip)"
  by (auto simp: safe_def read_string_unless_def checked_add_def and_then_def require_def
      read_u32_eq buf_advance_def Let_def split: prod.splits outcome.splits)

lemma safe_read_u32_skip_opaque_and_read_u32 [safe_intros]:
  "safe read_u32_skip_opaque_and_read_u32"
  by (auto simp: safe_def read_u32_skip_opaque_and_read_u32_def checked_add_def and_then_def
      require_def read_u32_pair_eq buf_advance_def after_require_run split: prod.splits outcome.splits)

subsection \<open>Round trips\<close>

text \<open>
  The contract between an encoder and a decoder of one type: on valid values the encoder
  appends the value's wire form, and the decoder reads exactly that form back, whatever
  follows it.
\<close>

locale xdr_codec =
  fixes put :: "'a \<Rightarrow> XdrEncoder \<Rightarrow> XdrEncoder option"
    and get :: "'a decoder"
    and wire :: "'a \<Rightarrow> bytes"
    and valid :: "'a \<Rightarrow> bool"
  assumes put_wire: "valid v \<Longrightarrow> put v enc = Some (enc @ wire v)"
    and get_wire: "valid v \<Longrightarrow> get (wire v @ rest) = (Ok v, rest)"
begin

lemma round_trip: "valid v \<Longrightarrow> put v [] = Some bs \<Longrightarrow> get (bs @ rest) = (Ok v, rest)"
  using put_wire [of v "[]"] get_wire [of v rest] by auto

lemma wire_prefix_free:
  assumes "valid v" and "valid w" and same: "wire v @ rest = wire w @ rest'"
  shows "v = w \<and> rest = rest'"
proof -
  have "(Ok v, rest) = get (wire v @ rest)" using assms(1) by (rule get_wire [symmetric])
  also have "\<dots> = (Ok w, rest')" unfolding same using assms(2) by (rule get_wire)
  finally show ?thesis by simp
qed

lemma wire_inject: "valid v \<Longrightarrow> valid w \<Longrightarrow> wire v = wire w \<longleftrightarrow> v = w"
  using wire_prefix_free [of v w "[]" "[]"] by auto

lemma read_many_wire:
  "(\<And>v. v \<in> set vs \<Longrightarrow> valid v) \<Longrightarrow>
     read_many (length vs) get (concat (map wire vs) @ rest) = (Ok vs, rest)"
  by (induction vs) (simp_all add: get_wire and_then_def)

end

lemma read_u32_wire [simp]: "read_u32 (be_bytes 4 v @ rest) = (Ok v, rest)"
  by (simp add: read_u32_eq)

lemma read_u64_wire [simp]: "read_u64 (be_bytes 8 v @ rest) = (Ok v, rest)"
  by (simp add: read_u64_eq)

lemma read_opaque_wire [simp]:
  "length bs \<le> u32_max \<Longrightarrow> read_opaque (opaque_wire bs @ rest) = (Ok bs, rest)"
  by (simp add: read_opaque_eq opaque_wire_def unat_of_nat_u32 read_opaque_bytes_eq)

lemma skip_opaque_wire [simp]:
  "length bs \<le> u32_max \<Longrightarrow> skip_opaque (opaque_wire bs @ rest) = (Ok (), rest)"
  by (simp add: skip_opaque_eq opaque_wire_def unat_of_nat_u32 Let_def)

lemma read_string_unless_wire:
  "length bs \<le> u32_max \<Longrightarrow> read_string_unless skip (opaque_wire bs @ rest) =
     (if skip bs then (Ok None, rest)
      else if utf8_valid bs then (Ok (Some (from_bytes bs)), rest)
      else (Err (Xdr ''invalid utf-8 sequence''), bs @ pad (length bs) @ rest))"
  using xdr_padding_u32_fits [of "length bs"]
  by (simp add: read_string_unless_def and_then_def opaque_wire_def unat_of_nat_u32 Let_def
      checked_add_def require_def buf_advance_def)

interpretation u32_codec: xdr_codec put_u32 read_u32 "be_bytes 4" "\<lambda>_. True"
  by unfold_locales simp_all

interpretation u64_codec: xdr_codec put_u64 read_u64 "be_bytes 8" "\<lambda>_. True"
  by unfold_locales simp_all

interpretation bool_codec: xdr_codec put_bool read_bool "\<lambda>b. be_bytes 4 (of_bool b :: u32)" "\<lambda>_. True"
  by unfold_locales (simp_all add: read_bool_eq)

interpretation opaque_codec: xdr_codec put_opaque read_opaque opaque_wire "\<lambda>bs. length bs \<le> u32_max"
  by unfold_locales (simp_all add: put_opaque_eq)

subsection \<open>Properties\<close>

text \<open>
  C37. Opaque values survive the wire: what \<open>put_opaque\<close> appends is a whole number of four-byte words
  that \<open>read_opaque\<close> reads back, whatever follows, and \<open>skip_opaque\<close> skips; and it panics exactly on values
  longer than \<open>u32::MAX\<close>.
\<close>

theorem opaque_round_trip:
  "(put_opaque bs enc = None \<longleftrightarrow> length bs > u32_max) \<and>
   (\<forall>enc'. put_opaque bs enc = Some enc' \<longrightarrow>
     (\<exists>w. enc' = enc @ w \<and> length w = xdr_opaque_len (length bs) \<and> 4 dvd length w \<and>
       (\<forall>rest. read_opaque (w @ rest) = (Ok bs, rest) \<and> skip_opaque (w @ rest) = (Ok (), rest))))"
  using xdr_padding_aligns [of "length bs"]
  by (auto simp: put_opaque_eq xdr_opaque_len_exact intro!: exI [of _ "opaque_wire bs"])

theorem opaque_round_trip_witness:
  "\<exists>w. put_opaque [1, 2, 3] [9] = Some ([9] @ w) \<and> read_opaque (w @ [7]) = (Ok [1, 2, 3], [7])"
  using opaque_round_trip [of "[1, 2, 3]" "[9]"] by (auto simp: put_opaque_eq u32_max_def)

text \<open>
  A string is read back as the same text when its bytes are well-formed UTF-8, and is refused
  otherwise; a name the caller asks to skip is consumed without being checked.
\<close>

lemma string_round_trip:
  assumes "put_string s [] = Some w"
  shows "read_string_unless skip (w @ rest) =
    (if skip (as_bytes s) then (Ok None, rest)
     else if utf8_valid (as_bytes s) then (Ok (Some s), rest)
     else (Err (Xdr ''invalid utf-8 sequence''), as_bytes s @ pad (length s) @ rest))"
  using assms read_string_unless_wire [of "as_bytes s" skip rest]
  by (auto simp: put_string_eq split: if_splits)

end
