(* ===== verification/Paths.thy ===== *)
theory Paths
  imports Xdr_Codec
begin

text \<open>
  Root-relative paths (\<open>src/path.rs\<close>): the parser that splits a path at its slashes, the checks on
  its components, and the two entry points for user paths. A path is the list of its
  components. String slicing panics outside the string and off a character boundary, as it
  does in Rust; the parser is shown never to do either.
\<close>

type_synonym NfsPath = "string list"

definition TEMP_FILE_PREFIX :: string where
  "TEMP_FILE_PREFIX = ''.nfs-crust-tmp-''"

definition starts_with :: "string \<Rightarrow> string \<Rightarrow> bool" where
  "starts_with s p \<longleftrightarrow> take (length p) s = p"

subsection \<open>Slicing a string\<close>

definition is_char_boundary :: "string \<Rightarrow> nat \<Rightarrow> bool" where
  "is_char_boundary s i \<longleftrightarrow>
     i = 0 \<or> i = length s \<or> (i < length s \<and> \<not> utf8_cont (as_bytes s ! i))"

definition str_slice :: "string \<Rightarrow> nat \<Rightarrow> nat \<Rightarrow> string result" where
  "str_slice s i j =
    (if i \<le> j \<and> j \<le> length s \<and> is_char_boundary s i \<and> is_char_boundary s j
     then Ok (take (j - i) (drop i s)) else Panic)"

subsection \<open>The parser\<close>

function trim_start_index :: "string \<Rightarrow> nat \<Rightarrow> nat" where
  "trim_start_index bytes start =
    (if start < length bytes \<and> bytes ! start = CHR ''/''
     then trim_start_index bytes (start + 1) else start)"
  by pat_completeness auto
termination
  by (relation "measure (\<lambda>(bytes, start). length bytes - start)") auto

fun trim_end_index :: "string \<Rightarrow> nat \<Rightarrow> nat \<Rightarrow> nat" where
  "trim_end_index bytes start 0 = 0"
| "trim_end_index bytes start (Suc e) =
    (if Suc e > start \<and> bytes ! e = CHR ''/'' then trim_end_index bytes start e else Suc e)"

declare trim_start_index.simps [simp del]

definition push_component :: "string \<Rightarrow> nat \<Rightarrow> nat \<Rightarrow> NfsPath \<Rightarrow> NfsPath result" where
  "push_component path start end' components =
    then_outcome (str_slice path start end') (\<lambda>component.
      if component = ''.'' \<or> component = ''..''
      then Err (InvalidPath ''reserved path component {component:?} is not valid in paths'')
      else Ok (components @ [component]))"

text \<open>
  The loop over \<open>bytes[start..end]\<close>: its state is the current index, the start of the component
  being read, and the components pushed so far.
\<close>

primrec component_loop ::
  "string \<Rightarrow> string \<Rightarrow> nat \<Rightarrow> nat \<Rightarrow> NfsPath \<Rightarrow> (nat \<times> NfsPath) result" where
  "component_loop [] value index component_start components = Ok (component_start, components)"
| "component_loop (byte # bytes) value index component_start components =
    (if byte = CHR 0x00 then Err (InvalidPath ''NUL bytes are not valid in paths'')
     else if byte = CHR ''/'' then
       (if index = component_start
        then Err (InvalidPath ''empty path components are not valid paths'')
        else then_outcome (push_component value component_start index components)
          (\<lambda>components. component_loop bytes value (index + 1) (index + 1) components))
     else component_loop bytes value (index + 1) component_start components)"

definition parse_components :: "string \<Rightarrow> NfsPath result" where
  "parse_components value =
    (let start = trim_start_index value 0;
         end' = trim_end_index value start (length value) in
     if start = end' then Ok []
     else then_outcome
       (component_loop (take (end' - start) (drop start value)) value start start [])
       (\<lambda>(component_start, components). push_component value component_start end' components))"

definition validate_user_components :: "NfsPath \<Rightarrow> unit result" where
  "validate_user_components components =
    (case find (\<lambda>component. starts_with component TEMP_FILE_PREFIX) components of
       Some component \<Rightarrow> Err (InvalidPath
         ''path component {component:?} uses the reserved nfs-crust temporary-file namespace'')
     | None \<Rightarrow> Ok ())"

definition nfs_path_file :: "string \<Rightarrow> NfsPath result" where
  "nfs_path_file path =
    then_outcome (parse_components path) (\<lambda>parsed.
      if parsed = [] then Err (InvalidPath ''file path must not be empty'')
      else then_outcome (validate_user_components parsed) (\<lambda>_. Ok parsed))"

definition nfs_path_directory :: "string \<Rightarrow> NfsPath result" where
  "nfs_path_directory path =
    then_outcome (parse_components path) (\<lambda>parsed.
      then_outcome (validate_user_components parsed) (\<lambda>_. Ok parsed))"

definition parent_and_name :: "NfsPath \<Rightarrow> (NfsPath \<times> string) result" where
  "parent_and_name components =
    (if components = [] then Err (InvalidPath ''file path must not be empty'')
     else Ok (butlast components, last components))"

definition parse_export :: "string \<Rightarrow> NfsPath result" where
  "parse_export export = parse_components export"

subsection \<open>What a path means\<close>

text \<open>
  The reference: strip the slashes at both ends and split what is left at every slash. A
  component is admissible when it is not empty, not \<open>.\<close> or \<open>..\<close>, and holds no NUL and no slash.
\<close>

definition trim_slashes :: "string \<Rightarrow> string" where
  "trim_slashes s = rev (dropWhile (\<lambda>c. c = CHR ''/'') (rev (dropWhile (\<lambda>c. c = CHR ''/'') s)))"

fun split_slashes :: "string \<Rightarrow> string list" where
  "split_slashes [] = [[]]"
| "split_slashes (c # cs) =
    (if c = CHR ''/'' then [] # split_slashes cs
     else (case split_slashes cs of
             [] \<Rightarrow> [[c]]
           | p # ps \<Rightarrow> (c # p) # ps))"

fun join_slashes :: "string list \<Rightarrow> string" where
  "join_slashes [] = []"
| "join_slashes [p] = p"
| "join_slashes (p # q # ps) = p @ CHR ''/'' # join_slashes (q # ps)"

definition component_ok :: "string \<Rightarrow> bool" where
  "component_ok c \<longleftrightarrow>
     c \<noteq> [] \<and> c \<noteq> ''.'' \<and> c \<noteq> ''..'' \<and> CHR 0x00 \<notin> set c \<and> CHR ''/'' \<notin> set c"

definition path_components :: "string \<Rightarrow> string list" where
  "path_components s = (if trim_slashes s = [] then [] else split_slashes (trim_slashes s))"

subsection \<open>Character boundaries\<close>

lemma utf8_validE:
  assumes "utf8_valid (a # bs)"
  obtains (ascii) "a < 0x80" "utf8_valid bs"
    | (multi) n where "0xC2 \<le> a" "n \<le> length bs" "\<And>k. k < n \<Longrightarrow> utf8_cont (bs ! k)"
        "utf8_valid (drop n bs)"
proof (cases "a < 0x80")
  case True
  then show thesis using assms ascii by simp
next
  case high: False
  then obtain b cs where bs: "bs = b # cs" using assms by (cases bs) auto
  show thesis
  proof (cases "0xC2 \<le> a \<and> a \<le> 0xDF")
    case True
    then show thesis using assms high bs by (intro multi [of 1]) auto
  next
    case not2: False
    then obtain c ds where cs: "cs = c # ds" using assms high bs by (cases cs) auto
    show thesis
    proof (cases "0xE0 \<le> a \<and> a \<le> 0xEF")
      case True
      then have "0xC2 \<le> a" by (auto intro: order_trans [of _ "0xE0"])
      then show thesis using True assms high bs cs not2
        by (intro multi [of 2]) (auto simp: less_Suc_eq numeral_eq_Suc)
    next
      case not3: False
      then obtain d es where ds: "ds = d # es" using assms high bs cs not2 by (cases ds) auto
      have a: "0xF0 \<le> a" using assms high bs cs ds not2 not3 by (auto split: if_splits)
      then have "0xC2 \<le> a" by (auto intro: order_trans [of _ "0xF0"])
      then show thesis using a assms high bs cs ds not2 not3
        by (intro multi [of 3]) (auto simp: less_Suc_eq numeral_eq_Suc split: if_splits)
    qed
  qed
qed

lemma utf8_cont_ge: "utf8_cont b \<Longrightarrow> \<not> b < 0x80"
  by (simp add: utf8_cont_def not_less)

lemma utf8_valid_hd: "utf8_valid (b # bs) \<Longrightarrow> \<not> utf8_cont b"
proof (erule utf8_validE)
  assume "b < 0x80"
  then show ?thesis using utf8_cont_ge by blast
next
  assume "0xC2 \<le> b"
  then have "\<not> b \<le> 0xBF" by (auto simp: not_le intro: less_le_trans [of _ "0xC2"])
  then show ?thesis by (simp add: utf8_cont_def)
qed

lemma utf8_after_ascii:
  "utf8_valid bs \<Longrightarrow> Suc i < length bs \<Longrightarrow> bs ! i < 0x80 \<Longrightarrow> \<not> utf8_cont (bs ! Suc i)"
proof (induction bs arbitrary: i rule: length_induct)
  case (1 bs)
  then obtain a as where bs: "bs = a # as" by (cases bs) auto
  have "utf8_valid (a # as)" using 1 bs by simp
  then show ?case
  proof (cases rule: utf8_validE)
    case ascii
    show ?thesis
    proof (cases i)
      case 0
      then obtain b bs' where "as = b # bs'" using 1 bs by (cases as) auto
      then show ?thesis using utf8_valid_hd [of b bs'] ascii(2) 0 bs by simp
    next
      case (Suc j)
      then show ?thesis using 1 bs ascii by auto
    qed
  next
    case (multi n)
    have high: "\<not> a < 0x80" using multi(1) by (auto simp: not_less intro: order_trans [of _ "0xC2"])
    then obtain j where i: "i = Suc j" using 1 bs by (cases i) auto
    have "\<not> j < n" using multi(3) [of j] 1 bs i utf8_cont_ge by auto
    then have drop: "drop n as ! (j - n) = as ! j" "drop n as ! Suc (j - n) = as ! Suc j"
      using multi(2) 1 bs i by (auto simp: Suc_diff_le)
    have "\<not> utf8_cont (drop n as ! Suc (j - n))"
      using 1 bs i multi(2,4) drop \<open>\<not> j < n\<close> by (intro 1(1) [rule_format]) auto
    then show ?thesis using bs i drop by simp
  qed
qed

text \<open>A position next to an ASCII character is a boundary of a well-formed string.\<close>

lemma ascii_boundary:
  assumes "utf8_valid (as_bytes s)" and "i \<le> length s"
    and "i = 0 \<or> i = length s \<or> s ! i = CHR ''/'' \<or> s ! (i - 1) = CHR ''/''"
  shows "is_char_boundary s i"
proof -
  have slash: "as_bytes s ! k = 0x2F" if "s ! k = CHR ''/''" "k < length s" for k
    using that by (simp add: as_bytes_def)
  have not_cont: "\<not> utf8_cont 0x2F" by (simp add: utf8_cont_def)
  consider "i = 0 \<or> i = length s" | "i < length s" "s ! i = CHR ''/''"
    | "0 < i" "i < length s" "s ! (i - 1) = CHR ''/''"
    using assms by (cases "i = 0 \<or> i = length s") auto
  then show ?thesis
  proof cases
    case 1
    then show ?thesis by (auto simp: is_char_boundary_def)
  next
    case 2
    then show ?thesis using slash not_cont by (simp add: is_char_boundary_def)
  next
    case 3
    then have "\<not> utf8_cont (as_bytes s ! Suc (i - 1))"
      using slash [of "i - 1"] by (intro utf8_after_ascii assms(1)) auto
    then show ?thesis using 3 by (simp add: is_char_boundary_def)
  qed
qed

subsection \<open>The parser against its meaning\<close>

text \<open>The same loop over the pending component instead of two indices into the string.\<close>

definition push_name :: "string \<Rightarrow> NfsPath \<Rightarrow> NfsPath result" where
  "push_name c components =
    (if c = ''.'' \<or> c = ''..''
     then Err (InvalidPath ''reserved path component {component:?} is not valid in paths'')
     else Ok (components @ [c]))"

primrec pending_loop :: "string \<Rightarrow> string \<Rightarrow> NfsPath \<Rightarrow> NfsPath result" where
  "pending_loop [] p components = push_name p components"
| "pending_loop (c # cs) p components =
    (if c = CHR 0x00 then Err (InvalidPath ''NUL bytes are not valid in paths'')
     else if c = CHR ''/'' then
       (if p = [] then Err (InvalidPath ''empty path components are not valid paths'')
        else then_outcome (push_name p components) (pending_loop cs []))
     else pending_loop cs (p @ [c]) components)"

lemma push_component_name:
  assumes "utf8_valid (as_bytes v)" "i \<le> j" "j \<le> length v"
    and "i = 0 \<or> v ! (i - 1) = CHR ''/''" and "j = length v \<or> v ! j = CHR ''/''"
  shows "push_component v i j comps = push_name (take (j - i) (drop i v)) comps"
  using assms ascii_boundary [of v i] ascii_boundary [of v j]
  by (auto simp: push_component_def push_name_def str_slice_def)

lemma component_loop_pending:
  assumes "utf8_valid (as_bytes v)"
    and "bs = take (e - index) (drop index v)" and "e \<le> length v"
    and "e = length v \<or> v ! e = CHR ''/''"
    and "start \<le> index" "index \<le> e" and "start = 0 \<or> v ! (start - 1) = CHR ''/''"
  shows "then_outcome (component_loop bs v index start comps)
           (\<lambda>(component_start, components). push_component v component_start e components)
         = pending_loop bs (take (index - start) (drop start v)) comps"
  using assms(2-)
proof (induction bs arbitrary: index start comps)
  case Nil
  then have "index = e" by auto
  then show ?case using Nil assms(1) by (simp add: push_component_name)
next
  case (Cons b bs)
  then have lt: "index < e" by (cases "index = e") auto
  then have hd: "drop index v = v ! index # drop (Suc index) v"
    using Cons.prems by (simp add: Cons_nth_drop_Suc)
  have b: "b = v ! index" and bs: "bs = take (e - Suc index) (drop (Suc index) v)"
    using Cons.prems(1) lt by (simp_all add: hd take_Cons')
  have snoc: "take (Suc index - start) (drop start v) = take (index - start) (drop start v) @ [b]"
    using Cons.prems lt b by (simp add: Suc_diff_le take_Suc_conv_app_nth)
  show ?case
  proof (cases "b = CHR ''/''")
    case slash: True
    have push: "push_component v start index comps = push_name (take (index - start) (drop start v)) comps"
      using Cons.prems assms(1) lt b slash by (intro push_component_name) auto
    have empty: "take (index - start) (drop start v) = [] \<longleftrightarrow> index = start"
      using Cons.prems lt by auto
    have IH: "then_outcome (component_loop bs v (Suc index) (Suc index) comps')
           (\<lambda>(component_start, components). push_component v component_start e components)
         = pending_loop bs [] comps'" for comps'
      using Cons.IH [of "Suc index" "Suc index" comps'] Cons.prems lt b bs slash by simp
    show ?thesis
      using slash empty push IH
      by (cases "push_name (take (index - start) (drop start v)) comps") auto
  next
    case False
    then show ?thesis
      using Cons.IH [of "Suc index" start comps] Cons.prems(2-) lt bs snoc by simp
  qed
qed

lemma split_slashes_not_Nil [simp]: "split_slashes cs \<noteq> []"
  by (cases cs) (auto split: list.splits)

lemma split_slashes_append:
  "CHR ''/'' \<notin> set p \<Longrightarrow> split_slashes (p @ cs) = (p @ hd (split_slashes cs)) # tl (split_slashes cs)"
  by (induction p) (auto split: list.splits)

lemma pending_loop_split:
  assumes "CHR ''/'' \<notin> set p" and "CHR 0x00 \<notin> set p" and "cs = [] \<longrightarrow> p \<noteq> []"
    and "cs \<noteq> [] \<longrightarrow> last cs \<noteq> CHR ''/''"
  shows "pending_loop cs p comps = Ok out \<longleftrightarrow>
           out = comps @ split_slashes (p @ cs) \<and> (\<forall>c \<in> set (split_slashes (p @ cs)). component_ok c)"
    and "(\<exists>m. pending_loop cs p comps = Err (InvalidPath m)) \<or> (\<exists>out. pending_loop cs p comps = Ok out)"
  using assms
proof (induction cs arbitrary: p comps)
  case Nil
  {
    case 1
    then show ?case using split_slashes_append [of p "[]"]
      by (auto simp: push_name_def component_ok_def)
  next
    case 2
    show ?case by (simp add: push_name_def)
  }
next
  case (Cons c cs)
  {
    case 1
    show ?case
    proof (cases "c = CHR ''/''")
      case True
      then have ne: "cs \<noteq> []" "last cs \<noteq> CHR ''/''" using 1 by (auto split: if_splits)
      have "pending_loop cs [] (comps @ [p]) = Ok out \<longleftrightarrow>
          out = comps @ [p] @ split_slashes cs \<and> (\<forall>c \<in> set (split_slashes cs). component_ok c)"
        using Cons.IH(1) [of "[]" "comps @ [p]"] ne by simp
      then show ?thesis using True 1 split_slashes_append [of p "c # cs"]
        by (auto simp: push_name_def component_ok_def)
    next
      case False
      then have "last cs \<noteq> CHR ''/''" if "cs \<noteq> []" using that 1 by auto
      then have "c \<noteq> CHR 0x00 \<Longrightarrow> ?thesis"
        using Cons.IH(1) [of "p @ [c]" comps] 1 False by simp
      moreover have "c = CHR 0x00 \<Longrightarrow> ?thesis"
        using 1 split_slashes_append [of "p @ [c]" cs] by (auto simp: component_ok_def)
      ultimately show ?thesis by blast
    qed
  next
    case 2
    show ?case
    proof (cases "c = CHR ''/''")
      case True
      then have "cs \<noteq> []" "last cs \<noteq> CHR ''/''" using 2 by (auto split: if_splits)
      then show ?thesis using True Cons.IH(2) [of "[]" "comps @ [p]"]
        by (auto simp: push_name_def)
    next
      case False
      then have "last cs \<noteq> CHR ''/''" if "cs \<noteq> []" using that 2 by auto
      then have "c \<noteq> CHR 0x00 \<Longrightarrow> ?thesis"
        using Cons.IH(2) [of "p @ [c]" comps] 2 False by simp
      then show ?thesis using False by (cases "c = CHR 0x00") auto
    qed
  }
qed

lemma trim_start_index_eq:
  "i \<le> length v \<Longrightarrow>
     trim_start_index v i = i + length (takeWhile (\<lambda>c. c = CHR ''/'') (drop i v))"
proof (induction v i rule: trim_start_index.induct)
  case (1 v i)
  show ?case
  proof (cases "i < length v \<and> v ! i = CHR ''/''")
    case True
    then have "drop i v = CHR ''/'' # drop (Suc i) v"
      by (metis Cons_nth_drop_Suc)
    then show ?thesis using True 1 by (subst trim_start_index.simps) simp
  next
    case False
    then have "takeWhile (\<lambda>c. c = CHR ''/'') (drop i v) = []"
      using 1(2) by (cases "drop i v") (auto simp: drop_eq_Nil dest: nth_via_drop)
    then show ?thesis using False by (subst trim_start_index.simps) auto
  qed
qed

lemma trim_end_index_eq:
  assumes "s \<le> e" "e \<le> length v"
  shows "s \<le> trim_end_index v s e \<and> trim_end_index v s e \<le> e \<and>
         (trim_end_index v s e = e \<or> v ! trim_end_index v s e = CHR ''/'') \<and>
         take (trim_end_index v s e - s) (drop s v) =
           rev (dropWhile (\<lambda>c. c = CHR ''/'') (rev (take (e - s) (drop s v))))"
  using assms
proof (induction v s e rule: trim_end_index.induct)
  case (1 v s)
  then show ?case by simp
next
  case (2 v s e)
  show ?case
  proof (cases "Suc e > s")
    case True
    then have snoc: "take (Suc e - s) (drop s v) = take (e - s) (drop s v) @ [v ! e]"
      using 2 by (simp add: Suc_diff_le take_Suc_conv_app_nth)
    show ?thesis
    proof (cases "v ! e = CHR ''/''")
      case slash: True
      have IH: "s \<le> trim_end_index v s e \<and> trim_end_index v s e \<le> e \<and>
         (trim_end_index v s e = e \<or> v ! trim_end_index v s e = CHR ''/'') \<and>
         take (trim_end_index v s e - s) (drop s v) =
           rev (dropWhile (\<lambda>c. c = CHR ''/'') (rev (take (e - s) (drop s v))))"
        using 2 True slash by simp
      then show ?thesis using slash True snoc by auto
    next
      case False
      then show ?thesis using True snoc 2 by simp
    qed
  next
    case False
    then show ?thesis using 2 by simp
  qed
qed

lemma last_trim_slashes: "trim_slashes s \<noteq> [] \<Longrightarrow> last (trim_slashes s) \<noteq> CHR ''/''"
  using hd_dropWhile [of "\<lambda>c. c = CHR ''/''" "rev (dropWhile (\<lambda>c. c = CHR ''/'') s)"]
  by (simp add: trim_slashes_def last_rev)

lemma parse_components_pending:
  assumes "utf8_valid (as_bytes v)"
  shows "parse_components v =
    (if trim_slashes v = [] then Ok [] else pending_loop (trim_slashes v) [] [])"
proof -
  define s where "s = trim_start_index v 0"
  define e where "e = trim_end_index v s (length v)"
  have s: "s = length (takeWhile (\<lambda>c. c = CHR ''/'') v)"
    by (simp add: s_def trim_start_index_eq)
  then have sl: "s \<le> length v" by (simp add: length_takeWhile_le)
  have drop: "drop s v = dropWhile (\<lambda>c. c = CHR ''/'') v"
    unfolding s by (rule dropWhile_eq_drop [symmetric])
  have all: "take (length v - s) (dropWhile (\<lambda>c. c = CHR ''/'') v) = dropWhile (\<lambda>c. c = CHR ''/'') v"
    by (simp flip: drop)
  have e: "s \<le> e" "e \<le> length v" "e = length v \<or> v ! e = CHR ''/''"
      "take (e - s) (drop s v) = trim_slashes v"
    using trim_end_index_eq [OF sl order_refl] all
    by (simp_all add: e_def drop trim_slashes_def)
  have start: "s = 0 \<or> v ! (s - 1) = CHR ''/''"
  proof (cases s)
    case (Suc n)
    then have n: "n < length (takeWhile (\<lambda>c. c = CHR ''/'') v)" using s by simp
    then have "takeWhile (\<lambda>c. c = CHR ''/'') v ! n = CHR ''/''"
      using set_takeWhileD nth_mem by fastforce
    then show ?thesis using Suc n by (simp add: takeWhile_nth)
  qed simp
  have "s = e \<longleftrightarrow> trim_slashes v = []" using e by auto
  moreover have "then_outcome (component_loop (trim_slashes v) v s s [])
      (\<lambda>(component_start, components). push_component v component_start e components)
      = pending_loop (trim_slashes v) [] []"
    using component_loop_pending [OF assms, of "trim_slashes v" e s s "[]"] e start by simp
  ultimately show ?thesis
    unfolding parse_components_def Let_def s_def [symmetric] e_def [symmetric] e(4) by simp
qed

lemma parse_components_Ok:
  assumes "utf8_valid (as_bytes v)"
  shows "parse_components v = Ok comps \<longleftrightarrow>
           comps = path_components v \<and> (\<forall>c \<in> set comps. component_ok c)"
proof (cases "trim_slashes v = []")
  case True
  then show ?thesis using assms by (auto simp: parse_components_pending path_components_def)
next
  case False
  then show ?thesis
    using pending_loop_split(1) [of "[]" "trim_slashes v" "[]" comps] last_trim_slashes [of v]
    by (auto simp: parse_components_pending [OF assms] path_components_def)
qed

lemma parse_components_total:
  assumes "utf8_valid (as_bytes v)"
  shows "(\<exists>comps. parse_components v = Ok comps) \<or> (\<exists>m. parse_components v = Err (InvalidPath m))"
  using pending_loop_split(2) [of "[]" "trim_slashes v" "[]"] last_trim_slashes [of v]
  by (auto simp: parse_components_pending [OF assms])

lemma split_join:
  assumes "ps \<noteq> []" and "\<And>p. p \<in> set ps \<Longrightarrow> CHR ''/'' \<notin> set p"
  shows "split_slashes (join_slashes ps) = ps"
  using assms
proof (induction ps rule: join_slashes.induct)
  case (2 p)
  then show ?case using split_slashes_append [of p "[]"] by simp
next
  case (3 p q ps)
  then show ?case
    using split_slashes_append [of p "CHR ''/'' # join_slashes (q # ps)"] by simp
qed simp

lemma join_split: "join_slashes (split_slashes s) = s"
proof (induction s)
  case (Cons c cs)
  obtain p ps where ps: "split_slashes cs = p # ps" by (cases "split_slashes cs") auto
  then show ?case using Cons by (cases ps) auto
qed simp

lemma join_slashes_ends:
  assumes "ps \<noteq> []" and "\<And>p. p \<in> set ps \<Longrightarrow> p \<noteq> [] \<and> CHR ''/'' \<notin> set p"
  shows "join_slashes ps \<noteq> [] \<and> hd (join_slashes ps) \<noteq> CHR ''/'' \<and> last (join_slashes ps) \<noteq> CHR ''/''"
  using assms
proof (induction ps rule: join_slashes.induct)
  case (2 p)
  then show ?case by (metis hd_in_set join_slashes.simps(2) last_in_set list.set_intros(1))
next
  case (3 p q ps)
  then have "hd p \<noteq> CHR ''/''" by (metis hd_in_set list.set_intros(1))
  then show ?case using 3 by (auto simp: hd_append)
qed simp

lemma trim_slashes_id: "s \<noteq> [] \<Longrightarrow> hd s \<noteq> CHR ''/'' \<Longrightarrow> last s \<noteq> CHR ''/'' \<Longrightarrow> trim_slashes s = s"
proof -
  assume "s \<noteq> []" "hd s \<noteq> CHR ''/''" "last s \<noteq> CHR ''/''"
  then have "dropWhile (\<lambda>c. c = CHR ''/'') s = s" by (cases s) auto
  moreover have "dropWhile (\<lambda>c. c = CHR ''/'') (rev s) = rev s"
    using \<open>s \<noteq> []\<close> \<open>last s \<noteq> CHR ''/''\<close> by (cases s rule: rev_cases) auto
  ultimately show ?thesis by (simp add: trim_slashes_def)
qed

lemma path_components_join:
  assumes "\<And>p. p \<in> set ps \<Longrightarrow> component_ok p"
  shows "path_components (join_slashes ps) = ps"
proof (cases "ps = []")
  case True
  then show ?thesis by (simp add: path_components_def trim_slashes_def)
next
  case False
  have ok: "p \<noteq> [] \<and> CHR ''/'' \<notin> set p" if "p \<in> set ps" for p
    using assms that by (auto simp: component_ok_def)
  show ?thesis
    using join_slashes_ends [OF False ok] split_join [OF False] ok
    by (simp add: path_components_def trim_slashes_id)
qed

subsection \<open>Properties\<close>

text \<open>
  C35. Parsing a path is total on Rust strings, never slices off a character boundary, and agrees
  with its meaning: it succeeds with the components between the slashes exactly when every
  component is admissible, and otherwise reports an invalid path.
\<close>

theorem parse_components_correct:
  assumes "utf8_valid (as_bytes v)"
  shows "if \<forall>c \<in> set (path_components v). component_ok c
         then parse_components v = Ok (path_components v)
         else \<exists>m. parse_components v = Err (InvalidPath m)"
  using parse_components_Ok [OF assms, of "path_components v"] parse_components_total [OF assms]
    parse_components_Ok [OF assms] by auto

theorem parse_components_correct_witness:
  "parse_components ''/a/b/'' = Ok [''a'', ''b'']"
proof -
  have "utf8_valid (as_bytes ''/a/b/'')" by (simp add: as_bytes_def)
  moreover have "path_components ''/a/b/'' = [''a'', ''b'']"
    by (simp add: path_components_def trim_slashes_def)
  moreover have "\<forall>c \<in> set [''a'', ''b'']. component_ok c" by (simp add: component_ok_def)
  ultimately show ?thesis using parse_components_correct [of "''/a/b/''"] by simp
qed

text \<open>
  C36. Admissible components joined by slashes parse back to themselves as a file path, unless one
  of them starts with the reserved temporary-file prefix, which no user path may use; the last
  component is then the name and the others the parent.
\<close>

theorem file_path_round_trip:
  assumes "\<And>c. c \<in> set comps \<Longrightarrow> component_ok c" and "comps \<noteq> []"
    and "utf8_valid (as_bytes (join_slashes comps))"
  shows "if \<exists>c \<in> set comps. starts_with c TEMP_FILE_PREFIX
         then \<exists>m. nfs_path_file (join_slashes comps) = Err (InvalidPath m)
         else nfs_path_file (join_slashes comps) = Ok comps \<and>
              parent_and_name comps = Ok (butlast comps, last comps)"
proof -
  have "path_components (join_slashes comps) = comps"
    using assms(1) by (rule path_components_join)
  then have parse: "parse_components (join_slashes comps) = Ok comps"
    using parse_components_Ok [OF assms(3)] assms(1) by simp
  show ?thesis
    using parse assms(2)
    by (auto simp: nfs_path_file_def validate_user_components_def parent_and_name_def
        find_None_iff find_Some_iff split: option.splits)
qed

theorem file_path_round_trip_witness:
  "nfs_path_file ''a/b'' = Ok [''a'', ''b''] \<and> parent_and_name [''a'', ''b''] = Ok ([''a''], ''b'')"
proof -
  have "utf8_valid (as_bytes (join_slashes [''a'', ''b'']))" by (simp add: as_bytes_def)
  moreover have "component_ok c" if "c \<in> set [''a'', ''b'']" for c
    using that by (auto simp: component_ok_def)
  moreover have "\<not> (\<exists>c \<in> set [''a'', ''b'']. starts_with c TEMP_FILE_PREFIX)"
    by (simp add: starts_with_def TEMP_FILE_PREFIX_def)
  ultimately show ?thesis using file_path_round_trip [of "[''a'', ''b'']"] by simp
qed

end
