(* ===== verification/Nfs_Ops.thy ===== *)
theory Nfs_Ops
  imports Xdr_Codec
begin

text \<open>
  The NFSv4.1 data types and operations: the protocol constants and structures of
  \<open>src/nfs4.rs\<close>, and the operation type of \<open>src/nfs4/ops.rs\<close> with its encoder, its length
  computation, \<open>SetAttrs\<close> and \<open>Bitmap\<close>. A \<open>FileHandle\<close> is its bytes and a \<open>Bitmap\<close> its words.
\<close>

unbundle bit_operations_syntax

subsection \<open>Protocol constants\<close>

abbreviation (input) NF4REG :: u32 where "NF4REG \<equiv> 1"
abbreviation (input) NF4DIR :: u32 where "NF4DIR \<equiv> 2"
abbreviation (input) FATTR4_TYPE :: u32 where "FATTR4_TYPE \<equiv> 1"
abbreviation (input) FATTR4_SIZE :: u32 where "FATTR4_SIZE \<equiv> 4"
abbreviation (input) FATTR4_MODE :: u32 where "FATTR4_MODE \<equiv> 33"
abbreviation (input) FATTR4_SIZE_WORD :: u32 where "FATTR4_SIZE_WORD \<equiv> 0x10"
abbreviation (input) FATTR4_TYPE_AND_SIZE_WORD :: u32 where "FATTR4_TYPE_AND_SIZE_WORD \<equiv> 0x12"
abbreviation (input) OPEN4_SHARE_ACCESS_WRITE :: u32 where "OPEN4_SHARE_ACCESS_WRITE \<equiv> 0x2"
abbreviation (input) OPEN4_SHARE_ACCESS_WANT_NO_DELEG :: u32 where
  "OPEN4_SHARE_ACCESS_WANT_NO_DELEG \<equiv> 0x400"
abbreviation (input) OPEN4_SHARE_DENY_NONE :: u32 where "OPEN4_SHARE_DENY_NONE \<equiv> 0"
abbreviation (input) OPEN4_RESULT_CONFIRM :: u32 where "OPEN4_RESULT_CONFIRM \<equiv> 0x2"
abbreviation (input) OPEN_CREATE :: u32 where "OPEN_CREATE \<equiv> 1"
abbreviation (input) CREATE_GUARDED :: u32 where "CREATE_GUARDED \<equiv> 1"
abbreviation (input) CLAIM_NULL :: u32 where "CLAIM_NULL \<equiv> 0"
abbreviation (input) OPEN_DELEGATE_NONE :: u32 where "OPEN_DELEGATE_NONE \<equiv> 0"
abbreviation (input) OPEN_DELEGATE_READ :: u32 where "OPEN_DELEGATE_READ \<equiv> 1"
abbreviation (input) OPEN_DELEGATE_WRITE :: u32 where "OPEN_DELEGATE_WRITE \<equiv> 2"
abbreviation (input) OPEN_DELEGATE_NONE_EXT :: u32 where "OPEN_DELEGATE_NONE_EXT \<equiv> 3"
abbreviation (input) WND4_CONTENTION :: u32 where "WND4_CONTENTION \<equiv> 1"
abbreviation (input) WND4_RESOURCE :: u32 where "WND4_RESOURCE \<equiv> 2"
abbreviation (input) EXCHGID4_FLAG_USE_NON_PNFS :: u32 where "EXCHGID4_FLAG_USE_NON_PNFS \<equiv> 0x10000"
abbreviation (input) SP4_NONE :: u32 where "SP4_NONE \<equiv> 0"
abbreviation (input) SP4_MACH_CRED :: u32 where "SP4_MACH_CRED \<equiv> 1"
abbreviation (input) SP4_SSV :: u32 where "SP4_SSV \<equiv> 2"
abbreviation (input) UNSTABLE4 :: u32 where "UNSTABLE4 \<equiv> 0"
abbreviation (input) DATA_SYNC4 :: u32 where "DATA_SYNC4 \<equiv> 1"
abbreviation (input) FILE_SYNC4 :: u32 where "FILE_SYNC4 \<equiv> 2"
abbreviation (input) CHANNEL_PAYLOAD_RESERVE :: u32 where "CHANNEL_PAYLOAD_RESERVE \<equiv> 1024"
abbreviation (input) DEFAULT_MAX_RESPONSE_SIZE :: u32 where "DEFAULT_MAX_RESPONSE_SIZE \<equiv> 1049600"
abbreviation (input) READDIR_ENTRY_BYTE_HINT :: usize where "READDIR_ENTRY_BYTE_HINT \<equiv> 512"
abbreviation (input) MAX_FUSED_PUT_BYTES :: usize where "MAX_FUSED_PUT_BYTES \<equiv> 131072"
abbreviation (input) READDIR_DECODE_PREALLOC_LIMIT :: usize where "READDIR_DECODE_PREALLOC_LIMIT \<equiv> 256"
abbreviation (input) READDIR_MIN_HINT_BYTES :: u32 where "READDIR_MIN_HINT_BYTES \<equiv> 4096"
abbreviation (input) NFS4_FHSIZE :: usize where "NFS4_FHSIZE \<equiv> 128"
abbreviation (input) SEQUENCE_RESULT_LEN :: usize where "SEQUENCE_RESULT_LEN \<equiv> 36"
abbreviation (input) MIN_SEQUENCE_COMPOUND_RESPONSE_SIZE :: u32 where
  "MIN_SEQUENCE_COMPOUND_RESPONSE_SIZE \<equiv> 80"
abbreviation (input) CHANGE_INFO_AFTER_ATOMIC_LEN :: usize where "CHANGE_INFO_AFTER_ATOMIC_LEN \<equiv> 16"
abbreviation (input) IMPLEMENTATION_ID_TIMESTAMP_LEN :: usize where "IMPLEMENTATION_ID_TIMESTAMP_LEN \<equiv> 12"
abbreviation (input) IMPLEMENTATION_ID_MIN_LEN :: usize where "IMPLEMENTATION_ID_MIN_LEN \<equiv> 20"
abbreviation (input) NFS_MINOR_VERSION :: u32 where "NFS_MINOR_VERSION \<equiv> 1"

definition fused_put_size_viable :: "usize \<Rightarrow> u32 \<Rightarrow> bool" where
  "fused_put_size_viable len write_chunk_size \<longleftrightarrow>
     len \<le> unat write_chunk_size \<and> len \<le> MAX_FUSED_PUT_BYTES"

subsection \<open>Structures\<close>

type_synonym FileHandle = bytes
type_synonym Bitmap = "u32 list"

record StateId =
  seqid :: u32
  other :: bytes

record OpenedFile =
  fh :: FileHandle
  opened_stateid :: StateId
  close_seqid :: u32

datatype FileType = Regular | Directory | Other u32

datatype AttrRequest = AttrSize | AttrTypeAndSize

record FileAttrs =
  attr_file_type :: "FileType option"
  attr_size :: "u64 option"

record DirPage =
  page_entries :: "string list"
  page_eof :: bool
  page_verifier :: bytes
  last_cookie :: u64

record ReadData =
  read_eof :: bool
  read_data :: bytes

datatype WriteStability = Unstable | DataSync | FileSync

record WriteData =
  write_count :: u32
  committed :: WriteStability
  write_verifier :: bytes

record NfsConfig =
  export_path :: string
  read_chunk_size :: u32
  read_granularity :: u32
  write_chunk_size :: u32
  pipeline_write_chunks :: bool
  readdir_dircount :: u32
  readdir_maxcount :: u32
  file_mode :: u32
  dir_mode :: u32
  session_slots :: u32
  max_request_size :: u32
  max_response_size :: u32
  max_compound_ops :: u32
  operation_timeout :: "duration option"
  transient_retries :: u32
  transient_retry_base :: duration

record SequenceArgs =
  sessionid :: bytes
  sequenceid :: u32
  slotid :: u32
  highest_slotid :: u32
  cachethis :: bool

definition nfs_config_new :: "string \<Rightarrow> NfsConfig" where
  "nfs_config_new export = \<lparr>
     export_path = export,
     read_chunk_size = 1048576,
     read_granularity = 131072,
     write_chunk_size = 1048576,
     pipeline_write_chunks = True,
     readdir_dircount = 65536,
     readdir_maxcount = 1048576,
     file_mode = 420,
     dir_mode = 493,
     session_slots = 64,
     max_request_size = 16777216,
     max_response_size = DEFAULT_MAX_RESPONSE_SIZE,
     max_compound_ops = 0xFFFFFFFF,
     operation_timeout = Some 30000000000,
     transient_retries = 5,
     transient_retry_base = 1000000000 \<rparr>"

definition stateid_anonymous :: StateId where
  "stateid_anonymous = \<lparr> seqid = 0, other = replicate 12 0 \<rparr>"

definition stateid_current :: StateId where
  "stateid_current = \<lparr> seqid = 1, other = replicate 12 0 \<rparr>"

definition file_type_from_raw :: "u32 \<Rightarrow> FileType" where
  "file_type_from_raw v = (if v = NF4REG then Regular else if v = NF4DIR then Directory else Other v)"

definition write_stability_from_raw :: "u32 \<Rightarrow> WriteStability result" where
  "write_stability_from_raw v =
    (if v = UNSTABLE4 then Ok Unstable
     else if v = DATA_SYNC4 then Ok DataSync
     else if v = FILE_SYNC4 then Ok FileSync
     else Err (Protocol ''server returned invalid write stable_how {other}''))"

definition requires_commit :: "WriteData \<Rightarrow> bool" where
  "requires_commit w \<longleftrightarrow> committed w \<noteq> FileSync"

subsection \<open>File handles, state ids and bitmaps on the wire\<close>

definition fh_encode :: "FileHandle \<Rightarrow> XdrEncoder \<Rightarrow> XdrEncoder option" where
  "fh_encode h enc = put_opaque h enc"

definition fh_encoded_len :: "FileHandle \<Rightarrow> usize" where
  "fh_encoded_len h = xdr_opaque_len (length h)"

definition stateid_encode :: "StateId \<Rightarrow> XdrEncoder \<Rightarrow> XdrEncoder option" where
  "stateid_encode s enc = do {
     enc \<leftarrow> put_u32 (seqid s) enc;
     put_bytes (other s) enc
   }"

definition stateid_encoded_len :: usize where
  "stateid_encoded_len = 4 + xdr_fixed_opaque_len 12"

definition stateid_decode :: "StateId decoder" where
  "stateid_decode =
    and_then (read_u32_and_bytes 12) (\<lambda>(seqid', other'). ok \<lparr> seqid = seqid', other = other' \<rparr>)"

text \<open>\<open>for x in xs { put(x, enc) }\<close>\<close>

primrec put_all :: "('a \<Rightarrow> XdrEncoder \<Rightarrow> XdrEncoder option) \<Rightarrow> 'a list \<Rightarrow> XdrEncoder \<Rightarrow> XdrEncoder option"
  where
  "put_all put [] enc = Some enc"
| "put_all put (x # xs) enc = do {
     enc \<leftarrow> put x enc;
     put_all put xs enc
   }"

definition bitmap_empty :: Bitmap where
  "bitmap_empty = []"

definition bitmap_inline_word :: "u32 \<Rightarrow> Bitmap" where
  "bitmap_inline_word word = [word]"

definition bitmap_size_attr :: Bitmap where
  "bitmap_size_attr = bitmap_inline_word (push_bit (unat FATTR4_SIZE) 1)"

definition bitmap_type_and_size_attrs :: Bitmap where
  "bitmap_type_and_size_attrs =
     bitmap_inline_word (push_bit (unat FATTR4_TYPE) 1 OR push_bit (unat FATTR4_SIZE) 1)"

definition attr_request_bitmap :: "AttrRequest \<Rightarrow> Bitmap" where
  "attr_request_bitmap r = (case r of
     AttrSize \<Rightarrow> bitmap_size_attr
   | AttrTypeAndSize \<Rightarrow> bitmap_type_and_size_attrs)"

definition bitmap_encode :: "Bitmap \<Rightarrow> XdrEncoder \<Rightarrow> XdrEncoder option" where
  "bitmap_encode words enc = do {
     enc \<leftarrow> put_u32 (of_nat (length words)) enc;
     put_all put_u32 words enc
   }"

definition bitmap_encoded_len :: "Bitmap \<Rightarrow> usize" where
  "bitmap_encoded_len words = saturating_add 4 (saturating_mul (length words) 4)"

definition require_bitmap_words :: "usize \<Rightarrow> usize decoder" where
  "require_bitmap_words len =
    and_then (lift (ok_or (Xdr ''bitmap byte length overflow'') (checked_mul len 4))) (\<lambda>bytes.
    and_then remaining (\<lambda>left.
    if bytes > left then fail (Xdr ''bitmap length {len} exceeds remaining XDR words'')
    else ok bytes))"

definition bitmap_decode_after_len :: "usize \<Rightarrow> Bitmap decoder" where
  "bitmap_decode_after_len len =
    and_then (require_bitmap_words len) (\<lambda>_. read_many len read_u32_after_require)"

text \<open>The lowest set bit of a word (\<open>u32::trailing_zeros\<close>; 32 for the zero word).\<close>

definition trailing_zeros :: "u32 \<Rightarrow> nat" where
  "trailing_zeros w = length (takeWhile (\<lambda>i. \<not> bit w i) [0..<32])"

text \<open>
  The iterator over the attribute numbers of a bitmap: its state and its \<open>next\<close>, whose inner
  loop ends because each round either returns or moves to the next word.
\<close>

record BitmapAttrs =
  ba_words :: "u32 list"
  word_index :: nat
  current_word :: u32
  current_word_index :: u32

definition bitmap_attrs :: "Bitmap \<Rightarrow> BitmapAttrs" where
  "bitmap_attrs words =
    \<lparr> ba_words = words, word_index = 0, current_word = 0, current_word_index = 0 \<rparr>"

function bitmap_attrs_next :: "BitmapAttrs \<Rightarrow> (u32 \<times> BitmapAttrs) option" where
  "bitmap_attrs_next it =
    (if current_word it \<noteq> 0 then
       (let bit = of_nat (trailing_zeros (current_word it)) in
        Some (current_word_index it * 32 + bit,
              it\<lparr> current_word := current_word it AND (current_word it - 1) \<rparr>))
     else if word_index it < length (ba_words it) then
       bitmap_attrs_next (it\<lparr> current_word := ba_words it ! word_index it,
                              current_word_index := of_nat (word_index it),
                              word_index := word_index it + 1 \<rparr>)
     else None)"
  by pat_completeness auto
termination
  by (relation "measure (\<lambda>it. length (ba_words it) - word_index it)") auto

declare bitmap_attrs_next.simps [simp del]

subsection \<open>Attribute values to set\<close>

record SetAttrs =
  set_size :: "u64 option"
  set_mode :: "u32 option"

definition setattrs_bitmap_words :: "SetAttrs \<Rightarrow> usize" where
  "setattrs_bitmap_words a =
    (if set_mode a \<noteq> None then unat (FATTR4_MODE div 32 + 1)
     else if set_size a \<noteq> None then unat (FATTR4_SIZE div 32 + 1)
     else 0)"

definition setattrs_bitmap_word :: "SetAttrs \<Rightarrow> usize \<Rightarrow> u32" where
  "setattrs_bitmap_word a i =
    (let word = 0;
         word = (if set_size a \<noteq> None \<and> FATTR4_SIZE div 32 = of_nat i
                 then word OR push_bit (unat (FATTR4_SIZE mod 32)) 1 else word)
     in if set_mode a \<noteq> None \<and> FATTR4_MODE div 32 = of_nat i
        then word OR push_bit (unat (FATTR4_MODE mod 32)) 1 else word)"

definition setattrs_values_len :: "SetAttrs \<Rightarrow> usize" where
  "setattrs_values_len a =
    saturating_add (case set_size a of Some _ \<Rightarrow> 8 | None \<Rightarrow> 0)
                   (case set_mode a of Some _ \<Rightarrow> 4 | None \<Rightarrow> 0)"

definition setattrs_encode :: "SetAttrs \<Rightarrow> XdrEncoder \<Rightarrow> XdrEncoder option" where
  "setattrs_encode a enc = do {
     let bitmap_words = setattrs_bitmap_words a;
     enc \<leftarrow> put_u32 (of_nat bitmap_words) enc;
     enc \<leftarrow> put_all (\<lambda>i. put_u32 (setattrs_bitmap_word a i)) [0..<bitmap_words] enc;
     enc \<leftarrow> put_u32 (of_nat (setattrs_values_len a)) enc;
     enc \<leftarrow> (case set_size a of Some s \<Rightarrow> put_u64 s enc | None \<Rightarrow> Some enc);
     (case set_mode a of Some m \<Rightarrow> put_u32 m enc | None \<Rightarrow> Some enc)
   }"

definition setattrs_encoded_len :: "SetAttrs \<Rightarrow> usize" where
  "setattrs_encoded_len a =
    saturating_add (saturating_add 4 (saturating_mul (setattrs_bitmap_words a) 4))
                   (xdr_opaque_len (setattrs_values_len a))"

subsection \<open>Operations\<close>

datatype NfsOp =
    PutRootFh
  | PutFh FileHandle
  | Lookup string
  | SaveFh
  | RestoreFh
  | GetFh
  | GetAttr Bitmap
  | Open u32 u64 bytes string u32
  | Close u32 StateId
  | Read StateId u64 u32
  | Write StateId u64 bytes
  | Commit u64 u32
  | Link string
  | Remove string
  | Verify u64
  | Rename string string
  | CreateDir string u32
  | ReadDir u64 bytes u32 u32 Bitmap
  | ExchangeId bytes bytes
  | CreateSession u64 u32 NfsConfig
  | ReclaimComplete bool

primrec opcode :: "NfsOp \<Rightarrow> OpCode" where
  "opcode NfsOp.PutRootFh = OpCode.PutRootFh"
| "opcode (NfsOp.PutFh h) = OpCode.PutFh"
| "opcode (NfsOp.Lookup name) = OpCode.Lookup"
| "opcode NfsOp.SaveFh = OpCode.SaveFh"
| "opcode NfsOp.RestoreFh = OpCode.RestoreFh"
| "opcode NfsOp.GetFh = OpCode.GetFh"
| "opcode (NfsOp.GetAttr b) = OpCode.GetAttr"
| "opcode (NfsOp.Open s c ow n m) = OpCode.Open"
| "opcode (NfsOp.Close s st) = OpCode.Close"
| "opcode (NfsOp.Read st off c) = OpCode.Read"
| "opcode (NfsOp.Write st off d) = OpCode.Write"
| "opcode (NfsOp.Commit off c) = OpCode.Commit"
| "opcode (NfsOp.Link n) = OpCode.Link"
| "opcode (NfsOp.Remove n) = OpCode.Remove"
| "opcode (NfsOp.Verify s) = OpCode.Verify"
| "opcode (NfsOp.Rename a b) = OpCode.Rename"
| "opcode (NfsOp.CreateDir n m) = OpCode.Create"
| "opcode (NfsOp.ReadDir c v d m b) = OpCode.ReadDir"
| "opcode (NfsOp.ExchangeId v ow) = OpCode.ExchangeId"
| "opcode (NfsOp.CreateSession c s cfg) = OpCode.CreateSession"
| "opcode (NfsOp.ReclaimComplete b) = OpCode.ReclaimComplete"

definition encode_channel_attrs :: "u32 \<Rightarrow> u32 \<Rightarrow> u32 \<Rightarrow> XdrEncoder \<Rightarrow> XdrEncoder option" where
  "encode_channel_attrs max_request max_response slots enc = do {
     enc \<leftarrow> put_u32 0 enc;
     enc \<leftarrow> put_u32 max_request enc;
     enc \<leftarrow> put_u32 max_response enc;
     enc \<leftarrow> put_u32 max_response enc;
     enc \<leftarrow> put_u32 64 enc;
     enc \<leftarrow> put_u32 slots enc;
     put_u32 0 enc
   }"

definition channel_attrs_len :: usize where
  "channel_attrs_len = 7 * 4"

primrec op_encode :: "NfsOp \<Rightarrow> XdrEncoder \<Rightarrow> XdrEncoder option" where
  "op_encode NfsOp.PutRootFh enc = put_u32 (op_u32 OpCode.PutRootFh) enc"
| "op_encode (NfsOp.PutFh h) enc = do {
     enc \<leftarrow> put_u32 (op_u32 OpCode.PutFh) enc;
     fh_encode h enc }"
| "op_encode (NfsOp.Lookup name) enc = do {
     enc \<leftarrow> put_u32 (op_u32 OpCode.Lookup) enc;
     put_string name enc }"
| "op_encode NfsOp.SaveFh enc = put_u32 (op_u32 OpCode.SaveFh) enc"
| "op_encode NfsOp.RestoreFh enc = put_u32 (op_u32 OpCode.RestoreFh) enc"
| "op_encode (NfsOp.Verify sz) enc = do {
     enc \<leftarrow> put_u32 (op_u32 OpCode.Verify) enc;
     setattrs_encode \<lparr> set_size = Some sz, set_mode = None \<rparr> enc }"
| "op_encode NfsOp.GetFh enc = put_u32 (op_u32 OpCode.GetFh) enc"
| "op_encode (NfsOp.GetAttr bitmap) enc = do {
     enc \<leftarrow> put_u32 (op_u32 OpCode.GetAttr) enc;
     bitmap_encode bitmap enc }"
| "op_encode (NfsOp.Open sq clientid owner name mode) enc = do {
     enc \<leftarrow> put_u32 (op_u32 OpCode.Open) enc;
     enc \<leftarrow> put_u32 sq enc;
     enc \<leftarrow> put_u32 (OPEN4_SHARE_ACCESS_WRITE OR OPEN4_SHARE_ACCESS_WANT_NO_DELEG) enc;
     enc \<leftarrow> put_u32 OPEN4_SHARE_DENY_NONE enc;
     enc \<leftarrow> put_u64 clientid enc;
     enc \<leftarrow> put_opaque owner enc;
     enc \<leftarrow> put_u32 OPEN_CREATE enc;
     enc \<leftarrow> put_u32 CREATE_GUARDED enc;
     enc \<leftarrow> setattrs_encode \<lparr> set_size = Some 0, set_mode = Some mode \<rparr> enc;
     enc \<leftarrow> put_u32 CLAIM_NULL enc;
     put_string name enc }"
| "op_encode (NfsOp.Close sq stateid) enc = do {
     enc \<leftarrow> put_u32 (op_u32 OpCode.Close) enc;
     enc \<leftarrow> put_u32 sq enc;
     stateid_encode stateid enc }"
| "op_encode (NfsOp.Read stateid offset count) enc = do {
     enc \<leftarrow> put_u32 (op_u32 OpCode.Read) enc;
     enc \<leftarrow> stateid_encode stateid enc;
     enc \<leftarrow> put_u64 offset enc;
     put_u32 count enc }"
| "op_encode (NfsOp.Write stateid offset data) enc = do {
     enc \<leftarrow> put_u32 (op_u32 OpCode.Write) enc;
     enc \<leftarrow> stateid_encode stateid enc;
     enc \<leftarrow> put_u64 offset enc;
     enc \<leftarrow> put_u32 UNSTABLE4 enc;
     put_opaque data enc }"
| "op_encode (NfsOp.Commit offset count) enc = do {
     enc \<leftarrow> put_u32 (op_u32 OpCode.Commit) enc;
     enc \<leftarrow> put_u64 offset enc;
     put_u32 count enc }"
| "op_encode (NfsOp.Link name) enc = do {
     enc \<leftarrow> put_u32 (op_u32 OpCode.Link) enc;
     put_string name enc }"
| "op_encode (NfsOp.Remove name) enc = do {
     enc \<leftarrow> put_u32 (op_u32 OpCode.Remove) enc;
     put_string name enc }"
| "op_encode (NfsOp.Rename old_name new_name) enc = do {
     enc \<leftarrow> put_u32 (op_u32 OpCode.Rename) enc;
     enc \<leftarrow> put_string old_name enc;
     put_string new_name enc }"
| "op_encode (NfsOp.CreateDir name mode) enc = do {
     enc \<leftarrow> put_u32 (op_u32 OpCode.Create) enc;
     enc \<leftarrow> put_u32 NF4DIR enc;
     enc \<leftarrow> put_string name enc;
     setattrs_encode \<lparr> set_size = None, set_mode = Some mode \<rparr> enc }"
| "op_encode (NfsOp.ReadDir cookie verifier dircount maxcount attrs) enc = do {
     enc \<leftarrow> put_u32 (op_u32 OpCode.ReadDir) enc;
     enc \<leftarrow> put_u64 cookie enc;
     enc \<leftarrow> put_bytes verifier enc;
     enc \<leftarrow> put_u32 dircount enc;
     enc \<leftarrow> put_u32 maxcount enc;
     bitmap_encode attrs enc }"
| "op_encode (NfsOp.ExchangeId verifier owner) enc = do {
     enc \<leftarrow> put_u32 (op_u32 OpCode.ExchangeId) enc;
     enc \<leftarrow> put_bytes verifier enc;
     enc \<leftarrow> put_opaque owner enc;
     enc \<leftarrow> put_u32 EXCHGID4_FLAG_USE_NON_PNFS enc;
     enc \<leftarrow> put_u32 SP4_NONE enc;
     put_u32 0 enc }"
| "op_encode (NfsOp.CreateSession clientid sq config) enc = do {
     enc \<leftarrow> put_u32 (op_u32 OpCode.CreateSession) enc;
     enc \<leftarrow> put_u64 clientid enc;
     enc \<leftarrow> put_u32 sq enc;
     enc \<leftarrow> put_u32 0 enc;
     enc \<leftarrow> encode_channel_attrs (max_request_size config) (max_response_size config)
              (session_slots config) enc;
     enc \<leftarrow> encode_channel_attrs 8192 8192 1 enc;
     enc \<leftarrow> put_u32 0 enc;
     put_u32 0 enc }"
| "op_encode (NfsOp.ReclaimComplete one_fs) enc = do {
     enc \<leftarrow> put_u32 (op_u32 OpCode.ReclaimComplete) enc;
     put_bool one_fs enc }"

definition xdr_string_len :: "string \<Rightarrow> usize" where
  "xdr_string_len s = xdr_opaque_len (length s)"

definition saturating_encoded_len :: "usize list \<Rightarrow> usize" where
  "saturating_encoded_len parts = foldl saturating_add 0 parts"

primrec op_payload_len :: "NfsOp \<Rightarrow> usize" where
  "op_payload_len NfsOp.PutRootFh = 0"
| "op_payload_len NfsOp.GetFh = 0"
| "op_payload_len NfsOp.SaveFh = 0"
| "op_payload_len NfsOp.RestoreFh = 0"
| "op_payload_len (NfsOp.Verify sz) = setattrs_encoded_len \<lparr> set_size = Some 0, set_mode = None \<rparr>"
| "op_payload_len (NfsOp.PutFh h) = fh_encoded_len h"
| "op_payload_len (NfsOp.Lookup name) = xdr_string_len name"
| "op_payload_len (NfsOp.Link name) = xdr_string_len name"
| "op_payload_len (NfsOp.Remove name) = xdr_string_len name"
| "op_payload_len (NfsOp.GetAttr bitmap) = bitmap_encoded_len bitmap"
| "op_payload_len (NfsOp.Open s c owner name m) =
    (let create_len =
       saturating_add 4 (setattrs_encoded_len \<lparr> set_size = Some 0, set_mode = Some 0 \<rparr>)
     in saturating_encoded_len
          [4, 4, 4, 8, xdr_opaque_len (length owner), 4, create_len, 4, xdr_string_len name])"
| "op_payload_len (NfsOp.Close s st) = saturating_add 4 stateid_encoded_len"
| "op_payload_len (NfsOp.Read st off c) = saturating_encoded_len [stateid_encoded_len, 8, 4]"
| "op_payload_len (NfsOp.Write st off data) =
     saturating_encoded_len [stateid_encoded_len, 8, 4, xdr_opaque_len (length data)]"
| "op_payload_len (NfsOp.Commit off c) = saturating_add 8 4"
| "op_payload_len (NfsOp.Rename old_name new_name) =
     saturating_add (xdr_string_len old_name) (xdr_string_len new_name)"
| "op_payload_len (NfsOp.CreateDir name m) =
     saturating_encoded_len
       [4, xdr_string_len name, setattrs_encoded_len \<lparr> set_size = None, set_mode = Some 0 \<rparr>]"
| "op_payload_len (NfsOp.ReadDir c v d m attrs) =
     saturating_encoded_len [8, xdr_fixed_opaque_len 8, 4, 4, bitmap_encoded_len attrs]"
| "op_payload_len (NfsOp.ExchangeId v owner) =
     saturating_encoded_len [xdr_fixed_opaque_len 8, xdr_opaque_len (length owner), 4, 4, 4]"
| "op_payload_len (NfsOp.CreateSession c s cfg) =
     saturating_encoded_len [8, 4, 4, channel_attrs_len, channel_attrs_len, 4, 4]"
| "op_payload_len (NfsOp.ReclaimComplete b) = 4"

definition op_encoded_len :: "NfsOp \<Rightarrow> usize" where
  "op_encoded_len op = saturating_add 4 (op_payload_len op)"

subsection \<open>Appending\<close>

lemma put_all_u32_eq [simp]:
  "put_all put_u32 ws enc = Some (enc @ concat (map (be_bytes 4) ws))"
  by (induction ws arbitrary: enc) simp_all

lemma put_all_fun_u32_eq [simp]:
  "put_all (\<lambda>i. put_u32 (f i)) xs enc = Some (enc @ concat (map (\<lambda>i. be_bytes 4 (f i)) xs))"
  by (induction xs arbitrary: enc) (simp_all add: put_u32_def)

lemma stateid_encode_eq [simp]: "stateid_encode s enc = Some (enc @ be_bytes 4 (seqid s) @ other s)"
  by (simp add: stateid_encode_def)

lemma bitmap_encode_eq [simp]:
  "bitmap_encode ws enc = Some (enc @ be_bytes 4 (of_nat (length ws) :: u32) @ concat (map (be_bytes 4) ws))"
  by (simp add: bitmap_encode_def)

definition setattrs_wire :: "SetAttrs \<Rightarrow> bytes" where
  "setattrs_wire a =
     be_bytes 4 (of_nat (setattrs_bitmap_words a) :: u32) @
     concat (map (\<lambda>i. be_bytes 4 (setattrs_bitmap_word a i)) [0..<setattrs_bitmap_words a]) @
     be_bytes 4 (of_nat (setattrs_values_len a) :: u32) @
     (case set_size a of Some s \<Rightarrow> be_bytes 8 s | None \<Rightarrow> []) @
     (case set_mode a of Some m \<Rightarrow> be_bytes 4 m | None \<Rightarrow> [])"

lemma setattrs_encode_eq [simp]: "setattrs_encode a enc = Some (enc @ setattrs_wire a)"
  by (simp add: setattrs_encode_def setattrs_wire_def Let_def split: option.splits)

lemma encode_channel_attrs_eq [simp]:
  "encode_channel_attrs a b c enc =
     Some (enc @ concat (map (be_bytes 4) [0, a, b, b, 64, c, 0 :: u32]))"
  by (simp add: encode_channel_attrs_def)

lemma op_encode_append:
  "op_encode op enc = map_option (\<lambda>bs. enc @ bs) (op_encode op [])"
  by (cases op) (simp_all add: fh_encode_def put_opaque_eq put_string_eq)

subsection \<open>Lengths\<close>

lemma saturating_encoded_len_eq: "saturating_encoded_len parts = min (sum_list parts) usize_max"
  by (simp add: saturating_encoded_len_def foldl_saturating_add)

lemma setattrs_words_vals [simp]:
  "setattrs_bitmap_words \<lparr> set_size = s, set_mode = Some m \<rparr> = 2"
  "setattrs_bitmap_words \<lparr> set_size = Some v, set_mode = None \<rparr> = 1"
  "setattrs_values_len \<lparr> set_size = Some v, set_mode = Some m \<rparr> = 12"
  "setattrs_values_len \<lparr> set_size = None, set_mode = Some m \<rparr> = 4"
  "setattrs_values_len \<lparr> set_size = Some v, set_mode = None \<rparr> = 8"
  by (simp_all add: setattrs_bitmap_words_def setattrs_values_len_def saturating_add_def usize_max_def)

lemma setattrs_encoded_len_vals [simp]:
  "setattrs_encoded_len \<lparr> set_size = Some v, set_mode = Some m \<rparr> = 28"
  "setattrs_encoded_len \<lparr> set_size = None, set_mode = Some m \<rparr> = 20"
  "setattrs_encoded_len \<lparr> set_size = Some v, set_mode = None \<rparr> = 20"
  by (simp_all add: setattrs_encoded_len_def xdr_opaque_len_exact u32_max_def
      saturating_add_def saturating_mul_def usize_max_def)

lemma length_setattrs_wire:
  assumes "set_size a \<noteq> None \<or> set_mode a \<noteq> None"
  shows "length (setattrs_wire a) = setattrs_encoded_len a"
proof (cases a)
  case (fields s m)
  then show ?thesis using assms
    by (cases s; cases m) (simp_all add: setattrs_wire_def)
qed

lemma length_setattrs_vals [simp]:
  "length (setattrs_wire \<lparr> set_size = Some v, set_mode = Some m \<rparr>) = 28"
  "length (setattrs_wire \<lparr> set_size = None, set_mode = Some m \<rparr>) = 20"
  "length (setattrs_wire \<lparr> set_size = Some v, set_mode = None \<rparr>) = 20"
  by (simp_all add: length_setattrs_wire)

lemma stateid_encoded_len_val [simp]: "stateid_encoded_len = 16"
  by (simp add: stateid_encoded_len_def xdr_fixed_opaque_len_def saturating_add_def usize_max_def)

text \<open>
  The structural facts the Rust types carry: fixed-size arrays have their length, and the
  bitmaps the crate requests have at most two words.
\<close>

primrec op_wf :: "NfsOp \<Rightarrow> bool" where
  "op_wf NfsOp.PutRootFh = True"
| "op_wf (NfsOp.PutFh h) = True"
| "op_wf (NfsOp.Lookup name) = True"
| "op_wf NfsOp.SaveFh = True"
| "op_wf NfsOp.RestoreFh = True"
| "op_wf NfsOp.GetFh = True"
| "op_wf (NfsOp.GetAttr b) \<longleftrightarrow> length b \<le> 2"
| "op_wf (NfsOp.Open s c ow n m) = True"
| "op_wf (NfsOp.Close s st) \<longleftrightarrow> length (other st) = 12"
| "op_wf (NfsOp.Read st off c) \<longleftrightarrow> length (other st) = 12"
| "op_wf (NfsOp.Write st off d) \<longleftrightarrow> length (other st) = 12"
| "op_wf (NfsOp.Commit off c) = True"
| "op_wf (NfsOp.Link n) = True"
| "op_wf (NfsOp.Remove n) = True"
| "op_wf (NfsOp.Verify s) = True"
| "op_wf (NfsOp.Rename a b) = True"
| "op_wf (NfsOp.CreateDir n m) = True"
| "op_wf (NfsOp.ReadDir c v d m b) \<longleftrightarrow> length v = 8 \<and> length b \<le> 2"
| "op_wf (NfsOp.ExchangeId v ow) \<longleftrightarrow> length v = 8"
| "op_wf (NfsOp.CreateSession c s cfg) = True"
| "op_wf (NfsOp.ReclaimComplete b) = True"

lemma min_usize_max: "n \<le> 20 * u32_max \<Longrightarrow> min n usize_max = n"
  by (simp add: u32_max_def usize_max_def min_def)

lemma padded_bound: "n \<le> u32_max \<Longrightarrow> n + xdr_padding n \<le> u32_max + 3"
  by (rule add_mono) simp_all

lemma saturating_add_small: "a + b \<le> 20 * u32_max \<Longrightarrow> saturating_add a b = a + b"
  by (simp add: saturating_add_def min_usize_max)

lemma bitmap_encoded_len_small: "length ws \<le> 2 \<Longrightarrow> bitmap_encoded_len ws = 4 + 4 * length ws"
  by (simp add: bitmap_encoded_len_def saturating_mul_def saturating_add_def usize_max_def)

lemma xdr_fixed_opaque_len_8 [simp]: "xdr_fixed_opaque_len 8 = 8"
  by (simp add: xdr_fixed_opaque_len_def saturating_add_def usize_max_def)

lemma u32_max_ge [simp]: "1000 \<le> u32_max"
  by (simp add: u32_max_def)

lemma xdr_opaque_len_bound: "n \<le> u32_max \<Longrightarrow> xdr_opaque_len n \<le> u32_max + 7"
  using padded_bound [of n] by (simp add: xdr_opaque_len_exact)

lemma length_opaque_wire_len: "length bs \<le> u32_max \<Longrightarrow> length (opaque_wire bs) = xdr_opaque_len (length bs)"
  by (simp add: xdr_opaque_len_exact)

lemma usize_max_ge: "20 * u32_max \<le> usize_max"
  by (simp add: u32_max_def usize_max_def)

lemmas op_len_simps = op_encoded_len_def fh_encode_def put_opaque_eq put_string_eq
  fh_encoded_len_def xdr_string_len_def length_opaque_wire_len saturating_encoded_len_eq
  bitmap_encoded_len_small channel_attrs_len_def saturating_add_def

lemma op_encode_length_bound:
  assumes "op_wf op" and "op_encode op enc = Some enc'"
  shows "length enc' = length enc + op_encoded_len op \<and> op_encoded_len op \<le> 8 * u32_max"
proof (cases op)
  case (Open s c owner name m)
  then show ?thesis
    using assms u32_max_ge usize_max_ge xdr_opaque_len_bound [of "length owner"]
      xdr_opaque_len_bound [of "length name"]
    by (auto simp: op_len_simps simp del: length_opaque_wire u32_max_ge split: if_splits)
next
  case (Write st off d)
  then show ?thesis
    using assms u32_max_ge usize_max_ge xdr_opaque_len_bound [of "length d"]
    by (auto simp: op_len_simps simp del: length_opaque_wire u32_max_ge split: if_splits)
next
  case (Rename a b)
  then show ?thesis
    using assms u32_max_ge usize_max_ge xdr_opaque_len_bound [of "length a"]
      xdr_opaque_len_bound [of "length b"]
    by (auto simp: op_len_simps simp del: length_opaque_wire u32_max_ge split: if_splits)
next
  case (ExchangeId v ow)
  then show ?thesis
    using assms u32_max_ge usize_max_ge xdr_opaque_len_bound [of "length ow"]
    by (auto simp: op_len_simps simp del: length_opaque_wire u32_max_ge split: if_splits)
next
  case (PutFh h)
  then show ?thesis
    using assms u32_max_ge usize_max_ge xdr_opaque_len_bound [of "length h"]
    by (auto simp: op_len_simps simp del: length_opaque_wire u32_max_ge split: if_splits)
next
  case (Lookup h)
  then show ?thesis
    using assms u32_max_ge usize_max_ge xdr_opaque_len_bound [of "length h"]
    by (auto simp: op_len_simps simp del: length_opaque_wire u32_max_ge split: if_splits)
next
  case (Link h)
  then show ?thesis
    using assms u32_max_ge usize_max_ge xdr_opaque_len_bound [of "length h"]
    by (auto simp: op_len_simps simp del: length_opaque_wire u32_max_ge split: if_splits)
next
  case (Remove h)
  then show ?thesis
    using assms u32_max_ge usize_max_ge xdr_opaque_len_bound [of "length h"]
    by (auto simp: op_len_simps simp del: length_opaque_wire u32_max_ge split: if_splits)
next
  case (CreateDir h m)
  then show ?thesis
    using assms u32_max_ge usize_max_ge xdr_opaque_len_bound [of "length h"]
    by (auto simp: op_len_simps simp del: length_opaque_wire u32_max_ge split: if_splits)
qed (use assms u32_max_ge usize_max_ge in
      \<open>auto simp: op_len_simps simp del: length_opaque_wire u32_max_ge\<close>)

lemmas op_encode_length = op_encode_length_bound [THEN conjunct1]
lemmas op_encoded_len_bound = op_encode_length_bound [THEN conjunct2]

subsection \<open>Round trips\<close>

lemma read_many_after_require:
  "4 * n \<le> length d \<Longrightarrow> read_many n read_u32_after_require d = read_many n read_u32 d"
proof (induction n arbitrary: d)
  case (Suc n)
  then show ?case by (simp add: and_then_def read_u32_eq after_require_run)
qed simp

definition bitmap_decode :: "Bitmap decoder" where
  "bitmap_decode = and_then read_u32 (\<lambda>len. bitmap_decode_after_len (unat len))"

definition bitmap_wire :: "Bitmap \<Rightarrow> bytes" where
  "bitmap_wire ws = be_bytes 4 (of_nat (length ws) :: u32) @ concat (map (be_bytes 4) ws)"

lemma bitmap_decode_wire:
  assumes "length ws \<le> u32_max"
  shows "bitmap_decode (bitmap_wire ws @ rest) = (Ok ws, rest)"
proof -
  have "read_many (length ws) read_u32_after_require (concat (map (be_bytes 4) ws) @ rest)
      = read_many (length ws) read_u32 (concat (map (be_bytes 4) ws) @ rest)"
    by (rule read_many_after_require) simp
  moreover have "length ws * 4 \<le> usize_max" using assms by (simp add: u32_max_def usize_max_def)
  ultimately show ?thesis using assms u32_codec.read_many_wire [of ws rest]
    by (simp add: bitmap_decode_def bitmap_decode_after_len_def require_bitmap_words_def
        remaining_def and_then_def bitmap_wire_def unat_of_nat_u32 checked_mul_def)
qed

interpretation bitmap_codec: xdr_codec bitmap_encode bitmap_decode bitmap_wire "\<lambda>ws. length ws \<le> u32_max"
  by unfold_locales (simp_all add: bitmap_wire_def flip: bitmap_wire_def add: bitmap_decode_wire)

interpretation stateid_codec: xdr_codec stateid_encode stateid_decode
  "\<lambda>s. be_bytes 4 (seqid s) @ other s" "\<lambda>s. length (other s) = 12"
  by unfold_locales
    (simp_all add: stateid_decode_def and_then_def read_u32_and_bytes_eq u32_max_def)

lemma safe_require_bitmap_words [safe_intros]: "safe (require_bitmap_words len)"
  by (simp add: safe_def require_bitmap_words_def remaining_def and_then_def checked_mul_def)

lemma read_many_u32_safe_run:
  "4 * n \<le> length d \<Longrightarrow>
     fst (read_many n read_u32_after_require d) \<noteq> Panic \<and>
     suffix (snd (read_many n read_u32_after_require d)) d"
  using safe_read_many [OF safe_read_u32, of n]
  by (simp add: read_many_after_require safe_def)

lemma safe_bitmap_decode_after_len [safe_intros]: "safe (bitmap_decode_after_len len)"
proof (rule safeI)
  fix d
  show "fst (bitmap_decode_after_len len d) \<noteq> Panic \<and> suffix (snd (bitmap_decode_after_len len d)) d"
    using read_many_u32_safe_run [of len d]
    by (auto simp: bitmap_decode_after_len_def require_bitmap_words_def remaining_def and_then_def
        checked_mul_def)
qed

lemma safe_stateid_decode [safe_intros]: "safe stateid_decode"
  unfolding stateid_decode_def by (intro safe_intros)

subsection \<open>The attributes of a bitmap\<close>

lemma trailing_zeros:
  assumes "w \<noteq> 0"
  shows "trailing_zeros w < 32" and "bit w (trailing_zeros w)"
    and "\<And>i. i < trailing_zeros w \<Longrightarrow> \<not> bit w i"
proof -
  obtain j where "bit w j" using assms by (auto simp: bit_eq_iff)
  then have "j < 32" using bit_imp_le_length by fastforce
  have "length (takeWhile (\<lambda>i. \<not> bit w i) [0..<32]) < 32"
  proof (rule ccontr)
    assume "\<not> ?thesis"
    then have "takeWhile (\<lambda>i. \<not> bit w i) [0..<32] = [0..<32]"
      using length_takeWhile_le [of "\<lambda>i. \<not> bit w i" "[0..<32]"]
      by (metis diff_zero length_upt not_le_imp_less takeWhile_eq_take take_all_iff)
    then have "\<not> bit w j" using \<open>j < 32\<close>
      by (metis atLeastLessThan_iff le0 set_takeWhileD set_upt)
    then show False using \<open>bit w j\<close> by simp
  qed
  then show lt: "trailing_zeros w < 32" by (simp add: trailing_zeros_def)
  have "\<not> \<not> bit w ([0..<32] ! trailing_zeros w)"
    unfolding trailing_zeros_def
    by (rule nth_length_takeWhile) (use lt in \<open>simp add: trailing_zeros_def\<close>)
  then show "bit w (trailing_zeros w)" using lt by simp
  fix i assume i: "i < trailing_zeros w"
  then have "takeWhile (\<lambda>i. \<not> bit w i) [0..<32] ! i = [0..<32] ! i"
    by (intro takeWhile_nth) (simp add: trailing_zeros_def)
  then have "takeWhile (\<lambda>i. \<not> bit w i) [0..<32] ! i = i" using i lt by simp
  moreover have "takeWhile (\<lambda>i. \<not> bit w i) [0..<32] ! i \<in> set (takeWhile (\<lambda>i. \<not> bit w i) [0..<32])"
    using i by (simp add: trailing_zeros_def)
  ultimately show "\<not> bit w i" by (metis set_takeWhileD)
qed

lemma clear_lowest_bit:
  assumes "(w :: u32) \<noteq> 0"
  shows "bit (w AND (w - 1)) i \<longleftrightarrow> bit w i \<and> i \<noteq> trailing_zeros w"
proof -
  let ?k = "trailing_zeros w"
  have unset: "unset_bit ?k w = w - 2 ^ ?k"
    using trailing_zeros(2) [OF assms] by (simp add: unset_bit_eq)
  have disj: "unset_bit ?k w AND mask ?k = 0"
    using trailing_zeros(3) [OF assms]
    by (auto simp: bit_eq_iff bit_and_iff bit_unset_bit_iff bit_mask_iff)
  have "w - 1 = unset_bit ?k w + mask ?k"
    by (simp add: unset mask_eq_exp_minus_1)
  also have "\<dots> = unset_bit ?k w OR mask ?k"
    using disj by (rule disjunctive_add_eq_or)
  finally show ?thesis
    using trailing_zeros(3) [OF assms, of i] trailing_zeros(1) [OF assms]
    by (auto simp: bit_and_iff bit_or_iff bit_unset_bit_iff bit_mask_iff)
qed

text \<open>The set bits of a word, in ascending order.\<close>

definition set_bits :: "u32 \<Rightarrow> nat list" where
  "set_bits w = filter (bit w) [0..<32]"

lemma set_bits_0 [simp]: "set_bits 0 = []"
  by (simp add: set_bits_def)

lemma set_bits_Cons:
  assumes "w \<noteq> 0"
  shows "set_bits w = trailing_zeros w # set_bits (w AND (w - 1))"
proof -
  let ?k = "trailing_zeros w"
  note tz = trailing_zeros [OF assms]
  have split: "[0..<32] = [0..<?k] @ ?k # [Suc ?k..<32]"
    using tz(1) upt_add_eq_append [of 0 ?k "32 - ?k"] upt_conv_Cons [of ?k 32] by simp
  have low: "filter (bit w) [0..<?k] = []" "filter (bit (w AND (w - 1))) [0..<?k] = []"
    using tz(3) by (auto simp: filter_empty_conv clear_lowest_bit [OF assms])
  have high: "filter (bit (w AND (w - 1))) [Suc ?k..<32] = filter (bit w) [Suc ?k..<32]"
    by (rule filter_cong) (auto simp: clear_lowest_bit [OF assms])
  show ?thesis
    unfolding set_bits_def split using low high tz(2)
    by (simp add: clear_lowest_bit [OF assms])
qed

text \<open>Running the iterator to its end; \<open>None\<close> when the given number of steps is not enough.\<close>

primrec bitmap_attrs_collect :: "nat \<Rightarrow> BitmapAttrs \<Rightarrow> u32 list option" where
  "bitmap_attrs_collect 0 it = None"
| "bitmap_attrs_collect (Suc n) it = (case bitmap_attrs_next it of
     None \<Rightarrow> Some []
   | Some (attr, it') \<Rightarrow> map_option (\<lambda>rest. attr # rest) (bitmap_attrs_collect n it'))"

definition pending_attrs :: "BitmapAttrs \<Rightarrow> u32 list" where
  "pending_attrs it =
     map (\<lambda>b. current_word_index it * 32 + of_nat b) (set_bits (current_word it)) @
     concat (map (\<lambda>i. map (\<lambda>b. of_nat i * 32 + of_nat b) (set_bits (ba_words it ! i)))
              [word_index it..<length (ba_words it)])"

lemma bitmap_attrs_next_pending:
  "case bitmap_attrs_next it of
     None \<Rightarrow> pending_attrs it = []
   | Some (attr, it') \<Rightarrow> pending_attrs it = attr # pending_attrs it'"
proof (induction it rule: bitmap_attrs_next.induct)
  case (1 it)
  consider (bits) "current_word it \<noteq> 0" | (word) "current_word it = 0" "word_index it < length (ba_words it)"
    | (exhausted) "current_word it = 0" "\<not> word_index it < length (ba_words it)" by blast
  then show ?case
  proof cases
    case bits
    then show ?thesis
      by (subst bitmap_attrs_next.simps) (simp add: Let_def pending_attrs_def set_bits_Cons)
  next
    case word
    let ?it = "it\<lparr> current_word := ba_words it ! word_index it,
                   current_word_index := of_nat (word_index it), word_index := word_index it + 1 \<rparr>"
    have "pending_attrs it = pending_attrs ?it"
      using word by (simp add: pending_attrs_def upt_rec [of "word_index it"])
    moreover have "bitmap_attrs_next it = bitmap_attrs_next ?it"
      using word by (subst bitmap_attrs_next.simps) simp
    ultimately show ?thesis using 1 word by (simp only: not_not)
  next
    case exhausted
    then show ?thesis by (subst bitmap_attrs_next.simps) (simp add: pending_attrs_def)
  qed
qed

lemma bitmap_attrs_collect_pending:
  "length (pending_attrs it) < n \<Longrightarrow> bitmap_attrs_collect n it = Some (pending_attrs it)"
proof (induction n arbitrary: it)
  case (Suc n)
  show ?case
  proof (cases "bitmap_attrs_next it")
    case None
    then show ?thesis using bitmap_attrs_next_pending [of it] by simp
  next
    case (Some p)
    then obtain a it' where p: "bitmap_attrs_next it = Some (a, it')" by (cases p) auto
    then have "pending_attrs it = a # pending_attrs it'"
      using bitmap_attrs_next_pending [of it] by simp
    then show ?thesis using p Suc by simp
  qed
qed simp

lemma bitmap_attrs_pending:
  "pending_attrs (bitmap_attrs ws) =
     concat (map (\<lambda>i. map (\<lambda>b. of_nat i * 32 + of_nat b) (set_bits (ws ! i))) [0..<length ws])"
  by (simp add: pending_attrs_def bitmap_attrs_def)

subsection \<open>Properties\<close>

text \<open>
  C34. The encoded length of an operation is exact: the encoder appends precisely as many bytes as
  \<open>encoded_len\<close> announces, and the announced length never saturates.
\<close>

theorem op_encoded_len_exact:
  assumes "op_wf op" and "op_encode op enc = Some enc'"
  shows "length enc' = length enc + op_encoded_len op \<and> op_encoded_len op < usize_max"
  using op_encode_length_bound [OF assms] usize_max_ge u32_max_ge by linarith

theorem op_encoded_len_exact_witness:
  "op_encode (NfsOp.Lookup ''a'') [] = Some (be_bytes 4 (15 :: u32) @ opaque_wire (as_bytes ''a'')) \<and>
   op_encoded_len (NfsOp.Lookup ''a'') = 12"
proof -
  have e: "op_encode (NfsOp.Lookup ''a'') [] = Some (be_bytes 4 (15 :: u32) @ opaque_wire (as_bytes ''a''))"
    by (simp add: put_string_eq u32_max_def)
  have "xdr_padding (Suc 0) = 3" by (simp add: xdr_padding_mod)
  then show ?thesis using op_encoded_len_exact [OF _ e] e by simp
qed

text \<open>
  Iterating over the attributes of a bitmap ends and yields the numbers of its set bits, word by
  word in ascending order, each exactly once.
\<close>

lemma bitmap_attrs_complete:
  assumes "length (concat (map (\<lambda>i. set_bits (ws ! i)) [0..<length ws])) < n"
  shows "bitmap_attrs_collect n (bitmap_attrs ws) =
    Some (concat (map (\<lambda>i. map (\<lambda>b. of_nat i * 32 + of_nat b) (set_bits (ws ! i))) [0..<length ws]))"
proof -
  have "length (concat (map (\<lambda>i. map (\<lambda>b. of_nat i * 32 + of_nat b :: u32) (set_bits (ws ! i))) [0..<length ws]))
      = length (concat (map (\<lambda>i. set_bits (ws ! i)) [0..<length ws]))"
    by (simp add: length_concat o_def)
  then show ?thesis
    using bitmap_attrs_collect_pending [of "bitmap_attrs ws" n] assms by (simp add: bitmap_attrs_pending)
qed

end
