(* ===== verification/Rpc_Wire.thy ===== *)
theory Rpc_Wire
  imports Xdr_Codec
begin

text \<open>
  The ONC RPC layer on the wire (\<open>src/rpc.rs\<close>): AUTH_SYS credentials, the call header, the
  payload segments, the batched vectored write, the reassembly of record fragments and the
  decoding of a reply header.

  The network is a parameter. The bytes a reader will deliver are a list of chunks, cut in
  any way: a read returns the front of the first chunk, and the empty list is the end of the
  stream. A writer is the list of byte counts its calls will accept. The response limit is an
  atomic that another task may lower, so a record is read against one limit per fragment.
\<close>

unbundle bit_operations_syntax

abbreviation (input) RPC_VERSION :: u32 where "RPC_VERSION \<equiv> 2"
abbreviation (input) CALL :: u32 where "CALL \<equiv> 0"
abbreviation (input) REPLY :: u32 where "REPLY \<equiv> 1"
abbreviation (input) MSG_ACCEPTED :: u32 where "MSG_ACCEPTED \<equiv> 0"
abbreviation (input) MSG_DENIED :: u32 where "MSG_DENIED \<equiv> 1"
abbreviation (input) SUCCESS :: u32 where "SUCCESS \<equiv> 0"
abbreviation (input) AUTH_SYS :: u32 where "AUTH_SYS \<equiv> 1"
abbreviation (input) AUTH_SYS_MAX_MACHINE_NAME_LEN :: usize where "AUTH_SYS_MAX_MACHINE_NAME_LEN \<equiv> 255"
abbreviation (input) AUTH_SYS_MAX_GIDS :: usize where "AUTH_SYS_MAX_GIDS \<equiv> 16"
abbreviation (input) AUTH_SYS_MAX_BODY_LEN :: usize where "AUTH_SYS_MAX_BODY_LEN \<equiv> 400"
abbreviation (input) LAST_FRAGMENT :: u32 where "LAST_FRAGMENT \<equiv> 0x80000000"
abbreviation (input) FRAGMENT_SIZE_MASK :: u32 where "FRAGMENT_SIZE_MASK \<equiv> 0x7FFFFFFF"
abbreviation (input) RPC_CALL_HEADER_LEN :: usize where "RPC_CALL_HEADER_LEN \<equiv> 32"
abbreviation (input) RPC_AUTH_NONE_VERIFIER :: bytes where "RPC_AUTH_NONE_VERIFIER \<equiv> replicate 8 0"
abbreviation (input) MAX_WRITE_BATCH_RECORDS :: usize where "MAX_WRITE_BATCH_RECORDS \<equiv> 32"
abbreviation (input) ZERO_PADDING :: bytes where "ZERO_PADDING \<equiv> [0, 0, 0]"

subsection \<open>AUTH\_SYS credentials\<close>

record AuthSys =
  machine_name :: string
  uid :: u32
  gid :: u32
  gids :: "u32 list"

definition encoded_body_len :: "AuthSys \<Rightarrow> usize result" where
  "encoded_body_len auth =
    then_outcome
      (ok_or (InvalidConfig ''AUTH_SYS group list length overflow'')
        (checked_mul (length (gids auth)) 4))
      (\<lambda>group_bytes.
         ok_or (InvalidConfig ''AUTH_SYS credential length overflow'')
           (Option.bind (checked_add 16 (xdr_opaque_len (length (machine_name auth))))
             (\<lambda>len. checked_add len group_bytes)))"

definition auth_validate :: "AuthSys \<Rightarrow> unit result" where
  "auth_validate auth =
    (if length (machine_name auth) > AUTH_SYS_MAX_MACHINE_NAME_LEN
     then Err (InvalidConfig ''AUTH_SYS machine name is {} bytes; the maximum is {AUTH_SYS_MAX_MACHINE_NAME_LEN}'')
     else if length (gids auth) > AUTH_SYS_MAX_GIDS
     then Err (InvalidConfig ''AUTH_SYS has {} additional groups; the maximum is {AUTH_SYS_MAX_GIDS}'')
     else then_outcome (encoded_body_len auth) (\<lambda>body_len.
       if body_len > AUTH_SYS_MAX_BODY_LEN
       then Err (InvalidConfig ''AUTH_SYS credential body is {body_len} bytes; the maximum is {AUTH_SYS_MAX_BODY_LEN}'')
       else Ok ()))"

text \<open>The stamp is the clock value \<open>auth_stamp()\<close> returns.\<close>

definition encode_body :: "u32 \<Rightarrow> AuthSys \<Rightarrow> bytes result" where
  "encode_body stamp auth =
    then_outcome (auth_validate auth) (\<lambda>_.
    then_outcome (encoded_body_len auth) (\<lambda>_.
    then_outcome (if length (gids auth) \<le> u32_max then Ok (of_nat (length (gids auth)) :: u32)
      else Err (InvalidConfig ''AUTH_SYS group count does not fit in u32'')) (\<lambda>group_count.
    case (do {
      enc \<leftarrow> put_u32 stamp [];
      enc \<leftarrow> put_string (machine_name auth) enc;
      enc \<leftarrow> put_u32 (uid auth) enc;
      enc \<leftarrow> put_u32 (gid auth) enc;
      enc \<leftarrow> put_u32 group_count enc;
      Some (foldl (\<lambda>enc g. enc @ be_bytes 4 g) enc (gids auth))
    }) of Some enc \<Rightarrow> Ok enc | None \<Rightarrow> Panic)))"

subsection \<open>Call header\<close>

definition put_header_u32_at :: "bytes \<Rightarrow> usize \<Rightarrow> u32 \<Rightarrow> bytes" where
  "put_header_u32_at out offset v = take offset out @ be_bytes 4 v @ drop (offset + 4) out"

definition rpc_call_header_template :: "usize \<Rightarrow> bytes result" where
  "rpc_call_header_template auth_body_len =
    (if auth_body_len \<le> u32_max then
       (let header = replicate RPC_CALL_HEADER_LEN 0;
            header = put_header_u32_at header 4 CALL;
            header = put_header_u32_at header 8 RPC_VERSION;
            header = put_header_u32_at header 24 AUTH_SYS;
            header = put_header_u32_at header 28 (of_nat auth_body_len)
        in Ok header)
     else Err (InvalidConfig ''AUTH_SYS credential length does not fit in u32''))"

definition encode_call_header_from_template :: "bytes \<Rightarrow> u32 \<Rightarrow> u32 \<Rightarrow> u32 \<Rightarrow> u32 \<Rightarrow> bytes" where
  "encode_call_header_from_template template xid program version procedure =
    (let header = put_header_u32_at template 0 xid;
         header = put_header_u32_at header 12 program;
         header = put_header_u32_at header 16 version
     in put_header_u32_at header 20 procedure)"

subsection \<open>Payload and request\<close>

record RpcPayload =
  segments :: "bytes list"
  payload_len :: usize

definition payload_from_segments :: "bytes list \<Rightarrow> RpcPayload" where
  "payload_from_segments segs =
    (let (out, len) = foldl (\<lambda>(out, len) segment.
           if segment = [] then (out, len)
           else (out @ [segment], saturating_add len (length segment))) ([], 0) segs
     in \<lparr> segments = out, payload_len = len \<rparr>)"

definition payload_from_bytes :: "bytes \<Rightarrow> RpcPayload" where
  "payload_from_bytes payload = \<lparr> segments = [payload], payload_len = length payload \<rparr>"

record RpcRequest =
  header :: bytes
  payload :: RpcPayload
  payload_padding_len :: usize
  record_len :: usize

text \<open>The part of \<open>RpcClientInner\<close> that encoding a call reads.\<close>

record RpcClientAuth =
  auth_body :: bytes
  auth_padding_len :: usize
  call_header_template :: bytes

definition encoded_call_len :: "RpcClientAuth \<Rightarrow> usize \<Rightarrow> usize" where
  "encoded_call_len rpc len =
    foldl saturating_add 0
      [RPC_CALL_HEADER_LEN, length (auth_body rpc), auth_padding_len rpc,
       length RPC_AUTH_NONE_VERIFIER, len, xdr_padding len]"

definition encode_call :: "RpcClientAuth \<Rightarrow> u32 \<Rightarrow> u32 \<Rightarrow> u32 \<Rightarrow> u32 \<Rightarrow> RpcPayload \<Rightarrow> RpcRequest" where
  "encode_call rpc xid program version procedure p =
    \<lparr> header = encode_call_header_from_template (call_header_template rpc) xid program version procedure,
      payload = p,
      payload_padding_len = xdr_padding (payload_len p),
      record_len = encoded_call_len rpc (payload_len p) \<rparr>"

definition rpc_client_auth :: "u32 \<Rightarrow> AuthSys \<Rightarrow> RpcClientAuth result" where
  "rpc_client_auth stamp auth =
    then_outcome (encode_body stamp auth) (\<lambda>body.
    then_outcome (rpc_call_header_template (length body)) (\<lambda>template.
      Ok \<lparr> auth_body = body, auth_padding_len = xdr_padding (length body),
           call_header_template = template \<rparr>))"

definition next_xid :: "u32 \<Rightarrow> u32 \<times> u32" where
  "next_xid counter =
    (let xid = counter + 1; counter = counter + 1 in
     if xid = 0 then (counter + 1, counter + 1) else (xid, counter))"

subsection \<open>Writing a batch\<close>

definition record_slices :: "bytes \<Rightarrow> usize \<Rightarrow> RpcRequest \<Rightarrow> bytes list" where
  "record_slices body padding request =
    (let marker = be_bytes 4 (LAST_FRAGMENT OR of_nat (record_len request) :: u32) in
     filter (\<lambda>part. part \<noteq> [])
       [marker, header request, body, take padding ZERO_PADDING, RPC_AUTH_NONE_VERIFIER]
     @ segments (payload request)
     @ (let tail = take (payload_padding_len request) ZERO_PADDING in
        if tail \<noteq> [] then [tail] else []))"

fun advance_slices :: "usize \<Rightarrow> bytes list \<Rightarrow> bytes list" where
  "advance_slices n [] = []"
| "advance_slices n (s # ss) =
    (if length s \<le> n then advance_slices (n - length s) ss else drop n s # ss)"

text \<open>
  The write loop against a writer that accepts \<open>accepts\<close> bytes call by call; the result carries
  the bytes that reached the stream. A writer with no further call is one that fails.
\<close>

fun write_vectored_loop :: "nat list \<Rightarrow> bytes list \<Rightarrow> bytes \<Rightarrow> unit result \<times> bytes" where
  "write_vectored_loop accepts [] sent = (Ok (), sent)"
| "write_vectored_loop [] slices sent = (Err (Io ''write failed''), sent)"
| "write_vectored_loop (n # accepts) slices sent =
    (let written = min n (length (concat slices)) in
     if written = 0 then (Err (Io ''failed to write RPC record''), sent)
     else write_vectored_loop accepts (advance_slices written slices)
            (sent @ take written (concat slices)))"

definition write_record_batch ::
  "nat list \<Rightarrow> RpcRequest list \<Rightarrow> bytes \<Rightarrow> usize \<Rightarrow> unit result \<times> bytes" where
  "write_record_batch accepts batch body padding =
    (let batch = take MAX_WRITE_BATCH_RECORDS batch in
     if list_ex (\<lambda>request. record_len request > unat FRAGMENT_SIZE_MASK) batch
     then (Err (Rpc ''RPC payload too large: {} bytes''), [])
     else write_vectored_loop accepts
            (concat (map (record_slices body padding) batch)) [])"

subsection \<open>Reading a record\<close>

type_synonym reader = "bytes list"

fun read_buf :: "usize \<Rightarrow> reader \<Rightarrow> bytes \<times> reader" where
  "read_buf n [] = ([], [])"
| "read_buf n (c # cs) = (take n c, if length c \<le> n then cs else drop n c # cs)"

function read_fill :: "usize \<Rightarrow> bytes \<Rightarrow> reader \<Rightarrow> bytes result \<times> reader" where
  "read_fill target_len out r =
    (if length out < target_len then
       (let (read, r') = read_buf (target_len - length out) r in
        if read = [] then (Err (Io ''short RPC record fragment''), r')
        else read_fill target_len (out @ read) r')
     else (Ok out, r))"
  by pat_completeness auto
termination
  by (relation "measure (\<lambda>(target_len, out, r). target_len - length out)")
    (auto simp: length_greater_0_conv [symmetric] simp del: length_greater_0_conv)

declare read_fill.simps [simp del]

definition read_exact_into_buf :: "bytes \<Rightarrow> usize \<Rightarrow> reader \<Rightarrow> bytes result \<times> reader" where
  "read_exact_into_buf out len r =
    (case checked_add (length out) len of
       None \<Rightarrow> (Err (Rpc ''RPC response length overflow''), r)
     | Some target_len \<Rightarrow> read_fill target_len out r)"

definition reader_read_u32 :: "reader \<Rightarrow> u32 result \<times> reader" where
  "reader_read_u32 r = (case read_fill 4 [] r of
     (Ok bs, r') \<Rightarrow> (Ok (of_be bs), r')
   | (Err e, r') \<Rightarrow> (Err e, r')
   | (Panic, r') \<Rightarrow> (Panic, r'))"

lemma read_buf_total: "length (fst (read_buf n r)) + length (concat (snd (read_buf n r))) = length (concat r)"
  by (cases r) auto

lemma read_fill_total:
  "read_fill target out r = (Ok out', r') \<Longrightarrow>
     length out' + length (concat r') = length out + length (concat r)"
proof (induction target out r rule: read_fill.induct)
  case (1 target out r)
  obtain read r1 where rb: "read_buf (target - length out) r = (read, r1)" by fastforce
  then have "length read + length (concat r1) = length (concat r)"
    using read_buf_total [of "target - length out" r] by simp
  then show ?case
    using 1 rb by (subst (asm) read_fill.simps) (auto split: if_splits)
qed

lemma read_fill_len:
  "read_fill target out r = (Ok out', r') \<Longrightarrow> length out' = max target (length out)"
proof (induction target out r rule: read_fill.induct)
  case (1 target out r)
  have "length (fst (read_buf n r)) \<le> n" for n by (cases r) auto
  from this [of "target - length out"] show ?case
    using 1 by (subst (asm) read_fill.simps) (auto simp: max_def split: if_splits prod.splits)
qed

lemma reader_read_u32_total:
  "reader_read_u32 r = (Ok m, r') \<Longrightarrow> length (concat r') + 4 = length (concat r)"
  using read_fill_total [of 4 "[]" r] read_fill_len [of 4 "[]" r]
  by (fastforce simp: reader_read_u32_def split: prod.splits outcome.splits)

lemma read_exact_into_buf_total:
  "read_exact_into_buf out n r = (Ok out', r') \<Longrightarrow> length (concat r') + n = length (concat r)"
  using read_fill_total [of "length out + n" out r] read_fill_len [of "length out + n" out r]
  by (fastforce simp: read_exact_into_buf_def checked_add_def split: if_splits)

text \<open>
  The loop of \<open>read_record\<close>: a marker, the limit check and the fragment. The first fragment, which
  the code reads before the loop, is a round with an empty buffer: there the check of the loop
  is the check before it. The stream is finite, so the loop ends.
\<close>

function read_record_loop :: "(nat \<Rightarrow> usize) \<Rightarrow> nat \<Rightarrow> bytes \<Rightarrow> reader \<Rightarrow> bytes result \<times> reader" where
  "read_record_loop max_response_bytes k out r =
    (case reader_read_u32 r of
       (Err e, r) \<Rightarrow> (Err e, r)
     | (Panic, r) \<Rightarrow> (Panic, r)
     | (Ok marker, r) \<Rightarrow>
        (let last = (marker AND LAST_FRAGMENT \<noteq> 0);
             size' = unat (marker AND FRAGMENT_SIZE_MASK);
             response_limit = max_response_bytes k in
         if saturating_add (length out) size' > response_limit
         then (Err (Rpc ''RPC response exceeded {response_limit} bytes''), r)
         else (case read_exact_into_buf out size' r of
             (Err e, r) \<Rightarrow> (Err e, r)
           | (Panic, r) \<Rightarrow> (Panic, r)
           | (Ok out, r) \<Rightarrow>
               if last then (Ok out, r)
               else read_record_loop max_response_bytes (k + 1) out r)))"
  by pat_completeness auto
termination
  by (relation "measure (\<lambda>(lim, k, out, r). length (concat r))")
    (auto dest!: reader_read_u32_total [OF sym] read_exact_into_buf_total [OF sym])

declare read_record_loop.simps [simp del]

definition read_record :: "(nat \<Rightarrow> usize) \<Rightarrow> reader \<Rightarrow> bytes result \<times> reader" where
  "read_record max_response_bytes r = read_record_loop max_response_bytes 0 [] r"

subsection \<open>Reply header\<close>

definition peek_xid :: "bytes \<Rightarrow> u32 result" where
  "peek_xid response =
    (if length response < 4 then Err (Rpc ''short RPC reply without xid'')
     else Ok (of_be [response ! 0, response ! 1, response ! 2, response ! 3]))"

definition decode_reply_dec :: "u32 \<Rightarrow> bytes decoder" where
  "decode_reply_dec expected_xid =
    and_then read_u32_triple (\<lambda>(xid, message_type, reply_stat).
    if xid \<noteq> expected_xid
    then fail (Rpc ''RPC xid mismatch: expected {expected_xid}, got {xid}'')
    else if message_type \<noteq> REPLY
    then fail (Rpc ''expected RPC reply message, got type {message_type}'')
    else if reply_stat = MSG_DENIED then fail (Rpc ''RPC call was denied by server'')
    else if reply_stat \<noteq> MSG_ACCEPTED then fail (Rpc ''unknown RPC reply status {other}'')
    else and_then read_u32_skip_opaque_and_read_u32 (\<lambda>(verifier_flavor, accept_stat).
      if accept_stat = SUCCESS then (\<lambda>dec. (Ok (into_remaining dec), []))
      else if accept_stat = 1 then fail (Rpc ''RPC program unavailable'')
      else if accept_stat = 2 then
        and_then read_u32_pair (\<lambda>(low, high).
          fail (Rpc ''RPC program version mismatch: server supports {low}..={high}''))
      else if accept_stat = 3 then fail (Rpc ''RPC procedure unavailable'')
      else if accept_stat = 4 then fail (Rpc ''RPC server could not decode arguments'')
      else if accept_stat = 5 then fail (Rpc ''RPC system error'')
      else fail (Rpc ''unknown RPC accept status {other}'')))"

definition decode_reply :: "u32 \<Rightarrow> bytes \<Rightarrow> bytes result" where
  "decode_reply expected_xid response = fst (decode_reply_dec expected_xid response)"

subsection \<open>What a vectored write sends\<close>

lemma concat_advance_slices: "concat (advance_slices n ss) = drop n (concat ss)"
  by (induction n ss rule: advance_slices.induct) auto

lemma write_vectored_loop_sent:
  "write_vectored_loop accepts ss sent = (Ok (), out) \<Longrightarrow> out = sent @ concat ss"
proof (induction accepts ss sent rule: write_vectored_loop.induct)
  case (3 n accepts s ss sent)
  then show ?case by (auto simp: Let_def concat_advance_slices split: if_splits)
qed auto

lemma advance_slices_all: "length (concat ss) \<le> n \<Longrightarrow> advance_slices n ss = []"
  by (induction n ss rule: advance_slices.induct) auto

lemma write_vectored_loop_complete:
  assumes "\<And>n. n \<in> set accepts \<Longrightarrow> 0 < n" and "length (concat ss) \<le> length accepts"
    and "ss = [] \<or> concat ss \<noteq> []"
  shows "write_vectored_loop accepts ss sent = (Ok (), sent @ concat ss)"
  using assms
proof (induction accepts ss sent rule: write_vectored_loop.induct)
  case (3 n accepts s ss sent)
  let ?w = "min n (length (concat (s # ss)))"
  have w: "0 < ?w" using 3 by (auto simp: length_greater_0_conv [symmetric] simp del: length_greater_0_conv)
  have rest: "advance_slices ?w (s # ss) = [] \<or> concat (advance_slices ?w (s # ss)) \<noteq> []"
    using advance_slices_all [of "s # ss" ?w]
    by (simp only: concat_advance_slices drop_eq_Nil) blast
  have "length (concat (advance_slices ?w (s # ss))) \<le> length accepts"
    using 3(3) w by (simp only: concat_advance_slices length_drop list.size)
  then have "write_vectored_loop accepts (advance_slices ?w (s # ss)) (sent @ take ?w (concat (s # ss)))
      = (Ok (), (sent @ take ?w (concat (s # ss))) @ concat (advance_slices ?w (s # ss)))"
    using 3(1) [of ?w] 3(2) w rest by (auto simp: Let_def)
  then show ?case using w
    by (simp only: write_vectored_loop.simps Let_def concat_advance_slices append_assoc append_take_drop_id)
      auto
qed auto

subsection \<open>The length of a request on the wire\<close>

lemma payload_from_segments_aux:
  "foldl (\<lambda>(out, len) segment. if segment = [] then (out, len)
           else (out @ [segment], saturating_add len (length segment))) (out0, len0) segs =
   (out0 @ filter (\<lambda>s. s \<noteq> []) segs, foldl saturating_add len0 (map length (filter (\<lambda>s. s \<noteq> []) segs)))"
  by (induction segs arbitrary: out0 len0) auto

lemma concat_filter_nonempty [simp]: "concat (filter (\<lambda>s. s \<noteq> []) segs) = concat segs"
  by (induction segs) auto

lemma sum_list_map_length: "sum_list (map length xs) = length (concat xs)"
  by (simp add: length_concat)

lemma payload_from_segments_eq:
  "segments (payload_from_segments segs) = filter (\<lambda>s. s \<noteq> []) segs"
  "payload_len (payload_from_segments segs) = min (length (concat segs)) usize_max"
  using payload_from_segments_aux [of "[]" 0 segs]
  by (simp_all add: payload_from_segments_def foldl_saturating_add sum_list_map_length)

definition payload_wf :: "RpcPayload \<Rightarrow> bool" where
  "payload_wf p \<longleftrightarrow> payload_len p = length (concat (segments p))"

lemma payload_from_segments_wf:
  "length (concat segs) \<le> usize_max \<Longrightarrow> payload_wf (payload_from_segments segs)"
  by (simp add: payload_wf_def payload_from_segments_eq)

lemma payload_from_bytes_wf: "payload_wf (payload_from_bytes bs)"
  by (simp add: payload_wf_def payload_from_bytes_def)

definition client_auth_wf :: "RpcClientAuth \<Rightarrow> bool" where
  "client_auth_wf rpc \<longleftrightarrow> auth_padding_len rpc = xdr_padding (length (auth_body rpc)) \<and>
     length (call_header_template rpc) = 32 \<and> length (auth_body rpc) \<le> 400"

lemma length_put_header_u32_at [simp]:
  "offset + 4 \<le> length h \<Longrightarrow> length (put_header_u32_at h offset v) = length h"
  by (simp add: put_header_u32_at_def)

lemma length_encode_call_header [simp]:
  "length t = 32 \<Longrightarrow> length (encode_call_header_from_template t a b c d) = 32"
  by (simp add: encode_call_header_from_template_def Let_def)

lemma encoded_call_len_eq:
  "encoded_call_len rpc n =
     min (40 + length (auth_body rpc) + auth_padding_len rpc + n + xdr_padding n) usize_max"
  unfolding encoded_call_len_def by (subst foldl_saturating_add) (simp_all add: algebra_simps)

lemma take_ZERO_PADDING: "take (xdr_padding n) [0, 0, 0] = pad n"
proof -
  have "xdr_padding n \<in> {0, 1, 2, 3}" using xdr_padding_less [of n] by auto
  then show ?thesis by (auto simp: pad_def numeral_eq_Suc)
qed

text \<open>The bytes of a call after its record marker.\<close>

definition call_body :: "RpcClientAuth \<Rightarrow> u32 \<Rightarrow> u32 \<Rightarrow> u32 \<Rightarrow> u32 \<Rightarrow> bytes \<Rightarrow> bytes" where
  "call_body rpc xid program version procedure args =
     encode_call_header_from_template (call_header_template rpc) xid program version procedure @
     auth_body rpc @ pad (length (auth_body rpc)) @ replicate 8 0 @ args @ pad (length args)"

lemma record_slices_encode_call:
  assumes "client_auth_wf rpc" and "payload_wf p"
  shows "concat (record_slices (auth_body rpc) (auth_padding_len rpc)
           (encode_call rpc xid program version procedure p)) =
         be_bytes 4 (LAST_FRAGMENT OR of_nat (encoded_call_len rpc (payload_len p)) :: u32) @
         call_body rpc xid program version procedure (concat (segments p))"
  using assms
  by (auto simp: record_slices_def encode_call_def call_body_def client_auth_wf_def payload_wf_def
      take_ZERO_PADDING Let_def numeral_eq_Suc)

lemma length_call_body:
  assumes "client_auth_wf rpc" and "encoded_call_len rpc (length args) < usize_max"
  shows "length (call_body rpc xid program version procedure args) = encoded_call_len rpc (length args)"
  using assms by (auto simp: call_body_def encoded_call_len_eq client_auth_wf_def)

subsection \<open>Credentials\<close>

lemma foldl_be_bytes: "foldl (\<lambda>enc g. enc @ be_bytes 4 g) enc ws = enc @ concat (map (be_bytes 4) ws)"
  by (induction ws arbitrary: enc) simp_all

lemma encoded_body_len_eq:
  "length (machine_name a) \<le> 255 \<Longrightarrow> length (gids a) \<le> 16 \<Longrightarrow>
     encoded_body_len a = Ok (20 + (length (machine_name a) + xdr_padding (length (machine_name a)))
       + 4 * length (gids a))"
  using xdr_padding_less [of "length (machine_name a)"]
  by (simp add: encoded_body_len_def xdr_opaque_len_exact u32_max_def checked_mul_def checked_add_def
      usize_max_def)

lemma auth_validate_Ok:
  "auth_validate a = Ok () \<longleftrightarrow> length (machine_name a) \<le> 255 \<and> length (gids a) \<le> 16 \<and>
     20 + (length (machine_name a) + xdr_padding (length (machine_name a))) + 4 * length (gids a) \<le> 400"
  by (auto simp: auth_validate_def encoded_body_len_eq split: if_splits)

lemma encode_body_Ok:
  assumes "auth_validate a = Ok ()"
  shows "encode_body stamp a = Ok (be_bytes 4 stamp @ opaque_wire (as_bytes (machine_name a)) @
           be_bytes 4 (uid a) @ be_bytes 4 (gid a) @ be_bytes 4 (of_nat (length (gids a)) :: u32) @
           concat (map (be_bytes 4) (gids a)))"
  using assms assms [unfolded auth_validate_Ok]
  by (simp add: encode_body_def encoded_body_len_eq put_string_eq u32_max_def foldl_be_bytes)

lemma rpc_client_auth_wf:
  assumes "rpc_client_auth stamp a = Ok rpc"
  shows "client_auth_wf rpc"
proof -
  from assms obtain body where b: "encode_body stamp a = Ok body"
    by (auto simp: rpc_client_auth_def then_outcome_Ok)
  then have v: "auth_validate a = Ok ()" by (auto simp: encode_body_def then_outcome_Ok)
  have len: "length body \<le> 400"
    using encode_body_Ok [OF v, of stamp] b v [unfolded auth_validate_Ok] by auto
  then show ?thesis using assms b
    by (auto simp: rpc_client_auth_def client_auth_wf_def rpc_call_header_template_def Let_def u32_max_def)
qed

subsection \<open>Reassembling a record\<close>

definition chunks_wf :: "reader \<Rightarrow> bool" where
  "chunks_wf r \<longleftrightarrow> [] \<notin> set r"

lemma read_buf_spec:
  assumes "chunks_wf r" and "0 < n" and "read_buf n r = (bs, r')"
  shows "chunks_wf r'" and "concat r = bs @ concat r'" and "length bs \<le> n"
    and "bs = [] \<longleftrightarrow> concat r = []"
  using assms by (cases r; auto simp: chunks_wf_def split: if_splits)+

lemma read_fill_spec:
  assumes "chunks_wf r" and "length out \<le> target"
  shows "if target \<le> length out + length (concat r)
     then \<exists>r'. read_fill target out r = (Ok (out @ take (target - length out) (concat r)), r') \<and>
            chunks_wf r' \<and> concat r' = drop (target - length out) (concat r)
     else \<exists>r'. read_fill target out r = (Err (Io ''short RPC record fragment''), r')"
  using assms
proof (induction target out r rule: read_fill.induct)
  case (1 target out r)
  show ?case
  proof (cases "length out < target")
    case False
    then have "read_fill target out r = (Ok out, r)" by (subst read_fill.simps) simp
    then show ?thesis using False 1 by simp
  next
    case True
    then have pos: "0 < target - length out" by simp
    obtain bs r1 where rb: "read_buf (target - length out) r = (bs, r1)" by fastforce
    note spec = read_buf_spec [OF 1(2) pos rb]
    show ?thesis
    proof (cases "bs = []")
      case empty: True
      then have "read_fill target out r = (Err (Io ''short RPC record fragment''), r1)"
        using True rb by (subst read_fill.simps) simp
      moreover have "concat r = []" using empty spec(4) by simp
      ultimately show ?thesis using True by (simp del: concat_eq_Nil_conv)
    next
      case False
      then have step: "read_fill target out r = read_fill target (out @ bs) r1"
        using True rb by (subst read_fill.simps) simp
      have "length (out @ bs) \<le> target" using spec(3) True by simp
      then show ?thesis
        using 1(1) [OF True _ refl False, of r1] rb spec step by (auto split: if_splits)
    qed
  qed
qed

lemma reader_read_u32_wire:
  assumes "chunks_wf r" and "concat r = be_bytes 4 w @ rest"
  shows "\<exists>r'. reader_read_u32 r = (Ok w, r') \<and> chunks_wf r' \<and> concat r' = rest"
  using read_fill_spec [of r "[]" 4] assms by (auto simp: reader_read_u32_def)

lemma read_exact_into_buf_wire:
  assumes "chunks_wf r" and "concat r = bs @ rest" and "length out + length bs \<le> usize_max"
  shows "\<exists>r'. read_exact_into_buf out (length bs) r = (Ok (out @ bs), r') \<and>
           chunks_wf r' \<and> concat r' = rest"
  using read_fill_spec [of r out "length out + length bs"] assms
  by (auto simp: read_exact_into_buf_def checked_add_def)

text \<open>A record as its sender frames it: every fragment behind its marker, the last one flagged.\<close>

fun frame :: "bytes list \<Rightarrow> bytes" where
  "frame [] = []"
| "frame [f] = be_bytes 4 (LAST_FRAGMENT OR of_nat (length f) :: u32) @ f"
| "frame (f # g # fs) = be_bytes 4 (of_nat (length f) :: u32) @ f @ frame (g # fs)"

lemma bit_LAST_FRAGMENT: "bit (LAST_FRAGMENT :: u32) i \<longleftrightarrow> i = 31"
proof -
  have "(LAST_FRAGMENT :: u32) = 2 ^ 31" by simp
  then show ?thesis by (simp only: bit_exp_iff) auto
qed

lemma fragment_marker:
  assumes "n < 2 ^ 31"
  shows "(of_nat n :: u32) AND LAST_FRAGMENT = 0"
    and "unat ((of_nat n :: u32) AND FRAGMENT_SIZE_MASK) = n"
    and "(LAST_FRAGMENT OR of_nat n :: u32) AND LAST_FRAGMENT \<noteq> 0"
    and "unat ((LAST_FRAGMENT OR of_nat n :: u32) AND FRAGMENT_SIZE_MASK) = n"
proof -
  have low: "FRAGMENT_SIZE_MASK = (mask 31 :: u32)"
    by (simp add: mask_eq_exp_minus_1)
  have small: "\<not> bit (of_nat n :: u32) i" if "31 \<le> i" for i
  proof -
    have "n < 2 ^ i" using assms that by (meson less_le_trans one_le_numeral power_increasing)
    then have "\<not> bit n i" by (simp add: bit_iff_odd)
    then show ?thesis by (simp add: bit_of_nat_iff)
  qed
  show "(of_nat n :: u32) AND LAST_FRAGMENT = 0"
    by (rule bit_word_eqI, use small [of 31] in \<open>simp only: bit_and_iff bit_LAST_FRAGMENT bit_0_eq bot_apply\<close>) auto
  have keep: "(of_nat n :: u32) AND mask 31 = of_nat n"
    by (rule bit_word_eqI, simp only: bit_and_iff bit_mask_iff)
      (use small in \<open>force simp: not_le\<close>)
  show "unat ((of_nat n :: u32) AND FRAGMENT_SIZE_MASK) = n"
    unfolding low keep using assms by (simp add: unat_of_nat)
  show "(LAST_FRAGMENT OR of_nat n :: u32) AND LAST_FRAGMENT \<noteq> 0"
  proof -
    have "bit ((LAST_FRAGMENT OR of_nat n :: u32) AND LAST_FRAGMENT) 31"
      by (simp only: bit_and_iff bit_or_iff bit_LAST_FRAGMENT) simp
    moreover have "\<not> bit (0 :: u32) 31" by simp
    ultimately show ?thesis by metis
  qed
  have "(LAST_FRAGMENT OR of_nat n :: u32) AND mask 31 = of_nat n"
    by (rule bit_word_eqI, simp only: bit_and_iff bit_or_iff bit_LAST_FRAGMENT bit_mask_iff)
      (use small in \<open>force simp: not_le\<close>)
  then show "unat ((LAST_FRAGMENT OR of_nat n :: u32) AND FRAGMENT_SIZE_MASK) = n"
    unfolding low using assms by (simp add: unat_of_nat)
qed

lemma read_record_loop_frame:
  assumes "frags \<noteq> []" and "\<And>f. f \<in> set frags \<Longrightarrow> length f < 2 ^ 31"
    and "chunks_wf r" and "concat r = frame frags @ rest"
    and "\<And>i. length out + length (concat frags) \<le> lim i" and "\<And>i. lim i \<le> usize_max"
  shows "\<exists>r'. read_record_loop lim k out r = (Ok (out @ concat frags), r') \<and>
           chunks_wf r' \<and> concat r' = rest"
  using assms
proof (induction frags arbitrary: k out r rule: frame.induct)
  case 1
  then show ?case by simp
next
  case (2 f)
  have fit: "length out + length f \<le> lim k" "length out + length f \<le> usize_max"
    using 2(5) [of k] 2(6) [of k] by auto
  obtain r1 where r1: "reader_read_u32 r = (Ok (LAST_FRAGMENT OR of_nat (length f)), r1)"
      "chunks_wf r1" "concat r1 = f @ rest"
    using reader_read_u32_wire [of r "LAST_FRAGMENT OR of_nat (length f)" "f @ rest"] 2 by auto
  obtain r2 where r2: "read_exact_into_buf out (length f) r1 = (Ok (out @ f), r2)"
      "chunks_wf r2" "concat r2 = rest"
    using read_exact_into_buf_wire [OF r1(2,3) fit(2)] by auto
  have "length f < 2 ^ 31" using 2 by simp
  then show ?case
    using r1 r2 fit fragment_marker [of "length f"]
    by (subst read_record_loop.simps) (simp add: saturating_add_exact)
next
  case (3 f g fs)
  have fit: "length out + length f \<le> lim k" "length out + length f \<le> usize_max"
    using 3(6) [of k] 3(7) [of k] by auto
  obtain r1 where r1: "reader_read_u32 r = (Ok (of_nat (length f)), r1)"
      "chunks_wf r1" "concat r1 = f @ frame (g # fs) @ rest"
    using reader_read_u32_wire [of r "of_nat (length f)" "f @ frame (g # fs) @ rest"] 3 by auto
  obtain r2 where r2: "read_exact_into_buf out (length f) r1 = (Ok (out @ f), r2)"
      "chunks_wf r2" "concat r2 = frame (g # fs) @ rest"
    using read_exact_into_buf_wire [OF r1(2,3) fit(2)] by auto
  have "length f < 2 ^ 31" using 3 by simp
  then have "read_record_loop lim k out r = read_record_loop lim (k + 1) (out @ f) r2"
    using r1 r2 fit fragment_marker [of "length f"]
    by (subst read_record_loop.simps) (simp add: saturating_add_exact)
  moreover have "\<exists>r'. read_record_loop lim (k + 1) (out @ f) r2 = (Ok ((out @ f) @ concat (g # fs)), r') \<and>
           chunks_wf r' \<and> concat r' = rest"
    using 3(2-) r2 by (intro 3(1)) (auto simp: add.assoc)
  ultimately show ?case by simp
qed

lemma read_record_loop_limit:
  "read_record_loop lim k out r = (Ok res, r') \<Longrightarrow> (\<And>i. lim i \<le> usize_max) \<Longrightarrow> \<exists>i. length res \<le> lim i"
proof (induction lim k out r rule: read_record_loop.induct)
  case (1 lim k out r)
  from 1(2) obtain m r1 where m: "reader_read_u32 r = (Ok m, r1)"
    by (subst (asm) read_record_loop.simps) (auto split: prod.splits outcome.splits)
  let ?n = "unat (m AND FRAGMENT_SIZE_MASK)"
  from 1(2) m have lim: "\<not> saturating_add (length out) ?n > lim k"
    by (subst (asm) read_record_loop.simps) (auto simp: Let_def split: if_splits)
  from 1(2) m lim obtain out2 r2 where o2: "read_exact_into_buf out ?n r1 = (Ok out2, r2)"
    by (subst (asm) read_record_loop.simps)
      (auto simp: Let_def split: if_splits prod.splits outcome.splits)
  have len2: "length out2 = length out + ?n"
    using o2 read_fill_len [of "length out + ?n" out r1]
    by (auto simp: read_exact_into_buf_def checked_add_def split: if_splits)
  show ?case
  proof (cases "m AND LAST_FRAGMENT = 0")
    case True
    then have "read_record_loop lim k out r = read_record_loop lim (k + 1) out2 r2"
      using m lim o2 by (subst read_record_loop.simps) (simp add: Let_def)
    then show ?thesis using 1 m lim o2 True by (auto simp: Let_def)
  next
    case False
    then have "res = out2" using 1(2) m lim o2
      by (subst (asm) read_record_loop.simps) (simp add: Let_def)
    moreover have "length out + ?n \<le> usize_max"
      using o2 by (auto simp: read_exact_into_buf_def checked_add_def split: if_splits)
    ultimately show ?thesis using lim len2 by (auto simp: saturating_add_exact not_less)
  qed
qed

subsection \<open>Replies\<close>

lemma safe_into_remaining [safe_intros]: "safe (\<lambda>dec. (Ok (into_remaining dec), []))"
  by (simp add: safe_def)

lemma safe_decode_reply_dec: "safe (decode_reply_dec xid)"
  unfolding decode_reply_dec_def by (intro safe_intros)

lemma decode_reply_not_Panic: "decode_reply xid response \<noteq> Panic"
  using safe_decode_reply_dec [of xid] by (simp add: decode_reply_def safe_def)

lemma into_remaining_eq [simp]: "into_remaining d = d"
  by (simp add: into_remaining_def)

text \<open>The accepted reply of RFC 5531: xid, message type, status, verifier, accept status, results.\<close>

definition accepted_reply :: "u32 \<Rightarrow> u32 \<Rightarrow> bytes \<Rightarrow> bytes \<Rightarrow> bytes" where
  "accepted_reply xid flavor verf results =
     be_bytes 4 xid @ be_bytes 4 REPLY @ be_bytes 4 MSG_ACCEPTED @ be_bytes 4 flavor @
     opaque_wire verf @ be_bytes 4 SUCCESS @ results"

lemma decode_reply_accepted:
  assumes "length verf \<le> u32_max"
  shows "decode_reply xid (accepted_reply xid flavor verf results) = Ok results"
proof -
  have fit: "length verf + xdr_padding (length verf) + 4 \<le> usize_max"
    using assms xdr_padding_less [of "length verf"] by (simp add: u32_max_def usize_max_def)
  have "read_u32_skip_opaque_and_read_u32
          (be_bytes 4 flavor @ opaque_wire verf @ be_bytes 4 SUCCESS @ results) =
        (Ok (flavor, SUCCESS), results)"
    using assms fit
    by (simp add: read_u32_skip_opaque_and_read_u32_def and_then_def read_u32_pair_eq opaque_wire_def
        unat_of_nat_u32 opaque_padded_len_exact checked_add_def require_def buf_advance_def
        after_require_run add.commute)
  then show ?thesis
    by (simp add: decode_reply_def decode_reply_dec_def accepted_reply_def and_then_def
        read_u32_triple_eq)
qed

lemma decode_reply_Ok_xid:
  assumes "decode_reply xid response = Ok results"
  shows "peek_xid response = Ok xid" and "suffix results response"
proof -
  from assms have len: "12 \<le> length response" and x: "of_be (take 4 response) = xid"
    by (auto simp: decode_reply_def decode_reply_dec_def and_then_def read_u32_triple_eq
        split: if_splits)
  have "take 4 response = [response ! 0, response ! 1, response ! 2, response ! 3]"
    using len by (intro nth_equalityI) (auto simp: less_Suc_eq numeral_eq_Suc)
  then show "peek_xid response = Ok xid" using len x by (simp add: peek_xid_def)
  show "suffix results response" using assms
    using safe_suffix [OF safe_read_u32_skip_opaque_and_read_u32, of "drop 12 response"]
    by (auto simp: decode_reply_def decode_reply_dec_def and_then_def read_u32_triple_eq
        split: if_splits prod.splits outcome.splits intro: suffix_order.order_trans)
qed

subsection \<open>Transaction ids\<close>

lemma next_xid_nonzero: "fst (next_xid c) \<noteq> 0"
  by (auto simp: next_xid_def Let_def)

lemma next_xid_changes: "fst (next_xid c) \<noteq> c \<and> snd (next_xid c) = fst (next_xid c)"
  by (auto simp: next_xid_def Let_def)

subsection \<open>Header layout\<close>

lemma concat_concat_map: "concat (concat (map f xs)) = concat (map (\<lambda>x. concat (f x)) xs)"
  by (induction xs) simp_all

lemma encode_body_length:
  assumes "auth_validate a = Ok ()"
  obtains body where "encode_body stamp a = Ok body" "encoded_body_len a = Ok (length body)" "length body \<le> 400"
proof -
  note v = assms [unfolded auth_validate_Ok]
  show ?thesis
    using v by (intro that [OF encode_body_Ok [OF assms]]) (simp_all add: encoded_body_len_eq)
qed

lemma xdr_padding_word [simp]: "xdr_padding (Suc (Suc (Suc (Suc 0)))) = 0" "xdr_padding 0 = 0"
  by code_simp+

lemma call_header_layout:
  "encode_call_header_from_template
     (put_header_u32_at (put_header_u32_at (put_header_u32_at (put_header_u32_at (replicate 32 0) 4 a) 8 b) 24 c) 28 d)
     xid prog vers proc =
   concat (map (be_bytes 4) [xid, a, b, prog, vers, proc, c, d])"
  by (simp add: encode_call_header_from_template_def put_header_u32_at_def be_bytes_4 Let_def numeral_eq_Suc)

subsection \<open>Properties\<close>

text \<open>
  C6. However the network cuts a record into fragments and the fragments into reads, reading it
  gives its content back and leaves the stream at the next record, as long as the content is
  within every limit that is loaded on the way.
\<close>

theorem read_record_reassembles:
  assumes "frags \<noteq> []" and "\<And>f. f \<in> set frags \<Longrightarrow> length f < 2 ^ 31"
    and "chunks_wf r" and "concat r = frame frags @ rest"
    and "\<And>i. length (concat frags) \<le> lim i" and "\<And>i. lim i \<le> usize_max"
  shows "\<exists>r'. read_record lim r = (Ok (concat frags), r') \<and> chunks_wf r' \<and> concat r' = rest"
  using read_record_loop_frame [of frags r rest "[]" lim 0] assms by (auto simp: read_record_def)

theorem read_record_reassembles_witness:
  "\<exists>r'. read_record (\<lambda>_. 10) [[0, 0], [0, 1, 5, 128], [0, 0, 2, 6, 7, 9]] = (Ok [5, 6, 7], r') \<and> concat r' = [9]"
proof -
  have "concat [[0, 0], [0, 1, 5, 128], [0, 0, 2, 6, 7, 9]] = frame [[5], [6, 7]] @ [9 :: u8]"
    by code_simp
  moreover have "length f < 2 ^ 31" if "f \<in> set [[5], [6, 7 :: u8]]" for f using that by auto
  ultimately show ?thesis
    using read_record_reassembles [of "[[5], [6, 7]]" "[[0, 0], [0, 1, 5, 128], [0, 0, 2, 6, 7, 9]]" "[9]" "\<lambda>_. 10"]
    by (auto simp: chunks_wf_def usize_max_def)
qed

text \<open>
  No record longer than the limit is ever buffered: a record that is returned was within one
  of the limits loaded while it was read.
\<close>

lemma read_record_bounded:
  assumes "read_record lim r = (Ok out, r')" and "\<And>i. lim i \<le> usize_max"
  shows "\<exists>i. length out \<le> lim i"
  using assms by (auto simp: read_record_def intro: read_record_loop_limit)

text \<open>
  C25. What the writer sends, a reader of the same framing gets back: if a batch of at most 32
  calls, the most the write loop collects, is written without an error, however the socket splits the writes, the stream holds one
  single-fragment record per call, in order, and reading the first of them from any chunking of
  that stream yields the call with its header, credential, verifier and padded arguments.
\<close>

theorem written_batch_is_framed:
  assumes "client_auth_wf rpc" and "\<And>c. c \<in> set calls \<Longrightarrow> payload_wf (snd c)"
    and "write_record_batch accepts
           (map (\<lambda>(xid, p). encode_call rpc xid prog vers proc p) calls)
           (auth_body rpc) (auth_padding_len rpc) = (Ok (), sent)"
    and "length calls \<le> MAX_WRITE_BATCH_RECORDS"
  shows "sent = concat (map (\<lambda>(xid, p). frame [call_body rpc xid prog vers proc (concat (segments p))]) calls)
    \<and> (\<forall>xid p rest. calls = (xid, p) # rest \<longrightarrow>
        (\<exists>r'. read_record (\<lambda>_. usize_max) [sent] =
          (Ok (call_body rpc xid prog vers proc (concat (segments p))), r')))"
proof -
  let ?req = "\<lambda>(xid, p). encode_call rpc xid prog vers proc p"
  let ?body = "\<lambda>(xid, p). call_body rpc xid prog vers proc (concat (segments p))"
  have small: "record_len (?req c) < 2 ^ 31" if "c \<in> set calls" for c
    using assms(3) that assms(4) by (force simp: write_record_batch_def list_ex_iff split: if_splits)
  have sent: "sent = concat (concat (map (record_slices (auth_body rpc) (auth_padding_len rpc)) (map ?req calls)))"
    using assms(3,4) by (auto simp: write_record_batch_def Let_def dest!: write_vectored_loop_sent split: if_splits)
  have one: "concat (record_slices (auth_body rpc) (auth_padding_len rpc) (?req c)) = frame [?body c] \<and>
      length (?body c) < 2 ^ 31" if c: "c \<in> set calls" for c
  proof -
    obtain xid p where p: "c = (xid, p)" by fastforce
    have wf: "payload_wf p" "payload_len p = length (concat (segments p))"
      using assms(2) [OF c] p by (simp_all add: payload_wf_def)
    have len: "encoded_call_len rpc (length (concat (segments p))) < 2 ^ 31"
      using small [OF c] p wf by (simp add: encode_call_def)
    then have "length (call_body rpc xid prog vers proc (concat (segments p))) =
        encoded_call_len rpc (length (concat (segments p)))"
      by (intro length_call_body assms(1)) (simp add: usize_max_def)
    then show ?thesis
      using record_slices_encode_call [OF assms(1) wf(1), of xid prog vers proc] p len wf(2) by simp
  qed
  have frames: "sent = concat (map (\<lambda>c. frame [?body c]) calls)"
    unfolding sent using one by (simp add: concat_concat_map comp_def del: frame.simps cong: map_cong)
  have "\<exists>r'. read_record (\<lambda>_. usize_max) [sent] = (Ok (?body (xid, p)), r')"
    if calls: "calls = (xid, p) # rest" for xid p rest
  proof -
    have small: "length (?body (xid, p)) < 2 ^ 31" using one [of "(xid, p)"] calls by simp
    have "sent = frame [?body (xid, p)] @ concat (map (\<lambda>c. frame [?body c]) rest)"
      using frames calls by (simp del: frame.simps)
    moreover from this have "chunks_wf [sent]" by (simp add: chunks_wf_def be_bytes_4)
    ultimately have "\<exists>r'. read_record_loop (\<lambda>_. usize_max) 0 [] [sent] = (Ok ([] @ concat [?body (xid, p)]), r') \<and>
        chunks_wf r' \<and> concat r' = concat (map (\<lambda>c. frame [?body c]) rest)"
      using small by (intro read_record_loop_frame) (simp_all add: usize_max_def)
    then show ?thesis by (auto simp: read_record_def)
  qed
  then show ?thesis using frames by (simp add: case_prod_beta')
qed

theorem written_batch_is_framed_witness:
  "\<exists>sent. write_record_batch (replicate 60 1)
      [encode_call \<lparr> auth_body = [], auth_padding_len = 0, call_header_template = replicate 32 0 \<rparr>
         7 100003 4 1 (payload_from_bytes [1, 2, 3, 4])] [] 0 = (Ok (), sent) \<and>
     sent = frame [call_body \<lparr> auth_body = [], auth_padding_len = 0, call_header_template = replicate 32 0 \<rparr>
         7 100003 4 1 [1, 2, 3, 4]]"
proof -
  let ?rpc = "\<lparr> auth_body = [], auth_padding_len = 0, call_header_template = replicate 32 0 \<rparr>"
  let ?p = "payload_from_bytes [1, 2, 3, 4]"
  let ?req = "encode_call ?rpc 7 100003 4 1 ?p"
  have wf: "client_auth_wf ?rpc" "payload_wf ?p"
    by (simp_all add: client_auth_wf_def xdr_padding_def payload_from_bytes_wf)
  have len: "record_len ?req = 44"
    by (simp add: encode_call_def encoded_call_len_eq payload_from_bytes_def usize_max_def)
  have c: "concat (record_slices [] 0 ?req) = be_bytes 4 (LAST_FRAGMENT OR of_nat 44 :: u32) @ call_body ?rpc 7 100003 4 1 [1, 2, 3, 4]"
    using record_slices_encode_call [OF wf, of 7 100003 4 1] len
    by (simp add: encode_call_def payload_from_bytes_def)
  have "length (call_body ?rpc 7 100003 4 1 [1, 2, 3, 4]) = 44"
    by (simp add: call_body_def pad_def)
  then have "write_vectored_loop (replicate 60 1) (record_slices [] 0 ?req) [] =
      (Ok (), [] @ concat (record_slices [] 0 ?req))"
    by (intro write_vectored_loop_complete) (auto simp: c)
  then have w: "write_record_batch (replicate 60 1) [?req] [] 0 = (Ok (), concat (record_slices [] 0 ?req))"
    using len by (simp add: write_record_batch_def)
  then show ?thesis
    using written_batch_is_framed [of ?rpc "[(7, ?p)]" "replicate 60 1" 100003 4 1] wf
    by (simp add: payload_from_bytes_def)
qed

text \<open>
  C30. Decoding a reply header returns the results of an accepted reply to this call, never panics,
  and accepts no reply that carries another transaction id.
\<close>

theorem decode_reply_correct:
  "(length verf \<le> u32_max \<longrightarrow> decode_reply xid (accepted_reply xid flavor verf results) = Ok results) \<and>
   decode_reply xid response \<noteq> Panic \<and>
   (decode_reply xid response = Ok body \<longrightarrow> peek_xid response = Ok xid \<and> suffix body response)"
  using decode_reply_accepted [of verf xid flavor results] decode_reply_not_Panic [of xid response]
    decode_reply_Ok_xid [of xid response body] by simp

theorem decode_reply_correct_witness:
  "decode_reply 7 (accepted_reply 7 0 [] [1, 2, 3, 4]) = Ok [1, 2, 3, 4] \<and>
   peek_xid (accepted_reply 7 0 [] [1, 2, 3, 4]) = Ok 7"
  using decode_reply_correct [of "[]" 7 0 "[1, 2, 3, 4]" "accepted_reply 7 0 [] [1, 2, 3, 4]" "[1, 2, 3, 4]"]
  by simp

text \<open>
  Credentials that pass validation encode without an error or a panic to a body of exactly the
  computed length, at most 400 bytes, and give a client whose call header has the fixed layout.
\<close>

lemma auth_sys_encoding:
  assumes "auth_validate a = Ok ()"
  shows "\<exists>body rpc. encode_body stamp a = Ok body \<and> encoded_body_len a = Ok (length body) \<and>
    length body \<le> 400 \<and> rpc_client_auth stamp a = Ok rpc \<and> client_auth_wf rpc \<and>
    encode_call_header_from_template (call_header_template rpc) xid prog vers proc =
      concat (map (be_bytes 4) [xid, CALL, RPC_VERSION, prog, vers, proc, AUTH_SYS, of_nat (length body)])"
proof -
  obtain body where b: "encode_body stamp a = Ok body" "encoded_body_len a = Ok (length body)" "length body \<le> 400"
    by (rule encode_body_length [OF assms])
  then obtain rpc where rpc: "rpc_client_auth stamp a = Ok rpc"
    by (simp add: rpc_client_auth_def rpc_call_header_template_def Let_def u32_max_def)
  then have "rpc_call_header_template (length body) = Ok (call_header_template rpc)"
    using b by (auto simp: rpc_client_auth_def then_outcome_Ok)
  then have "encode_call_header_from_template (call_header_template rpc) xid prog vers proc =
      concat (map (be_bytes 4) [xid, CALL, RPC_VERSION, prog, vers, proc, AUTH_SYS, of_nat (length body)])"
    using b call_header_layout [of CALL RPC_VERSION AUTH_SYS "of_nat (length body)" xid prog vers proc]
    by (auto simp: rpc_call_header_template_def u32_max_def Let_def simp del: list.map concat.simps)
  then show ?thesis using b rpc rpc_client_auth_wf [OF rpc] by blast
qed

end
