(* ===== verification/Compound.thy ===== *)
theory Compound
  imports Nfs_Ops Rpc_Wire
begin

text \<open>
  Building a COMPOUND request (the encoding half of \<open>src/nfs4/codec.rs\<close> and the operation lists of
  \<open>src/nfs4.rs\<close>): the contiguous encoder, the scatter-gather encoder that leaves the data of a
  WRITE in place, the request limits, and what a decode error says about the operations that
  already ran.
\<close>

unbundle bit_operations_syntax

subsection \<open>Encoding\<close>

definition sequence_op_encoded_len :: usize where
  "sequence_op_encoded_len = saturating_encoded_len [4, xdr_fixed_opaque_len 16, 4, 4, 4, 4]"

definition encode_sequence_op :: "SequenceArgs \<Rightarrow> XdrEncoder \<Rightarrow> XdrEncoder option" where
  "encode_sequence_op sequence enc = do {
     enc \<leftarrow> put_u32 (op_u32 OpCode.Sequence) enc;
     enc \<leftarrow> put_bytes (sessionid sequence) enc;
     enc \<leftarrow> put_u32 (sequenceid sequence) enc;
     enc \<leftarrow> put_u32 (slotid sequence) enc;
     enc \<leftarrow> put_u32 (highest_slotid sequence) enc;
     put_bool (cachethis sequence) enc
   }"

definition encode_compound_inner ::
  "string \<Rightarrow> SequenceArgs option \<Rightarrow> NfsOp list \<Rightarrow> bytes option" where
  "encode_compound_inner tag sequence ops = do {
     let op_count = (case sequence of
           Some _ \<Rightarrow> saturating_add (length ops) 1
         | None \<Rightarrow> length ops);
     enc \<leftarrow> put_string tag [];
     enc \<leftarrow> put_u32 NFS_MINOR_VERSION enc;
     enc \<leftarrow> put_u32 (of_nat op_count) enc;
     enc \<leftarrow> (case sequence of
           Some sequence \<Rightarrow> encode_sequence_op sequence enc
         | None \<Rightarrow> Some enc);
     put_all op_encode ops enc
   }"

definition encode_compound :: "string \<Rightarrow> NfsOp list \<Rightarrow> bytes option" where
  "encode_compound tag ops = encode_compound_inner tag None ops"

text \<open>
  The loop of \<open>encode_compound_with_sequence\<close>: its state is the segments pushed so far and the
  encoder of the current segment. Unlike \<open>put_opaque\<close>, it writes the data length with an
  unchecked cast.
\<close>

fun segment_loop :: "NfsOp list \<Rightarrow> bytes list \<Rightarrow> XdrEncoder \<Rightarrow> (bytes list \<times> XdrEncoder) option" where
  "segment_loop [] segs enc = Some (segs, enc)"
| "segment_loop (NfsOp.Write stateid offset data # ops) segs enc = do {
     enc \<leftarrow> put_u32 (op_u32 OpCode.Write) enc;
     enc \<leftarrow> stateid_encode stateid enc;
     enc \<leftarrow> put_u64 offset enc;
     enc \<leftarrow> put_u32 UNSTABLE4 enc;
     enc \<leftarrow> put_u32 (of_nat (length data)) enc;
     next_enc \<leftarrow> put_bytes (take (xdr_padding (length data)) [0, 0, 0]) [];
     segment_loop ops (segs @ [enc, data]) next_enc
   }"
| "segment_loop (op # ops) segs enc = do {
     enc \<leftarrow> op_encode op enc;
     segment_loop ops segs enc
   }"

definition encode_compound_with_sequence ::
  "string \<Rightarrow> SequenceArgs \<Rightarrow> NfsOp list \<Rightarrow> RpcPayload option" where
  "encode_compound_with_sequence tag sequence ops = do {
     enc \<leftarrow> put_string tag [];
     enc \<leftarrow> put_u32 NFS_MINOR_VERSION enc;
     enc \<leftarrow> put_u32 (of_nat (saturating_add (length ops) 1)) enc;
     enc \<leftarrow> encode_sequence_op sequence enc;
     (segs, enc) \<leftarrow> segment_loop ops [] enc;
     Some (payload_from_segments (segs @ [enc]))
   }"

subsection \<open>Lengths and limits\<close>

definition compound_encoded_len :: "string \<Rightarrow> NfsOp list \<Rightarrow> usize" where
  "compound_encoded_len tag ops =
    foldl (\<lambda>total op. saturating_add total (op_encoded_len op))
      (saturating_encoded_len [xdr_string_len tag, 4, 4]) ops"

definition compound_with_sequence_encoded_len :: "string \<Rightarrow> NfsOp list \<Rightarrow> usize" where
  "compound_with_sequence_encoded_len tag ops =
    saturating_add (compound_encoded_len tag ops) sequence_op_encoded_len"

definition write_data_len :: "NfsOp list \<Rightarrow> usize" where
  "write_data_len ops = foldl (\<lambda>total op. case op of
     NfsOp.Write _ _ data \<Rightarrow> saturating_add total (length data) | _ \<Rightarrow> total) 0 ops"

definition validate_compound_request_limits ::
  "NfsOp list \<Rightarrow> u32 \<Rightarrow> u32 \<Rightarrow> usize \<Rightarrow> unit result" where
  "validate_compound_request_limits ops max_ops max_size call_len =
    (let operation_count = saturating_add (length ops) 1 in
     if operation_count > unat max_ops
     then Err (Protocol ''{tag} compound has {operation_count} operations, exceeding negotiated limit {max_compound_ops}'')
     else if call_len > unat max_size
     then Err (Protocol ''{tag} RPC request is {encoded_call_len} bytes, exceeding negotiated request limit {max_request_size}'')
     else Ok ())"

subsection \<open>Operation lists\<close>

definition root_path_ops :: "string list \<Rightarrow> NfsOp list" where
  "root_path_ops components = NfsOp.PutRootFh # map NfsOp.Lookup components"

definition extend_export_path_ops :: "NfsOp list \<Rightarrow> FileHandle \<Rightarrow> string list \<Rightarrow> NfsOp list" where
  "extend_export_path_ops ops export_root components =
     ops @ NfsOp.PutFh export_root # map NfsOp.Lookup components"

definition export_path_ops :: "FileHandle \<Rightarrow> string list \<Rightarrow> NfsOp list" where
  "export_path_ops export_root components = extend_export_path_ops [] export_root components"

definition commit_count :: "u64 \<Rightarrow> u32" where
  "commit_count bytes = (if unat bytes \<le> u32_max then ucast bytes else 0)"

definition write_and_commit_ops :: "OpenedFile \<Rightarrow> u64 \<Rightarrow> bytes \<Rightarrow> NfsOp list" where
  "write_and_commit_ops opened offset data =
    (let count = commit_count (of_nat (length data)) in
     [NfsOp.PutFh (fh opened),
      NfsOp.Write (opened_stateid opened) offset data,
      NfsOp.Commit offset count])"

definition bounded_readdir_counts :: "NfsConfig \<Rightarrow> usize option \<Rightarrow> u32 \<times> u32" where
  "bounded_readdir_counts config max_entries_hint =
    (let hinted_maxcount = (case max_entries_hint of
           Some entries \<Rightarrow>
             of_nat (min (max (saturating_mul entries READDIR_ENTRY_BYTE_HINT)
                              (unat READDIR_MIN_HINT_BYTES)) u32_max)
         | None \<Rightarrow> readdir_maxcount config);
         maxcount = max (min (readdir_maxcount config) hinted_maxcount) 1;
         dircount = max (min (readdir_dircount config) maxcount) 1
     in (dircount, maxcount))"

definition readdir_op :: "NfsConfig \<Rightarrow> u64 \<Rightarrow> bytes \<Rightarrow> usize option \<Rightarrow> NfsOp" where
  "readdir_op config cookie verifier max_entries_hint =
    (let (dircount, maxcount) = bounded_readdir_counts config max_entries_hint
     in NfsOp.ReadDir cookie verifier dircount maxcount bitmap_empty)"

subsection \<open>Channel negotiation\<close>

record ChannelAttrs =
  ca_max_request_size :: u32
  ca_max_response_size :: u32
  maxoperations :: u32
  maxrequests :: u32

definition u32_saturating_sub :: "u32 \<Rightarrow> u32 \<Rightarrow> u32" where
  "u32_saturating_sub a b = (if b \<le> a then a - b else 0)"

definition channel_payload_size :: "u32 \<Rightarrow> u32" where
  "channel_payload_size channel_size = max (u32_saturating_sub channel_size CHANNEL_PAYLOAD_RESERVE) 1"

definition negotiated_config :: "NfsConfig \<Rightarrow> ChannelAttrs \<Rightarrow> NfsConfig" where
  "negotiated_config config fore_attrs =
    (let config = config\<lparr> max_request_size := min (max_request_size config) (ca_max_request_size fore_attrs) \<rparr>;
         config = config\<lparr> max_response_size := min (max_response_size config) (ca_max_response_size fore_attrs) \<rparr>;
         max_request_payload = channel_payload_size (max_request_size config);
         max_response_payload = channel_payload_size (max_response_size config);
         config = config\<lparr> write_chunk_size := min (write_chunk_size config) max_request_payload \<rparr>;
         config = config\<lparr> read_chunk_size := min (read_chunk_size config) max_response_payload \<rparr>;
         config = config\<lparr> read_granularity := min (read_granularity config) (read_chunk_size config) \<rparr>;
         config = config\<lparr> readdir_maxcount := min (readdir_maxcount config) max_response_payload \<rparr>;
         config = config\<lparr> readdir_dircount := max (min (readdir_dircount config) (readdir_maxcount config)) 1 \<rparr>
     in config\<lparr> max_compound_ops := maxoperations fore_attrs \<rparr>)"

subsection \<open>Decode errors and replay\<close>

record CompoundDecodeError =
  err_status :: "u32 option"
  reply_index :: "usize option"
  err_error :: Error

definition cde_nfs :: "u32 \<Rightarrow> OpCode \<Rightarrow> CompoundDecodeError" where
  "cde_nfs status op = \<lparr> err_status = Some status, reply_index = None, err_error = nfs_error status op \<rparr>"

definition at_reply :: "usize \<Rightarrow> CompoundDecodeError \<Rightarrow> CompoundDecodeError" where
  "at_reply i e = (case reply_index e of None \<Rightarrow> e\<lparr> reply_index := Some i \<rparr> | Some _ \<Rightarrow> e)"

definition transient_status :: "CompoundDecodeError \<Rightarrow> u32 option" where
  "transient_status e = (case err_status e of
     Some status \<Rightarrow> if status = status_DELAY \<or> status = status_GRACE then Some status else None
   | None \<Rightarrow> None)"

definition completed_user_ops :: "CompoundDecodeError \<Rightarrow> usize" where
  "completed_user_ops e = saturating_sub (case reply_index e of Some i \<Rightarrow> i | None \<Rightarrow> 0) 1"

definition completed_operation :: "CompoundDecodeError \<Rightarrow> NfsOp list \<Rightarrow> OpCode \<Rightarrow> bool" where
  "completed_operation e ops op \<longleftrightarrow>
     list_ex (\<lambda>candidate. opcode candidate = op) (take (completed_user_ops e) ops)"

definition cde_from :: "Error \<Rightarrow> CompoundDecodeError" where
  "cde_from e = \<lparr> err_status = None, reply_index = None, err_error = e \<rparr>"

definition not_replayable :: "NfsOp \<Rightarrow> bool" where
  "not_replayable op = (case op of
     NfsOp.Open _ _ _ _ _ \<Rightarrow> True
   | NfsOp.Close _ _ \<Rightarrow> True
   | NfsOp.Link _ \<Rightarrow> True
   | NfsOp.Rename _ _ \<Rightarrow> True
   | _ \<Rightarrow> False)"

definition transient_compound_retry_is_safe :: "NfsOp list \<Rightarrow> CompoundDecodeError \<Rightarrow> bool" where
  "transient_compound_retry_is_safe ops err = (case reply_index err of
     None \<Rightarrow> False
   | Some failed_reply \<Rightarrow>
       \<not> list_ex not_replayable (take (saturating_sub failed_reply 1) ops))"

subsection \<open>Encoding facts\<close>

lemma put_all_append:
  "put_all op_encode ops enc = map_option (\<lambda>bs. enc @ bs) (put_all op_encode ops [])"
proof (induction ops arbitrary: enc)
  case (Cons op ops)
  show ?case
  proof (cases "op_encode op []")
    case None
    then show ?thesis by (simp add: op_encode_append [of op enc])
  next
    case (Some bs)
    then show ?thesis
      by (simp add: op_encode_append [of op enc] Cons [of bs] Cons [of "enc @ bs"] option.map_comp o_def)
  qed
qed simp

lemma put_all_op_length:
  assumes "\<And>op. op \<in> set ops \<Longrightarrow> op_wf op" and "put_all op_encode ops enc = Some enc'"
  shows "length enc' = length enc + sum_list (map op_encoded_len ops)"
  using assms
proof (induction ops arbitrary: enc)
  case (Cons op ops)
  then obtain e1 where e1: "op_encode op enc = Some e1" "put_all op_encode ops e1 = Some enc'"
    by (auto split: Option.bind_splits)
  then show ?case using Cons op_encode_length [of op enc e1] by simp
qed simp

definition sequence_wire :: "SequenceArgs \<Rightarrow> bytes" where
  "sequence_wire s = be_bytes 4 (op_u32 OpCode.Sequence) @ sessionid s @ be_bytes 4 (sequenceid s) @
     be_bytes 4 (slotid s) @ be_bytes 4 (highest_slotid s) @ be_bytes 4 (of_bool (cachethis s) :: u32)"

lemma encode_sequence_op_eq [simp]: "encode_sequence_op s enc = Some (enc @ sequence_wire s)"
  by (simp add: encode_sequence_op_def sequence_wire_def)

lemma sequence_op_encoded_len_val [simp]: "sequence_op_encoded_len = 36"
  by (simp add: sequence_op_encoded_len_def saturating_encoded_len_eq xdr_fixed_opaque_len_def
      saturating_add_def usize_max_def)

lemma length_sequence_wire [simp]: "length (sessionid s) = 16 \<Longrightarrow> length (sequence_wire s) = 36"
  by (simp add: sequence_wire_def)

lemma foldl_saturating_map:
  "foldl (\<lambda>total op. saturating_add total (f op)) a ops = foldl saturating_add a (map f ops)"
  by (induction ops arbitrary: a) simp_all

lemma min_min_add: "min (min (a :: nat) m + b) m = min (a + b) m"
  by (simp add: min_def)

lemma compound_with_sequence_encoded_len_eq:
  "compound_with_sequence_encoded_len tag ops =
     min (xdr_string_len tag + 44 + sum_list (map op_encoded_len ops)) usize_max"
proof -
  let ?S = "sum_list (map op_encoded_len ops)"
  have base: "saturating_encoded_len [xdr_string_len tag, 4, 4] = min (xdr_string_len tag + 8) usize_max"
    by (simp add: saturating_encoded_len_eq)
  have "compound_encoded_len tag ops = min (min (xdr_string_len tag + 8) usize_max + ?S) usize_max"
    unfolding compound_encoded_len_def foldl_saturating_map [of op_encoded_len] base by (rule foldl_saturating_add) simp
  also have "\<dots> = min (xdr_string_len tag + 8 + ?S) usize_max" by (rule min_min_add)
  finally have "compound_with_sequence_encoded_len tag ops =
      min (min (xdr_string_len tag + 8 + ?S) usize_max + 36) usize_max"
    by (simp only: compound_with_sequence_encoded_len_def saturating_add_def sequence_op_encoded_len_val)
  also have "\<dots> = min (xdr_string_len tag + 8 + ?S + 36) usize_max" by (rule min_min_add)
  also have "xdr_string_len tag + 8 + ?S + 36 = xdr_string_len tag + 44 + ?S" by simp
  finally show ?thesis .
qed

text \<open>
  The segments of the scatter-gather encoder are the contiguous encoding, cut at the data of
  each WRITE.
\<close>

lemma op_encode_append2: "op_encode op (a @ enc) = map_option (\<lambda>bs. a @ bs) (op_encode op enc)"
  by (simp add: op_encode_append [of op "a @ enc"] op_encode_append [of op enc] option.map_comp o_def)

lemma segment_loop_other:
  "(\<And>st off d. op \<noteq> NfsOp.Write st off d) \<Longrightarrow>
     segment_loop (op # ops) segs enc = Option.bind (op_encode op enc) (segment_loop ops segs)"
  by (cases op) auto

lemma segment_loop_concat:
  assumes "put_all op_encode ops (concat segs @ enc) = Some bs"
  shows "\<exists>segs' enc'. segment_loop ops segs enc = Some (segs', enc') \<and> concat segs' @ enc' = bs"
  using assms
proof (induction ops arbitrary: segs enc)
  case (Cons op ops)
  show ?case
  proof (cases "\<exists>st off d. op = NfsOp.Write st off d")
    case True
    then obtain st off data where op: "op = NfsOp.Write st off data" by blast
    have len: "length data \<le> u32_max" using Cons(2) op by (auto simp: put_opaque_eq split: if_splits)
    let ?enc = "enc @ be_bytes 4 (op_u32 OpCode.Write) @ be_bytes 4 (seqid st) @ other st @
      be_bytes 8 off @ be_bytes 4 (UNSTABLE4 :: u32) @ be_bytes 4 (of_nat (length data) :: u32)"
    have "put_all op_encode ops (concat (segs @ [?enc, data]) @ pad (length data)) = Some bs"
      using Cons(2) op len by (simp add: put_opaque_eq opaque_wire_def)
    from Cons.IH [OF this] show ?thesis by (simp add: op take_ZERO_PADDING)
  next
    case False
    then have step: "segment_loop (op # ops) segs enc = Option.bind (op_encode op enc) (segment_loop ops segs)"
      by (intro segment_loop_other) blast
    obtain e1 where "op_encode op enc = Some e1" "put_all op_encode ops (concat segs @ e1) = Some bs"
      using Cons(2) by (auto simp: op_encode_append2 split: Option.bind_splits)
    then show ?thesis using Cons.IH [of segs e1] step by simp
  qed
qed simp

lemma length_put_string:
  "put_string tag [] = Some bs \<Longrightarrow> length bs = xdr_string_len tag"
  by (auto simp: put_string_eq xdr_string_len_def length_opaque_wire_len simp del: length_opaque_wire
      split: if_splits)

lemma scatter_gather_segments:
  assumes "encode_compound_inner tag (Some sequence) ops = Some bs"
  shows "\<exists>p. encode_compound_with_sequence tag sequence ops = Some p \<and> concat (segments p) = bs"
proof -
  from assms obtain t where t: "put_string tag [] = Some t"
    by (auto simp: encode_compound_inner_def Let_def split: Option.bind_splits)
  let ?enc = "t @ be_bytes 4 (NFS_MINOR_VERSION :: u32) @
    be_bytes 4 (of_nat (saturating_add (length ops) 1) :: u32) @ sequence_wire sequence"
  have "put_all op_encode ops (concat [] @ ?enc) = Some bs"
    using assms t by (simp add: encode_compound_inner_def Let_def)
  from segment_loop_concat [OF this] obtain segs enc where
    "segment_loop ops [] ?enc = Some (segs, enc)" "concat segs @ enc = bs" by blast
  then show ?thesis using t
    by (auto simp: encode_compound_with_sequence_def payload_from_segments_eq)
qed

lemma compound_inner_length:
  assumes "encode_compound_inner tag (Some sequence) ops = Some bs"
    and "\<And>op. op \<in> set ops \<Longrightarrow> op_wf op" and "length (sessionid sequence) = 16"
  shows "length bs = xdr_string_len tag + 44 + sum_list (map op_encoded_len ops)"
proof -
  from assms(1) obtain t where t: "put_string tag [] = Some t"
    by (auto simp: encode_compound_inner_def Let_def split: Option.bind_splits)
  have "put_all op_encode ops (t @ be_bytes 4 (NFS_MINOR_VERSION :: u32) @
      be_bytes 4 (of_nat (saturating_add (length ops) 1) :: u32) @ sequence_wire sequence) = Some bs"
    using assms(1) t by (simp add: encode_compound_inner_def Let_def)
  then show ?thesis
    using put_all_op_length [OF assms(2)] length_put_string [OF t] assms(3) by simp
qed

lemma compound_payload_len:
  "encode_compound_with_sequence tag sequence ops = Some p \<Longrightarrow>
     payload_len p = min (length (concat (segments p))) usize_max"
  by (auto simp: encode_compound_with_sequence_def payload_from_segments_eq split: Option.bind_splits)

subsection \<open>Properties\<close>

text \<open>
  C7. The zero-copy request is the contiguous one: whenever the contiguous encoder succeeds, the
  segments of the scatter-gather encoder, put together, are exactly its bytes, and the payload
  length it records is their number.
\<close>

theorem scatter_gather_equivalent:
  assumes "encode_compound_inner tag (Some sequence) ops = Some bs" and "length bs \<le> usize_max"
  shows "\<exists>p. encode_compound_with_sequence tag sequence ops = Some p \<and> concat (segments p) = bs \<and>
    payload_len p = length bs"
  using scatter_gather_segments [OF assms(1)] compound_payload_len assms(2) by fastforce

theorem scatter_gather_equivalent_witness:
  "\<exists>bs p. encode_compound_inner ''t'' (Some \<lparr> sessionid = replicate 16 0, sequenceid = 1, slotid = 0,
        highest_slotid = 0, cachethis = False \<rparr>) [NfsOp.Write stateid_anonymous 0 [1, 2, 3]] = Some bs \<and>
     encode_compound_with_sequence ''t'' \<lparr> sessionid = replicate 16 0, sequenceid = 1, slotid = 0,
        highest_slotid = 0, cachethis = False \<rparr> [NfsOp.Write stateid_anonymous 0 [1, 2, 3]] = Some p \<and>
     concat (segments p) = bs"
proof -
  let ?s = "\<lparr> sessionid = replicate 16 0, sequenceid = 1, slotid = 0, highest_slotid = 0, cachethis = False \<rparr>"
  obtain bs where bs: "encode_compound_inner ''t'' (Some ?s) [NfsOp.Write stateid_anonymous 0 [1, 2, 3]] = Some bs"
    by (simp add: encode_compound_inner_def put_string_eq put_opaque_eq u32_max_def)
  then have "length bs \<le> usize_max"
    by (auto simp: encode_compound_inner_def put_string_eq put_opaque_eq u32_max_def usize_max_def
        stateid_anonymous_def xdr_padding_mod)
  then show ?thesis using scatter_gather_equivalent [OF bs] bs by blast
qed

text \<open>
  C19. The length check before sending is exact: a request that passes it, built for well-formed
  operations, puts on the wire a record of exactly the checked length, which is at most the
  negotiated request size, and has at most the negotiated number of operations.
\<close>

theorem validated_request_fits:
  assumes "validate_compound_request_limits ops max_ops max_size
             (encoded_call_len rpc (compound_with_sequence_encoded_len tag ops)) = Ok ()"
    and "encode_compound_inner tag (Some sequence) ops = Some bs"
    and "\<And>op. op \<in> set ops \<Longrightarrow> op_wf op" and "length (sessionid sequence) = 16"
    and "client_auth_wf rpc"
  shows "\<exists>p. encode_compound_with_sequence tag sequence ops = Some p \<and>
    length (concat (record_slices (auth_body rpc) (auth_padding_len rpc)
      (encode_call rpc xid prog vers proc p))) \<le> 4 + unat max_size \<and>
    record_len (encode_call rpc xid prog vers proc p) \<le> unat max_size \<and>
    length ops + 1 \<le> unat max_ops"
proof -
  obtain p where p: "encode_compound_with_sequence tag sequence ops = Some p" "concat (segments p) = bs"
    using scatter_gather_segments [OF assms(2)] by blast
  have len: "length bs = xdr_string_len tag + 44 + sum_list (map op_encoded_len ops)"
    using compound_inner_length [OF assms(2-4)] .
  have call: "encoded_call_len rpc (compound_with_sequence_encoded_len tag ops) \<le> unat max_size"
      "saturating_add (length ops) 1 \<le> unat max_ops"
    using assms(1) by (auto simp: validate_compound_request_limits_def Let_def split: if_splits)
  have small: "unat max_size < usize_max" "unat max_ops < usize_max"
    using unat_le_u32_max [of max_size] unat_le_u32_max [of max_ops] u32_max_less_usize_max by linarith+
  have exact: "compound_with_sequence_encoded_len tag ops = length bs"
    using call(1) small(1) len
    by (auto simp: encoded_call_len_eq compound_with_sequence_encoded_len_eq min_def split: if_splits)
  have wf: "payload_wf p" "payload_len p = length bs"
    using p call(1) small(1) exact compound_payload_len [OF p(1)]
    by (auto simp: encoded_call_len_eq payload_wf_def min_def split: if_splits)
  have rec: "encoded_call_len rpc (length bs) \<le> unat max_size" using call(1) exact by simp
  then have "length (call_body rpc xid prog vers proc bs) = encoded_call_len rpc (length bs)"
    using small(1) by (intro length_call_body assms(5)) simp
  then show ?thesis
    using p wf rec call(2) small(2) record_slices_encode_call [OF assms(5) wf(1), of xid prog vers proc]
    by (auto simp: encode_call_def saturating_add_def min_def split: if_splits)
qed

theorem validated_request_fits_witness:
  "\<exists>p. encode_compound_with_sequence ''t'' \<lparr> sessionid = replicate 16 0, sequenceid = 1, slotid = 0,
        highest_slotid = 0, cachethis = False \<rparr> [NfsOp.GetFh] = Some p \<and>
    record_len (encode_call \<lparr> auth_body = [], auth_padding_len = 0, call_header_template = replicate 32 0 \<rparr>
      7 100003 4 1 p) \<le> 1000"
proof -
  let ?s = "\<lparr> sessionid = replicate 16 0, sequenceid = 1, slotid = 0, highest_slotid = 0, cachethis = False \<rparr>"
  let ?rpc = "\<lparr> auth_body = [], auth_padding_len = 0, call_header_template = replicate 32 0 \<rparr>"
  obtain bs where bs: "encode_compound_inner ''t'' (Some ?s) [NfsOp.GetFh] = Some bs"
    by (simp add: encode_compound_inner_def put_string_eq u32_max_def)
  have pad: "xdr_padding (Suc 0) = 3" by (simp add: xdr_padding_mod)
  have "compound_with_sequence_encoded_len ''t'' [NfsOp.GetFh] = 56"
    using pad by (simp add: compound_with_sequence_encoded_len_eq xdr_string_len_def xdr_opaque_len_exact
        u32_max_def op_encoded_len_def saturating_add_def usize_max_def)
  then have v: "validate_compound_request_limits [NfsOp.GetFh] 16 1000
      (encoded_call_len ?rpc (compound_with_sequence_encoded_len ''t'' [NfsOp.GetFh])) = Ok ()"
    by (simp add: validate_compound_request_limits_def encoded_call_len_eq saturating_add_def usize_max_def)
  have "client_auth_wf ?rpc" by (simp add: client_auth_wf_def)
  from validated_request_fits [OF v bs _ _ this, of 7 100003 4 1] show ?thesis by auto
qed

end
