(* ===== verification/Result_Decode.thy ===== *)
theory Result_Decode
  imports Compound
begin

text \<open>
  Decoding the result bodies of single operations (the second half of \<open>src/nfs4/codec.rs\<close>): the
  SEQUENCE result and its status flags, file handles, READ and WRITE results, OPEN results,
  file attributes with their fast paths, READDIR pages, and the session set-up results.
\<close>

unbundle bit_operations_syntax

subsection \<open>SEQUENCE\<close>

abbreviation (input) SEQ4_STATUS_CB_PATH_DOWN :: u32 where "SEQ4_STATUS_CB_PATH_DOWN \<equiv> 0x1"
abbreviation (input) SEQ4_STATUS_CB_GSS_CONTEXTS_EXPIRING :: u32 where
  "SEQ4_STATUS_CB_GSS_CONTEXTS_EXPIRING \<equiv> 0x2"
abbreviation (input) SEQ4_STATUS_CB_GSS_CONTEXTS_EXPIRED :: u32 where
  "SEQ4_STATUS_CB_GSS_CONTEXTS_EXPIRED \<equiv> 0x4"
abbreviation (input) SEQ4_STATUS_EXPIRED_ALL_STATE_REVOKED :: u32 where
  "SEQ4_STATUS_EXPIRED_ALL_STATE_REVOKED \<equiv> 0x8"
abbreviation (input) SEQ4_STATUS_EXPIRED_SOME_STATE_REVOKED :: u32 where
  "SEQ4_STATUS_EXPIRED_SOME_STATE_REVOKED \<equiv> 0x10"
abbreviation (input) SEQ4_STATUS_ADMIN_STATE_REVOKED :: u32 where
  "SEQ4_STATUS_ADMIN_STATE_REVOKED \<equiv> 0x20"
abbreviation (input) SEQ4_STATUS_RECALLABLE_STATE_REVOKED :: u32 where
  "SEQ4_STATUS_RECALLABLE_STATE_REVOKED \<equiv> 0x40"
abbreviation (input) SEQ4_STATUS_LEASE_MOVED :: u32 where "SEQ4_STATUS_LEASE_MOVED \<equiv> 0x80"
abbreviation (input) SEQ4_STATUS_RESTART_RECLAIM_NEEDED :: u32 where
  "SEQ4_STATUS_RESTART_RECLAIM_NEEDED \<equiv> 0x100"
abbreviation (input) SEQ4_STATUS_CB_PATH_DOWN_SESSION :: u32 where
  "SEQ4_STATUS_CB_PATH_DOWN_SESSION \<equiv> 0x200"
abbreviation (input) SEQ4_STATUS_BACKCHANNEL_FAULT :: u32 where
  "SEQ4_STATUS_BACKCHANNEL_FAULT \<equiv> 0x400"
abbreviation (input) SEQ4_STATUS_DEVID_CHANGED :: u32 where "SEQ4_STATUS_DEVID_CHANGED \<equiv> 0x800"
abbreviation (input) SEQ4_STATUS_DEVID_DELETED :: u32 where "SEQ4_STATUS_DEVID_DELETED \<equiv> 0x1000"

definition SEQ4_STATUS_KNOWN :: u32 where
  "SEQ4_STATUS_KNOWN =
     SEQ4_STATUS_CB_PATH_DOWN OR SEQ4_STATUS_CB_GSS_CONTEXTS_EXPIRING OR
     SEQ4_STATUS_CB_GSS_CONTEXTS_EXPIRED OR SEQ4_STATUS_EXPIRED_ALL_STATE_REVOKED OR
     SEQ4_STATUS_EXPIRED_SOME_STATE_REVOKED OR SEQ4_STATUS_ADMIN_STATE_REVOKED OR
     SEQ4_STATUS_RECALLABLE_STATE_REVOKED OR SEQ4_STATUS_LEASE_MOVED OR
     SEQ4_STATUS_RESTART_RECLAIM_NEEDED OR SEQ4_STATUS_CB_PATH_DOWN_SESSION OR
     SEQ4_STATUS_BACKCHANNEL_FAULT OR SEQ4_STATUS_DEVID_CHANGED OR SEQ4_STATUS_DEVID_DELETED"

definition SEQ4_STATUS_STATE_LOST :: u32 where
  "SEQ4_STATUS_STATE_LOST =
     SEQ4_STATUS_EXPIRED_ALL_STATE_REVOKED OR SEQ4_STATUS_EXPIRED_SOME_STATE_REVOKED OR
     SEQ4_STATUS_ADMIN_STATE_REVOKED OR SEQ4_STATUS_RECALLABLE_STATE_REVOKED"

record SequenceResult =
  seq_highest_slotid :: u32
  seq_target_highest_slotid :: u32
  seq_status_flags :: u32

definition decode_sequence_result_dec :: "bytes \<Rightarrow> u32 \<Rightarrow> u32 \<Rightarrow> SequenceResult decoder" where
  "decode_sequence_result_dec expected_sessionid expected_sequenceid expected_slotid =
    and_then read_u32_skip_opaque_and_read_u32 (\<lambda>(compound_status, reply_count).
    if reply_count = 0 then
      (if compound_status = status_OK
       then fail (Protocol ''successful compound response omitted its SEQUENCE result'')
       else fail (nfs_error compound_status OpCode.Sequence))
    else
    and_then read_u32_pair (\<lambda>(op, status).
    if op \<noteq> op_u32 OpCode.Sequence then
      and_then (lift (op_from_u32 op)) (\<lambda>returned.
        fail (Protocol ''compound response began with {returned:?}, expected SEQUENCE''))
    else if status \<noteq> status_OK then fail (nfs_error status OpCode.Sequence)
    else
    and_then (read_bytes 16) (\<lambda>session.
    and_then read_u32 (\<lambda>sequence.
    and_then read_u32 (\<lambda>slot.
    and_then read_u32 (\<lambda>highest.
    and_then read_u32 (\<lambda>target.
    and_then read_u32 (\<lambda>flags.
    if session \<noteq> expected_sessionid
    then fail (Protocol ''SEQUENCE response session ID mismatch'')
    else if sequence \<noteq> expected_sequenceid
    then fail (Protocol ''SEQUENCE response sequence ID {sequenceid} did not match request {expected_sequenceid}'')
    else if slot \<noteq> expected_slotid
    then fail (Protocol ''SEQUENCE response slot ID {slotid} did not match request {expected_slotid}'')
    else ok \<lparr> seq_highest_slotid = highest, seq_target_highest_slotid = target,
              seq_status_flags = flags \<rparr>))))))))"

definition decode_sequence_result :: "bytes \<Rightarrow> bytes \<Rightarrow> u32 \<Rightarrow> u32 \<Rightarrow> SequenceResult result" where
  "decode_sequence_result response expected_sessionid expected_sequenceid expected_slotid =
     fst (decode_sequence_result_dec expected_sessionid expected_sequenceid expected_slotid response)"

definition validate_sequence_status_flags :: "u32 \<Rightarrow> bool \<Rightarrow> unit result" where
  "validate_sequence_status_flags status_flags reclaim_complete =
    (let unknown = status_flags AND NOT SEQ4_STATUS_KNOWN in
     if unknown \<noteq> 0
     then Err (Protocol ''SEQUENCE response contained unknown status flags 0x{unknown:08x}'')
     else if status_flags AND SEQ4_STATUS_STATE_LOST \<noteq> 0
     then Err (ConnectionLost ''NFS server reported revoked client state (SEQUENCE flags 0x{status_flags:08x})'')
     else if reclaim_complete \<and> status_flags AND SEQ4_STATUS_RESTART_RECLAIM_NEEDED \<noteq> 0
     then Err (ConnectionLost ''NFS server restarted and requires state recovery'')
     else if status_flags AND SEQ4_STATUS_BACKCHANNEL_FAULT \<noteq> 0
     then Err (ConnectionLost ''NFS server reported a fatal session backchannel fault'')
     else if status_flags AND SEQ4_STATUS_LEASE_MOVED \<noteq> 0
     then Err (Unsupported ''NFS server reported migrated lease state'')
     else Ok ())"

text \<open>
  \<open>ClientOwner::rotate_verifier_if_current\<close> on the shared verifier, and the latch of fatal flags
  that calls it. The fresh value is what \<open>verifier_from_ulid(Ulid::new())\<close> gives.
\<close>

definition rotate_verifier_if_current :: "u64 \<Rightarrow> u64 \<Rightarrow> u64 \<Rightarrow> bool \<times> u64" where
  "rotate_verifier_if_current fresh verifier expected =
    (let replacement = (if fresh = expected then expected + 1 else fresh) in
     if verifier = expected then (True, replacement) else (False, verifier))"

definition latch_fatal_sequence_flags ::
  "u64 \<Rightarrow> u32 \<Rightarrow> u64 \<Rightarrow> u64 \<Rightarrow> u32 \<Rightarrow> bool \<times> u32 \<times> u64" where
  "latch_fatal_sequence_flags fresh latched verifier session_client_verifier status_flags =
    (let previous = latched; latched = latched OR status_flags in
     if status_flags AND SEQ4_STATUS_STATE_LOST \<noteq> 0 \<and> previous AND SEQ4_STATUS_STATE_LOST = 0
     then (let (rotated, verifier) = rotate_verifier_if_current fresh verifier session_client_verifier
           in (rotated, latched, verifier))
     else (False, latched, verifier))"

definition skip_sequence_data :: "unit decoder" where
  "skip_sequence_data = skip_bytes SEQUENCE_RESULT_LEN"

subsection \<open>Handles, reads, writes\<close>

definition decode_file_handle :: "FileHandle decoder" where
  "decode_file_handle =
    and_then read_opaque (\<lambda>handle.
    if length handle > NFS4_FHSIZE
    then fail (Protocol ''server returned a {}-byte filehandle, exceeding the NFSv4 maximum of {NFS4_FHSIZE}'')
    else ok handle)"

definition decode_read_data :: "ReadData decoder" where
  "decode_read_data =
    and_then read_bool_and_opaque (\<lambda>(eof, data). ok \<lparr> read_eof = eof, read_data = data \<rparr>)"

definition decode_write_data :: "WriteData decoder" where
  "decode_write_data =
    and_then (read_u32_pair_and_bytes 8) (\<lambda>(count, stable, verifier).
    and_then (lift (write_stability_from_raw stable)) (\<lambda>stable.
    ok \<lparr> write_count = count, committed = stable, write_verifier = verifier \<rparr>))"

definition ensure_write_verifier :: "bytes \<Rightarrow> bytes \<Rightarrow> unit result" where
  "ensure_write_verifier expected actual =
    (if actual \<noteq> expected
     then Err (ConnectionLost ''NFS write verifier changed before COMMIT completed'')
     else Ok ())"

definition skip_stateid :: "unit decoder" where
  "skip_stateid = skip_bytes stateid_encoded_len"

definition skip_change_info :: "unit decoder" where
  "skip_change_info = and_then (read_bool_and_skip CHANGE_INFO_AFTER_ATOMIC_LEN) (\<lambda>_. ok ())"

definition skip_bitmap_after_len :: "usize \<Rightarrow> unit decoder" where
  "skip_bitmap_after_len len =
    and_then (require_bitmap_words len) (\<lambda>bytes. skip_bytes_after_require bytes)"

definition skip_bitmap :: "unit decoder" where
  "skip_bitmap = and_then read_u32 (\<lambda>len. skip_bitmap_after_len (unat len))"

definition decode_open_delegation :: "unit decoder" where
  "decode_open_delegation =
    and_then read_u32 (\<lambda>delegation_type.
    if delegation_type = OPEN_DELEGATE_NONE then ok ()
    else if delegation_type = OPEN_DELEGATE_NONE_EXT then
      and_then read_u32 (\<lambda>why.
      if why = WND4_CONTENTION \<or> why = WND4_RESOURCE
      then and_then read_bool (\<lambda>_. ok ())
      else ok ())
    else if delegation_type = OPEN_DELEGATE_READ \<or> delegation_type = OPEN_DELEGATE_WRITE
    then fail (Unsupported ''server returned an OPEN delegation; callbacks are not implemented'')
    else fail (Protocol ''server returned invalid OPEN delegation type {other}''))"

definition decode_open_stateid :: "StateId decoder" where
  "decode_open_stateid =
    and_then stateid_decode (\<lambda>stateid.
    and_then skip_change_info (\<lambda>_.
    and_then read_u32_pair (\<lambda>(rflags, attrs_set_len).
    and_then (skip_bitmap_after_len (unat attrs_set_len)) (\<lambda>_.
    and_then decode_open_delegation (\<lambda>_.
    if rflags AND OPEN4_RESULT_CONFIRM \<noteq> 0
    then fail (Unsupported ''server requested OPEN_CONFIRM, which is obsolete in NFSv4.1'')
    else ok stateid)))))"

subsection \<open>Attributes\<close>

definition require_attr_len :: "usize \<Rightarrow> usize \<Rightarrow> unit result" where
  "require_attr_len actual needed =
    (if actual < needed
     then Err (Xdr ''attribute value length {actual} is shorter than required {needed} bytes'')
     else Ok ())"

definition decode_size_attr :: "FileAttrs decoder" where
  "decode_size_attr =
    and_then read_opaque_extent_len (\<lambda>len.
    and_then (lift (require_attr_len len 8)) (\<lambda>_.
    and_then read_u64_after_require (\<lambda>sz.
    and_then (if len > 8 then finish_opaque_after_require len 8 else ok ()) (\<lambda>_.
    ok \<lparr> attr_file_type = None, attr_size = Some sz \<rparr>))))"

definition decode_type_and_size_attrs :: "FileAttrs decoder" where
  "decode_type_and_size_attrs =
    and_then read_opaque_extent_len (\<lambda>len.
    and_then (lift (require_attr_len len 12)) (\<lambda>_.
    and_then read_u32_after_require (\<lambda>file_type.
    and_then read_u64_after_require (\<lambda>sz.
    and_then (if len > 12 then finish_opaque_after_require len 12 else ok ()) (\<lambda>_.
    ok \<lparr> attr_file_type = Some (file_type_from_raw file_type), attr_size = Some sz \<rparr>)))))"

definition consume_attr_bytes :: "usize \<Rightarrow> usize \<Rightarrow> usize result" where
  "consume_attr_bytes value_remaining needed =
    (if value_remaining < needed
     then Err (Xdr ''attribute {attr} requires {needed} bytes, only {} remain'')
     else Ok (value_remaining - needed))"

definition read_attr_u32 :: "usize \<Rightarrow> (u32 \<times> usize) decoder" where
  "read_attr_u32 value_remaining =
    and_then (lift (consume_attr_bytes value_remaining 4)) (\<lambda>left.
    and_then read_u32_after_require (\<lambda>v. ok (v, left)))"

definition read_attr_u64 :: "usize \<Rightarrow> (u64 \<times> usize) decoder" where
  "read_attr_u64 value_remaining =
    and_then (lift (consume_attr_bytes value_remaining 8)) (\<lambda>left.
    and_then read_u64_after_require (\<lambda>v. ok (v, left)))"

function fattr_values_loop ::
  "BitmapAttrs \<Rightarrow> FileAttrs \<Rightarrow> usize \<Rightarrow> (FileAttrs \<times> usize) decoder" where
  "fattr_values_loop it attrs value_remaining =
    (case bitmap_attrs_next it of
       None \<Rightarrow> ok (attrs, value_remaining)
     | Some (attr, it') \<Rightarrow>
         if attr = FATTR4_TYPE then
           and_then (read_attr_u32 value_remaining) (\<lambda>(v, left).
             fattr_values_loop it' (attrs\<lparr> attr_file_type := Some (file_type_from_raw v) \<rparr>) left)
         else if attr = FATTR4_SIZE then
           and_then (read_attr_u64 value_remaining) (\<lambda>(v, left).
             fattr_values_loop it' (attrs\<lparr> attr_size := Some v \<rparr>) left)
         else if attr = FATTR4_MODE then
           and_then (read_attr_u32 value_remaining) (\<lambda>(v, left).
             fattr_values_loop it' attrs left)
         else fail (Unsupported ''server returned unrequested or unsupported attribute {other}''))"
  by pat_completeness auto
termination
proof (relation "measure (\<lambda>(it, attrs, left). length (pending_attrs it))")
qed (use bitmap_attrs_next_pending in \<open>fastforce split: option.splits\<close>)+

declare fattr_values_loop.simps [simp del]

definition decode_fattr_values :: "Bitmap \<Rightarrow> FileAttrs decoder" where
  "decode_fattr_values bitmap =
    and_then read_opaque_extent_len (\<lambda>len.
    and_then (fattr_values_loop (bitmap_attrs bitmap)
                \<lparr> attr_file_type = None, attr_size = None \<rparr> len) (\<lambda>(attrs, value_remaining).
    and_then (if value_remaining \<le> len then ok () else panicking) (\<lambda>_.
    and_then (finish_opaque_after_require len (len - value_remaining)) (\<lambda>_.
    ok attrs))))"

definition decode_fattr_single_bitmap_word :: "u32 \<Rightarrow> FileAttrs decoder" where
  "decode_fattr_single_bitmap_word bitmap_word =
    (if bitmap_word = FATTR4_SIZE_WORD then decode_size_attr
     else if bitmap_word = FATTR4_TYPE_AND_SIZE_WORD then decode_type_and_size_attrs
     else decode_fattr_values (bitmap_inline_word bitmap_word))"

definition decode_fattr :: "FileAttrs decoder" where
  "decode_fattr =
    and_then read_u32 (\<lambda>bitmap_len.
    if unat bitmap_len = 1 then and_then read_u32 decode_fattr_single_bitmap_word
    else and_then (bitmap_decode_after_len (unat bitmap_len)) decode_fattr_values)"

definition validate_file_attrs :: "AttrRequest \<Rightarrow> FileAttrs \<Rightarrow> unit result" where
  "validate_file_attrs request attrs = (case request of
     AttrSize \<Rightarrow>
       if attr_size attrs = None
       then Err (Protocol ''{shape} response did not include GETATTR size result'')
       else Ok ()
   | AttrTypeAndSize \<Rightarrow>
       if attr_file_type attrs = None \<or> attr_size attrs = None
       then Err (Protocol ''{shape} response did not include GETATTR type and size result'')
       else Ok ())"

definition skip_fattr :: "unit decoder" where
  "skip_fattr = and_then skip_bitmap (\<lambda>_. skip_opaque)"

subsection \<open>Directory pages\<close>

definition is_dot_readdir_name :: "bytes \<Rightarrow> bool" where
  "is_dot_readdir_name name \<longleftrightarrow> name = as_bytes ''.'' \<or> name = as_bytes ''..''"

definition readdir_entry :: "(u64 \<times> string option) decoder" where
  "readdir_entry =
    and_then read_u64 (\<lambda>cookie.
    and_then (read_string_unless is_dot_readdir_name) (\<lambda>name.
    and_then skip_fattr (\<lambda>_. ok (cookie, name))))"

lemma safe_skip_bitmap_after_len [safe_intros]: "safe (skip_bitmap_after_len len)"
  by (simp add: safe_def skip_bitmap_after_len_def require_bitmap_words_def remaining_def
      and_then_def checked_mul_def after_require_run)

lemma safe_skip_bitmap [safe_intros]: "safe skip_bitmap"
  unfolding skip_bitmap_def by (intro safe_intros)

lemma safe_skip_fattr [safe_intros]: "safe skip_fattr"
  unfolding skip_fattr_def by (intro safe_intros)

lemma safe_readdir_entry [safe_intros]: "safe readdir_entry"
  unfolding readdir_entry_def by (intro safe_intros)

lemma read_bool_Ok_length: "read_bool d = (Ok b, d') \<Longrightarrow> length d' + 4 = length d"
  by (auto simp: read_bool_eq split: if_splits)

function readdir_loop :: "usize \<Rightarrow> bytes \<Rightarrow> string list \<Rightarrow> u64 \<Rightarrow> DirPage decoder" where
  "readdir_loop entry_limit verifier names cookie d =
    (let page = (\<lambda>eof. \<lparr> page_entries = names, page_eof = eof, page_verifier = verifier,
                         last_cookie = cookie \<rparr>) in
     case read_bool d of
       (Err e, d) \<Rightarrow> (Err e, d)
     | (Panic, d) \<Rightarrow> (Panic, d)
     | (Ok has_entry, d) \<Rightarrow>
         if \<not> has_entry then and_then read_bool (\<lambda>eof. ok (page eof)) d
         else if length names = entry_limit then (Ok (page False), d)
         else (case readdir_entry d of
             (Err e, d) \<Rightarrow> (Err e, d)
           | (Panic, d) \<Rightarrow> (Panic, d)
           | (Ok (cookie, name), d) \<Rightarrow>
               readdir_loop entry_limit verifier
                 (case name of Some name \<Rightarrow> names @ [name] | None \<Rightarrow> names) cookie d))"
  by pat_completeness auto
termination
  by (relation "measure (\<lambda>(lim, ver, names, cookie, d). length d)")
    (auto dest!: read_bool_Ok_length [OF sym] safe_length [OF safe_readdir_entry, OF sym])

declare readdir_loop.simps [simp del]

definition decode_readdir :: "usize option \<Rightarrow> DirPage decoder" where
  "decode_readdir max_entries =
    and_then (read_bytes 8) (\<lambda>verifier.
    let entry_limit = (case max_entries of Some n \<Rightarrow> n | None \<Rightarrow> usize_max) in
    readdir_loop entry_limit verifier [] 0)"

definition readdir_entries_capacity :: "usize \<Rightarrow> usize option \<Rightarrow> usize" where
  "readdir_entries_capacity left max_entries =
    (let hinted = min (left div READDIR_ENTRY_BYTE_HINT) READDIR_DECODE_PREALLOC_LIMIT in
     case max_entries of Some n \<Rightarrow> min hinted n | None \<Rightarrow> hinted)"

subsection \<open>Session set-up results\<close>

record ExchangeIdResult =
  xid_clientid :: u64
  xid_sequenceid :: u32

record CreateSessionResult =
  cs_sessionid :: bytes
  fore_attrs :: ChannelAttrs

definition decode_state_protect :: "unit decoder" where
  "decode_state_protect =
    and_then read_u32 (\<lambda>how.
    if how = SP4_NONE then ok ()
    else if how = SP4_MACH_CRED
    then fail (Unsupported ''server requires machine-credential state protection that the client did not request'')
    else if how = SP4_SSV
    then fail (Unsupported ''server requires SSV state protection; AUTH_SYS-only client cannot continue'')
    else fail (Protocol ''unknown state protection mode {other}''))"

definition skip_impl_id_array :: "unit decoder" where
  "skip_impl_id_array =
    and_then read_u32 (\<lambda>len.
    and_then remaining (\<lambda>left.
    if unat len > left div IMPLEMENTATION_ID_MIN_LEN
    then fail (Xdr ''implementation id array length {len} exceeds remaining XDR data'')
    else and_then (read_many (unat len)
      (and_then skip_opaque (\<lambda>_. and_then skip_opaque (\<lambda>_. skip_bytes IMPLEMENTATION_ID_TIMESTAMP_LEN))))
      (\<lambda>_. ok ())))"

definition decode_exchange_id :: "ExchangeIdResult decoder" where
  "decode_exchange_id =
    and_then read_u64 (\<lambda>clientid.
    and_then read_u32 (\<lambda>sequence.
    and_then read_u32 (\<lambda>_.
    and_then decode_state_protect (\<lambda>_.
    and_then read_u64 (\<lambda>_.
    and_then skip_opaque (\<lambda>_.
    and_then skip_opaque (\<lambda>_.
    and_then skip_impl_id_array (\<lambda>_.
    ok \<lparr> xid_clientid = clientid, xid_sequenceid = sequence \<rparr>))))))))"

definition nonzero_channel_limit :: "u32 \<Rightarrow> u32 result" where
  "nonzero_channel_limit v =
    (if v = 0 then Err (Protocol ''CREATE_SESSION returned zero {field}'') else Ok v)"

definition decode_channel_attrs :: "ChannelAttrs decoder" where
  "decode_channel_attrs =
    and_then read_u32 (\<lambda>_.
    and_then read_u32 (\<lambda>w. and_then (lift (nonzero_channel_limit w)) (\<lambda>max_request.
    and_then read_u32 (\<lambda>w. and_then (lift (nonzero_channel_limit w)) (\<lambda>max_response.
    and_then read_u32 (\<lambda>_.
    and_then read_u32 (\<lambda>w. and_then (lift (nonzero_channel_limit w)) (\<lambda>max_ops.
    and_then read_u32 (\<lambda>w. and_then (lift (nonzero_channel_limit w)) (\<lambda>max_reqs.
    and_then read_u32 (\<lambda>rdma_ird_len.
    and_then remaining (\<lambda>left.
    if unat rdma_ird_len > left div 4
    then fail (Xdr ''RDMA IRD array length {rdma_ird_len} exceeds remaining XDR words'')
    else and_then (skip_bytes_after_require (unat rdma_ird_len * 4)) (\<lambda>_.
    ok \<lparr> ca_max_request_size = max_request, ca_max_response_size = max_response,
         maxoperations = max_ops, maxrequests = max_reqs \<rparr>)))))))))))))"

definition validate_fore_channel_minimums :: "ChannelAttrs \<Rightarrow> usize \<Rightarrow> unit result" where
  "validate_fore_channel_minimums attrs minimum_request_size =
    (if maxoperations attrs < 2
     then Err (Protocol ''CREATE_SESSION ca_maxoperations {} cannot fit SEQUENCE plus an operation'')
     else if unat (ca_max_request_size attrs) < minimum_request_size
     then Err (Protocol ''CREATE_SESSION ca_maxrequestsize {} cannot fit the minimum {minimum_request_size}-byte RPC SEQUENCE request'')
     else if ca_max_response_size attrs < MIN_SEQUENCE_COMPOUND_RESPONSE_SIZE
     then Err (Protocol ''CREATE_SESSION ca_maxresponsesize {} cannot fit the minimum {MIN_SEQUENCE_COMPOUND_RESPONSE_SIZE}-byte RPC SEQUENCE response'')
     else Ok ())"

definition decode_create_session :: "u32 \<Rightarrow> usize \<Rightarrow> CreateSessionResult decoder" where
  "decode_create_session expected_sequenceid minimum_request_size =
    and_then (read_bytes 16) (\<lambda>session.
    and_then read_u32 (\<lambda>sequence.
    if sequence \<noteq> expected_sequenceid
    then fail (Protocol ''CREATE_SESSION response sequence ID {sequenceid} did not match request {expected_sequenceid}'')
    else
    and_then read_u32 (\<lambda>_.
    and_then decode_channel_attrs (\<lambda>fore.
    and_then (lift (validate_fore_channel_minimums fore minimum_request_size)) (\<lambda>_.
    and_then decode_channel_attrs (\<lambda>_.
    ok \<lparr> cs_sessionid = session, fore_attrs = fore \<rparr>))))))"

subsection \<open>No result decoder panics\<close>

lemma safe_decode_sequence_result_dec [safe_intros]: "safe (decode_sequence_result_dec sid seq slot)"
  unfolding decode_sequence_result_dec_def by (intro safe_intros) simp_all

lemma safe_skip_sequence_data [safe_intros]: "safe skip_sequence_data"
  unfolding skip_sequence_data_def by (intro safe_intros)

lemma safe_decode_file_handle [safe_intros]: "safe decode_file_handle"
  unfolding decode_file_handle_def by (intro safe_intros)

lemma safe_decode_read_data [safe_intros]: "safe decode_read_data"
  unfolding decode_read_data_def by (intro safe_intros)

lemma write_stability_from_raw_not_Panic [simp]: "write_stability_from_raw v \<noteq> Panic"
  by (simp add: write_stability_from_raw_def)

lemma safe_decode_write_data [safe_intros]: "safe decode_write_data"
  unfolding decode_write_data_def by (intro safe_intros) simp

lemma ensure_write_verifier_not_Panic [simp]: "ensure_write_verifier a b \<noteq> Panic"
  by (simp add: ensure_write_verifier_def)

lemma safe_skip_stateid [safe_intros]: "safe skip_stateid"
  unfolding skip_stateid_def by (intro safe_intros)

lemma safe_skip_change_info [safe_intros]: "safe skip_change_info"
  unfolding skip_change_info_def by (intro safe_intros)

lemma safe_decode_open_delegation [safe_intros]: "safe decode_open_delegation"
  unfolding decode_open_delegation_def by (intro safe_intros)

lemma safe_decode_open_stateid [safe_intros]: "safe decode_open_stateid"
  unfolding decode_open_stateid_def by (intro safe_intros)

lemma finish_opaque_after_require_eq:
  assumes "consumed \<le> len" and "len \<le> u32_max"
  shows "finish_opaque_after_require len consumed d =
           buf_advance (len - consumed + xdr_padding len) d"
proof -
  have "len - consumed + xdr_padding len \<le> usize_max"
    using xdr_padding_u32_fits [OF assms(2)] by simp
  then show ?thesis using assms
    by (simp add: finish_opaque_after_require_def opaque_remaining_len_def checked_sub_def
        checked_add_def and_then_def)
qed

lemma extent_len_bound:
  "read_opaque_extent_len d = (Ok len, d') \<Longrightarrow>
     len \<le> u32_max \<and> len + xdr_padding len \<le> length d' \<and> d' = drop 4 d"
  by (auto simp: read_opaque_extent_len_eq Let_def split: if_splits)

lemma suffix_chop: "suffix d' (drop k d) \<Longrightarrow> suffix d' d"
  by (meson suffix_drop suffix_order.order_trans)

lemma safe_extent:
  assumes "\<And>len d. len \<le> u32_max \<Longrightarrow> len + xdr_padding len \<le> length d \<Longrightarrow>
             fst (f len d) \<noteq> Panic \<and> suffix (snd (f len d)) d"
  shows "safe (and_then read_opaque_extent_len f)"
proof (rule safeI)
  fix d
  obtain r d' where e: "read_opaque_extent_len d = (r, d')" by fastforce
  have "suffix d' d" using safe_suffix [OF safe_read_opaque_extent_len e] .
  show "fst (and_then read_opaque_extent_len f d) \<noteq> Panic \<and>
        suffix (snd (and_then read_opaque_extent_len f d)) d"
  proof (cases r)
    case (Ok len)
    then have "fst (f len d') \<noteq> Panic \<and> suffix (snd (f len d')) d'"
      using assms extent_len_bound [of d len d'] e by blast
    then show ?thesis using \<open>suffix d' d\<close> e Ok
      by (auto simp: and_then_def intro: suffix_order.order_trans [of _ d'])
  qed (use e \<open>suffix d' d\<close> safe_not_Panic [OF safe_read_opaque_extent_len, of d d'] in
        \<open>simp_all add: and_then_def\<close>)
qed

lemma safe_decode_size_attr [safe_intros]: "safe decode_size_attr"
  unfolding decode_size_attr_def
  by (rule safe_extent)
    (auto simp: and_then_def require_attr_len_def after_require_run finish_opaque_after_require_eq
      buf_advance_def)

lemma safe_decode_type_and_size_attrs [safe_intros]: "safe decode_type_and_size_attrs"
  unfolding decode_type_and_size_attrs_def
  by (rule safe_extent)
    (auto simp: and_then_def require_attr_len_def after_require_run finish_opaque_after_require_eq
      buf_advance_def)

lemma read_attr_u32_run:
  "left \<le> length d \<Longrightarrow> read_attr_u32 left d =
     (if left < 4 then (Err (Xdr ''attribute {attr} requires {needed} bytes, only {} remain''), d)
      else (Ok (of_be (take 4 d), left - 4), drop 4 d))"
  by (simp add: read_attr_u32_def consume_attr_bytes_def and_then_def after_require_run)

lemma read_attr_u64_run:
  "left \<le> length d \<Longrightarrow> read_attr_u64 left d =
     (if left < 8 then (Err (Xdr ''attribute {attr} requires {needed} bytes, only {} remain''), d)
      else (Ok (of_be (take 8 d), left - 8), drop 8 d))"
  by (simp add: read_attr_u64_def consume_attr_bytes_def and_then_def after_require_run)

text \<open>
  The attribute loop stays inside the value it was given: what it leaves of the value is what
  it leaves of the buffer.
\<close>

lemma fattr_values_loop_bounds:
  "left \<le> length d \<Longrightarrow> (case fattr_values_loop it attrs left d of
       (Ok (attrs', left'), d') \<Rightarrow> left' \<le> left \<and> d' = drop (left - left') d
     | (Err e, d') \<Rightarrow> suffix d' d
     | (Panic, d') \<Rightarrow> False)"
proof (induction it attrs left arbitrary: d rule: fattr_values_loop.induct)
  case (1 it attrs left)
  show ?case
  proof (cases "bitmap_attrs_next it")
    case None
    then show ?thesis by (subst fattr_values_loop.simps) simp
  next
    case (Some p)
    then obtain attr it' where p: "bitmap_attrs_next it = Some (attr, it')" by (cases p) auto
    have step: "case (if left < k then (Err e, d) else fattr_values_loop it' a (left - k) (drop k d)) of
        (Ok (attrs', left'), d') \<Rightarrow> left' \<le> left \<and> d' = drop (left - left') d
      | (Err e, d') \<Rightarrow> suffix d' d | (Panic, d') \<Rightarrow> False"
      if "case fattr_values_loop it' a (left - k) (drop k d) of
        (Ok (attrs', left'), d') \<Rightarrow> left' \<le> left - k \<and> d' = drop (left - k - left') (drop k d)
      | (Err e, d') \<Rightarrow> suffix d' (drop k d) | (Panic, d') \<Rightarrow> False" for k a e
      using that by (auto split: prod.splits outcome.splits intro: suffix_chop)
    have le: "left - k \<le> length (drop k d)" for k using 1(4) by simp
    show ?thesis
    proof (cases "attr = FATTR4_TYPE \<or> attr = FATTR4_SIZE \<or> attr = FATTR4_MODE")
      case True
      then consider "attr = FATTR4_TYPE" | "attr = FATTR4_SIZE" | "attr = FATTR4_MODE" by blast
      then show ?thesis
      proof cases
        case 1
        have "fattr_values_loop it attrs left d =
            (if left < 4 then (Err (Xdr ''attribute {attr} requires {needed} bytes, only {} remain''), d)
             else fattr_values_loop it' (attrs\<lparr> attr_file_type := Some (file_type_from_raw (of_be (take 4 d))) \<rparr>)
                    (left - 4) (drop 4 d))"
          using p 1 "1.prems" by (subst fattr_values_loop.simps) (simp add: and_then_def read_attr_u32_run)
        then show ?thesis using step "1.IH"(1) [OF p refl 1 le] by simp
      next
        case 2
        have "fattr_values_loop it attrs left d =
            (if left < 8 then (Err (Xdr ''attribute {attr} requires {needed} bytes, only {} remain''), d)
             else fattr_values_loop it' (attrs\<lparr> attr_size := Some (of_be (take 8 d)) \<rparr>) (left - 8) (drop 8 d))"
          using p 2 "1.prems" by (subst fattr_values_loop.simps) (simp add: and_then_def read_attr_u64_run)
        then show ?thesis using step "1.IH"(2) [OF p refl _ 2 le] 2 by simp
      next
        case 3
        have "fattr_values_loop it attrs left d =
            (if left < 4 then (Err (Xdr ''attribute {attr} requires {needed} bytes, only {} remain''), d)
             else fattr_values_loop it' attrs (left - 4) (drop 4 d))"
          using p 3 "1.prems" by (subst fattr_values_loop.simps) (simp add: and_then_def read_attr_u32_run)
        then show ?thesis using step "1.IH"(3) [OF p refl _ _ 3 le] 3 by simp
      qed
    next
      case False
      then show ?thesis using p by (subst fattr_values_loop.simps) simp
    qed
  qed
qed

lemma safe_decode_fattr_values [safe_intros]: "safe (decode_fattr_values bitmap)"
  unfolding decode_fattr_values_def
proof (rule safe_extent)
  fix len :: usize and d :: XdrDecoder
  assume len: "len \<le> u32_max" "len + xdr_padding len \<le> length d"
  let ?init = "\<lparr> attr_file_type = None, attr_size = None \<rparr>"
  obtain r d' where l: "fattr_values_loop (bitmap_attrs bitmap) ?init len d = (r, d')" by fastforce
  have b: "case r of Ok (attrs', left') \<Rightarrow> left' \<le> len \<and> d' = drop (len - left') d
     | Err e \<Rightarrow> suffix d' d | Panic \<Rightarrow> False"
    using fattr_values_loop_bounds [of len d "bitmap_attrs bitmap" ?init] l len
    by (auto split: outcome.splits)
  then show "fst (and_then (fattr_values_loop (bitmap_attrs bitmap) ?init len) (\<lambda>(attrs, value_remaining).
        and_then (if value_remaining \<le> len then ok () else panicking) (\<lambda>_.
        and_then (finish_opaque_after_require len (len - value_remaining)) (\<lambda>_. ok attrs))) d) \<noteq> Panic \<and>
      suffix (snd (and_then (fattr_values_loop (bitmap_attrs bitmap) ?init len) (\<lambda>(attrs, value_remaining).
        and_then (if value_remaining \<le> len then ok () else panicking) (\<lambda>_.
        and_then (finish_opaque_after_require len (len - value_remaining)) (\<lambda>_. ok attrs))) d)) d"
  proof (cases r)
    case (Ok p)
    obtain attrs left where p: "p = (attrs, left)" by fastforce
    have left: "left \<le> len" "d' = drop (len - left) d" using b Ok p by auto
    have "\<not> length d' < left + xdr_padding len" using left len by simp
    then have "finish_opaque_after_require len (len - left) d' = (Ok (), drop (left + xdr_padding len) d')"
      using left len by (simp add: finish_opaque_after_require_eq buf_advance_def)
    then show ?thesis using l Ok p left by (simp add: and_then_def)
  qed (use l b in \<open>simp_all add: and_then_def\<close>)
qed

lemma safe_decode_fattr_single_bitmap_word [safe_intros]: "safe (decode_fattr_single_bitmap_word w)"
  unfolding decode_fattr_single_bitmap_word_def by (intro safe_intros)

lemma safe_decode_fattr [safe_intros]: "safe decode_fattr"
  unfolding decode_fattr_def by (intro safe_intros)

lemma readdir_loop_safe:
  "fst (readdir_loop lim ver names cookie d) \<noteq> Panic \<and> suffix (snd (readdir_loop lim ver names cookie d)) d"
proof (induction lim ver names cookie d rule: readdir_loop.induct)
  case (1 lim ver names cookie d)
  obtain r d1 where b: "read_bool d = (r, d1)" by fastforce
  have s1: "suffix d1 d" "r \<noteq> Panic"
    using safe_suffix [OF safe_read_bool b] safe_not_Panic [OF safe_read_bool] b by auto
  obtain q d2 where e: "readdir_entry d1 = (q, d2)" by fastforce
  have s2: "suffix d2 d1" "q \<noteq> Panic"
    using safe_suffix [OF safe_readdir_entry e] safe_not_Panic [OF safe_readdir_entry] e by auto
  have tail: "safe (and_then read_bool (\<lambda>eof. ok (page eof)))" for page :: "bool \<Rightarrow> DirPage"
    by (intro safe_intros)
  show ?case
  proof (cases r)
    case (Ok has_entry)
    then show ?thesis
    proof (cases "has_entry \<and> length names \<noteq> lim")
      case True
      show ?thesis
      proof (cases q)
        case q: (Ok p)
        obtain cookie' name where p: "p = (cookie', name)" by fastforce
        let ?names = "case name of Some name \<Rightarrow> names @ [name] | None \<Rightarrow> names"
        have eq: "readdir_loop lim ver names cookie d = readdir_loop lim ver ?names cookie' d2"
          using True Ok b e q p by (subst readdir_loop.simps) simp
        have "fst (readdir_loop lim ver ?names cookie' d2) \<noteq> Panic \<and>
            suffix (snd (readdir_loop lim ver ?names cookie' d2)) d2"
          using 1 True Ok b e q p by auto
        then show ?thesis using eq s1 s2 by (metis suffix_order.order_trans)
      next
        case (Err err)
        then have "readdir_loop lim ver names cookie d = (Err err, d2)"
          using True Ok b e by (subst readdir_loop.simps) simp
        then show ?thesis using s1 s2 by (simp add: suffix_order.order_trans)
      qed (use s2 in simp)
    next
      case False
      let ?page = "\<lambda>eof. \<lparr> page_entries = names, page_eof = eof, page_verifier = ver, last_cookie = cookie \<rparr>"
      have "readdir_loop lim ver names cookie d =
          (if has_entry then (Ok (?page False), d1) else and_then read_bool (\<lambda>eof. ok (?page eof)) d1)"
        using False Ok b by (subst readdir_loop.simps) auto
      moreover have "suffix (snd (and_then read_bool (\<lambda>eof. ok (?page eof)) d1)) d"
        using tail [of ?page] s1(1) unfolding safe_def by (meson suffix_order.order_trans)
      ultimately show ?thesis using s1(1) tail [of ?page] unfolding safe_def by simp
    qed
  next
    case (Err err)
    then have "readdir_loop lim ver names cookie d = (Err err, d1)"
      using b by (subst readdir_loop.simps) simp
    then show ?thesis using s1 by simp
  qed (use s1 in simp)
qed

lemma safe_readdir_loop [safe_intros]: "safe (readdir_loop lim ver names cookie)"
  by (simp add: safe_def readdir_loop_safe)

lemma safe_decode_readdir [safe_intros]: "safe (decode_readdir m)"
  unfolding decode_readdir_def by (intro safe_intros)

lemma safe_remaining [safe_intros]: "safe remaining"
  by (simp add: safe_def remaining_def)

lemma safe_decode_state_protect [safe_intros]: "safe decode_state_protect"
  unfolding decode_state_protect_def by (intro safe_intros)

lemma safe_skip_impl_id_array [safe_intros]: "safe skip_impl_id_array"
  unfolding skip_impl_id_array_def by (intro safe_intros)

lemma safe_decode_exchange_id [safe_intros]: "safe decode_exchange_id"
  unfolding decode_exchange_id_def by (intro safe_intros)

lemma nonzero_channel_limit_not_Panic [simp]: "nonzero_channel_limit v \<noteq> Panic"
  by (simp add: nonzero_channel_limit_def)

lemma safe_ird_skip:
  "safe (and_then remaining (\<lambda>left. if n > left div 4 then fail e
     else and_then (skip_bytes_after_require (n * 4)) (\<lambda>_. ok v)))"
  by (auto simp: safe_def and_then_def remaining_def after_require_run)

lemma safe_decode_channel_attrs [safe_intros]: "safe decode_channel_attrs"
  unfolding decode_channel_attrs_def by (intro safe_intros safe_ird_skip) simp_all

lemma validate_fore_channel_minimums_not_Panic [simp]: "validate_fore_channel_minimums a m \<noteq> Panic"
  by (simp add: validate_fore_channel_minimums_def)

lemma safe_decode_create_session [safe_intros]: "safe (decode_create_session s m)"
  unfolding decode_create_session_def by (intro safe_intros) simp_all

subsection \<open>Attribute fast paths\<close>

text \<open>The attribute loop over the list of attribute numbers the iterator yields.\<close>

fun fattr_list_loop :: "u32 list \<Rightarrow> FileAttrs \<Rightarrow> usize \<Rightarrow> (FileAttrs \<times> usize) decoder" where
  "fattr_list_loop [] attrs left = ok (attrs, left)"
| "fattr_list_loop (attr # rest) attrs left =
    (if attr = FATTR4_TYPE then
       and_then (read_attr_u32 left) (\<lambda>(v, left).
         fattr_list_loop rest (attrs\<lparr> attr_file_type := Some (file_type_from_raw v) \<rparr>) left)
     else if attr = FATTR4_SIZE then
       and_then (read_attr_u64 left) (\<lambda>(v, left).
         fattr_list_loop rest (attrs\<lparr> attr_size := Some v \<rparr>) left)
     else if attr = FATTR4_MODE then
       and_then (read_attr_u32 left) (\<lambda>(v, left). fattr_list_loop rest attrs left)
     else fail (Unsupported ''server returned unrequested or unsupported attribute {other}''))"

lemma fattr_values_loop_list:
  "fattr_values_loop it attrs left = fattr_list_loop (pending_attrs it) attrs left"
proof (induction it attrs left rule: fattr_values_loop.induct)
  case (1 it attrs left)
  show ?case
  proof (cases "bitmap_attrs_next it")
    case None
    then show ?thesis using bitmap_attrs_next_pending [of it]
      by (subst fattr_values_loop.simps) simp
  next
    case (Some p)
    then obtain attr it' where p: "bitmap_attrs_next it = Some (attr, it')" by (cases p) auto
    then have "pending_attrs it = attr # pending_attrs it'"
      using bitmap_attrs_next_pending [of it] by simp
    then show ?thesis
      using p 1(1) [OF p refl] 1(2) [OF p refl] 1(3) [OF p refl]
      by (subst fattr_values_loop.simps) (auto simp: case_prod_beta')
  qed
qed

lemma set_bits_size_word: "set_bits FATTR4_SIZE_WORD = [4]"
  by code_simp

lemma set_bits_type_and_size_word: "set_bits FATTR4_TYPE_AND_SIZE_WORD = [1, 4]"
  by code_simp

lemma pending_inline_word:
  "pending_attrs (bitmap_attrs (bitmap_inline_word w)) = map of_nat (set_bits w)"
  by (simp add: bitmap_attrs_pending bitmap_inline_word_def)

text \<open>Two outcomes agree up to the error: the same value and rest, or an error on both sides.\<close>

fun same_up_to_error :: "('a, 'e) outcome \<times> 's \<Rightarrow> ('a, 'e) outcome \<times> 's \<Rightarrow> bool" where
  "same_up_to_error (Ok a, s) (Ok b, t) \<longleftrightarrow> a = b \<and> s = t"
| "same_up_to_error (Err e, s) (Err f, t) \<longleftrightarrow> True"
| "same_up_to_error x y \<longleftrightarrow> False"

lemma same_up_to_error_refl: "fst x \<noteq> Panic \<Longrightarrow> same_up_to_error x x"
  by (cases x; cases "fst x") auto

lemma decode_size_attr_generic:
  "same_up_to_error (decode_size_attr d) (decode_fattr_values (bitmap_inline_word FATTR4_SIZE_WORD) d)"
proof -
  obtain r d' where e: "read_opaque_extent_len d = (r, d')" by fastforce
  show ?thesis
  proof (cases r)
    case (Ok len)
    note b = extent_len_bound [of d len d'] 
    show ?thesis
      using e Ok b
      by (auto simp: decode_size_attr_def decode_fattr_values_def fattr_values_loop_list pending_inline_word
          set_bits_size_word and_then_def require_attr_len_def after_require_run read_attr_u64_run
          finish_opaque_after_require_eq buf_advance_def not_less)
  qed (use e safe_not_Panic [OF safe_read_opaque_extent_len, of d d'] in
        \<open>simp_all add: decode_size_attr_def decode_fattr_values_def and_then_def\<close>)
qed

lemma decode_type_and_size_attrs_generic:
  "same_up_to_error (decode_type_and_size_attrs d)
     (decode_fattr_values (bitmap_inline_word FATTR4_TYPE_AND_SIZE_WORD) d)"
proof -
  obtain r d' where e: "read_opaque_extent_len d = (r, d')" by fastforce
  show ?thesis
  proof (cases r)
    case (Ok len)
    note b = extent_len_bound [of d len d'] 
    show ?thesis
      using e Ok b
      by (auto simp: decode_type_and_size_attrs_def decode_fattr_values_def fattr_values_loop_list
          pending_inline_word set_bits_type_and_size_word and_then_def require_attr_len_def
          after_require_run read_attr_u32_run read_attr_u64_run
          finish_opaque_after_require_eq buf_advance_def not_less)
  qed (use e safe_not_Panic [OF safe_read_opaque_extent_len, of d d'] in
        \<open>simp_all add: decode_type_and_size_attrs_def decode_fattr_values_def and_then_def\<close>)
qed

lemma decode_fattr_single_bitmap_word_generic:
  "same_up_to_error (decode_fattr_single_bitmap_word w d) (decode_fattr_values (bitmap_inline_word w) d)"
  using decode_size_attr_generic [of d] decode_type_and_size_attrs_generic [of d]
    safe_decode_fattr_values [of "bitmap_inline_word w", unfolded safe_def]
  by (auto simp: decode_fattr_single_bitmap_word_def intro: same_up_to_error_refl)

subsection \<open>Status flags\<close>

lemma and_zero_iff: "(a :: u32) AND b = 0 \<longleftrightarrow> (\<forall>i < 32. bit a i \<longrightarrow> \<not> bit b i)"
  by (auto simp: bit_eq_iff bit_and_iff)

lemma flag_bits:
  "i < 32 \<Longrightarrow> bit SEQ4_STATUS_KNOWN i \<longleftrightarrow> i \<le> 12"
  "i < 32 \<Longrightarrow> bit SEQ4_STATUS_STATE_LOST i \<longleftrightarrow> i \<in> {3, 4, 5, 6}"
  "i < 32 \<Longrightarrow> bit (SEQ4_STATUS_RESTART_RECLAIM_NEEDED :: u32) i \<longleftrightarrow> i = 8"
  "i < 32 \<Longrightarrow> bit (SEQ4_STATUS_BACKCHANNEL_FAULT :: u32) i \<longleftrightarrow> i = 10"
  "i < 32 \<Longrightarrow> bit (SEQ4_STATUS_LEASE_MOVED :: u32) i \<longleftrightarrow> i = 7"
proof -
  have all: "P i" if "i < 32" "list_all P [0..<32]" for P and i :: nat
    using that by (auto simp: list_all_iff)
  show "i < 32 \<Longrightarrow> bit SEQ4_STATUS_KNOWN i \<longleftrightarrow> i \<le> 12"
    by (erule all [where P = "\<lambda>i. bit SEQ4_STATUS_KNOWN i \<longleftrightarrow> i \<le> 12"]) code_simp
  show "i < 32 \<Longrightarrow> bit SEQ4_STATUS_STATE_LOST i \<longleftrightarrow> i \<in> {3, 4, 5, 6}"
    by (erule all [where P = "\<lambda>i. bit SEQ4_STATUS_STATE_LOST i \<longleftrightarrow> i \<in> {3, 4, 5, 6}"]) code_simp
  show "i < 32 \<Longrightarrow> bit (SEQ4_STATUS_RESTART_RECLAIM_NEEDED :: u32) i \<longleftrightarrow> i = 8"
    by (erule all [where P = "\<lambda>i. bit (SEQ4_STATUS_RESTART_RECLAIM_NEEDED :: u32) i \<longleftrightarrow> i = 8"]) code_simp
  show "i < 32 \<Longrightarrow> bit (SEQ4_STATUS_BACKCHANNEL_FAULT :: u32) i \<longleftrightarrow> i = 10"
    by (erule all [where P = "\<lambda>i. bit (SEQ4_STATUS_BACKCHANNEL_FAULT :: u32) i \<longleftrightarrow> i = 10"]) code_simp
  show "i < 32 \<Longrightarrow> bit (SEQ4_STATUS_LEASE_MOVED :: u32) i \<longleftrightarrow> i = 7"
    by (erule all [where P = "\<lambda>i. bit (SEQ4_STATUS_LEASE_MOVED :: u32) i \<longleftrightarrow> i = 7"]) code_simp
qed

lemma bit_less_32: "bit (w :: u32) i \<Longrightarrow> i < 32"
  using bit_imp_le_length [of w i] by simp

text \<open>The flags a session goes on with, by bit number.\<close>

definition harmless_flag :: "bool \<Rightarrow> nat \<Rightarrow> bool" where
  "harmless_flag reclaim_complete i \<longleftrightarrow>
     i \<in> {0, 1, 2, 9, 11, 12} \<or> (i = 8 \<and> \<not> reclaim_complete)"

lemma validate_sequence_status_flags_Ok:
  "validate_sequence_status_flags flags rc = Ok () \<longleftrightarrow> (\<forall>i. bit flags i \<longrightarrow> harmless_flag rc i)"
proof -
  have "validate_sequence_status_flags flags rc = Ok () \<longleftrightarrow>
      flags AND NOT SEQ4_STATUS_KNOWN = 0 \<and> flags AND SEQ4_STATUS_STATE_LOST = 0 \<and>
      (rc \<longrightarrow> flags AND SEQ4_STATUS_RESTART_RECLAIM_NEEDED = 0) \<and>
      flags AND SEQ4_STATUS_BACKCHANNEL_FAULT = 0 \<and> flags AND SEQ4_STATUS_LEASE_MOVED = 0"
    by (simp add: validate_sequence_status_flags_def Let_def)
  also have "\<dots> \<longleftrightarrow> (\<forall>i < 32. bit flags i \<longrightarrow>
      i \<le> 12 \<and> i \<notin> {3, 4, 5, 6} \<and> (rc \<longrightarrow> i \<noteq> 8) \<and> i \<noteq> 10 \<and> i \<noteq> 7)"
    unfolding and_zero_iff using flag_bits by (auto simp: bit_not_iff)
  also have "\<dots> \<longleftrightarrow> (\<forall>i. bit flags i \<longrightarrow> harmless_flag rc i)"
  proof -
    have "i \<le> 12 \<and> i \<notin> {3, 4, 5, 6} \<and> (rc \<longrightarrow> i \<noteq> 8) \<and> i \<noteq> 10 \<and> i \<noteq> 7 \<longleftrightarrow> harmless_flag rc i" for i
      unfolding harmless_flag_def by (auto; arith)
    then show ?thesis using bit_less_32 by blast
  qed
  finally show ?thesis .
qed

lemma validate_sequence_status_flags_not_Panic [simp]: "validate_sequence_status_flags f rc \<noteq> Panic"
  by (simp add: validate_sequence_status_flags_def Let_def)

lemma validate_flags_antimono:
  assumes "validate_sequence_status_flags (a OR b) rc' = Ok ()" and "rc \<longrightarrow> rc'"
  shows "validate_sequence_status_flags b rc = Ok ()"
  using assms by (auto simp: validate_sequence_status_flags_Ok bit_or_iff harmless_flag_def)

subsection \<open>SEQUENCE results on the wire\<close>

text \<open>A COMPOUND reply as RFC 8881 lays it out: status, tag, and the array of operation results.\<close>

type_synonym op_reply = "u32 \<times> u32 \<times> bytes"

definition reply_wire :: "op_reply \<Rightarrow> bytes" where
  "reply_wire r = (case r of (op, status, body) \<Rightarrow> be_bytes 4 op @ be_bytes 4 status @ body)"

definition compound_reply :: "u32 \<Rightarrow> bytes \<Rightarrow> op_reply list \<Rightarrow> bytes" where
  "compound_reply status tag replies =
     be_bytes 4 status @ opaque_wire tag @ be_bytes 4 (of_nat (length replies) :: u32) @
     concat (map reply_wire replies)"

definition sequence_body :: "bytes \<Rightarrow> u32 \<Rightarrow> u32 \<Rightarrow> u32 \<Rightarrow> u32 \<Rightarrow> u32 \<Rightarrow> bytes" where
  "sequence_body sid seq slot highest target flags =
     sid @ be_bytes 4 seq @ be_bytes 4 slot @ be_bytes 4 highest @ be_bytes 4 target @ be_bytes 4 flags"

lemma read_compound_prefix:
  assumes "length tag \<le> u32_max"
  shows "read_u32_skip_opaque_and_read_u32 (be_bytes 4 status @ opaque_wire tag @ be_bytes 4 n @ rest)
    = (Ok (status, n), rest)"
proof -
  have fit: "length tag + xdr_padding (length tag) + 4 \<le> usize_max"
    using assms xdr_padding_less [of "length tag"] by (simp add: u32_max_def usize_max_def)
  show ?thesis
    using assms fit
    by (simp add: read_u32_skip_opaque_and_read_u32_def and_then_def read_u32_pair_eq opaque_wire_def
        unat_of_nat_u32 opaque_padded_len_exact checked_add_def require_def buf_advance_def
        after_require_run add.commute)
qed

lemma read_u32_pair_wire [simp]: "read_u32_pair (be_bytes 4 a @ be_bytes 4 b @ rest) = (Ok (a, b), rest)"
  by (simp add: read_u32_pair_eq)

lemma read_bytes_wire [simp]: "length bs = n \<Longrightarrow> read_bytes n (bs @ rest) = (Ok bs, rest)"
  by (simp add: read_bytes_eq)

lemma of_nat_u32_eq_0 [simp]: "n \<le> u32_max \<Longrightarrow> (of_nat n :: u32) = 0 \<longleftrightarrow> n = 0"
  using unat_of_nat_u32 [of n] by (metis unsigned_eq_0_iff)

lemma decode_sequence_result_wire:
  assumes "length tag \<le> u32_max" and "length rs < u32_max" and "length sid' = 16"
  shows "decode_sequence_result
           (compound_reply status tag
             ((op_u32 OpCode.Sequence, status_OK, sequence_body sid' seq' slot' hi tgt fl) # rs))
           sid seq slot =
         (if sid' \<noteq> sid then Err (Protocol ''SEQUENCE response session ID mismatch'')
          else if seq' \<noteq> seq
          then Err (Protocol ''SEQUENCE response sequence ID {sequenceid} did not match request {expected_sequenceid}'')
          else if slot' \<noteq> slot
          then Err (Protocol ''SEQUENCE response slot ID {slotid} did not match request {expected_slotid}'')
          else Ok \<lparr> seq_highest_slotid = hi, seq_target_highest_slotid = tgt, seq_status_flags = fl \<rparr>)"
proof -
  have "(of_nat (Suc (length rs)) :: u32) \<noteq> 0"
    using of_nat_u32_eq_0 [of "Suc (length rs)"] assms(2) by simp
  then show ?thesis using assms
    by (simp add: decode_sequence_result_def decode_sequence_result_dec_def compound_reply_def
        reply_wire_def sequence_body_def read_compound_prefix and_then_def del: of_nat_Suc)
qed

subsection \<open>Directory pages on the wire\<close>

lemma readdir_loop_steps:
  "read_bool d = (Err e, d1) \<Longrightarrow> readdir_loop lim ver names cookie d = (Err e, d1)"
  "read_bool d = (Ok False, d1) \<Longrightarrow> readdir_loop lim ver names cookie d =
     and_then read_bool (\<lambda>eof. ok \<lparr> page_entries = names, page_eof = eof, page_verifier = ver,
       last_cookie = cookie \<rparr>) d1"
  "read_bool d = (Ok True, d1) \<Longrightarrow> length names = lim \<Longrightarrow> readdir_loop lim ver names cookie d =
     (Ok \<lparr> page_entries = names, page_eof = False, page_verifier = ver, last_cookie = cookie \<rparr>, d1)"
  "read_bool d = (Ok True, d1) \<Longrightarrow> length names \<noteq> lim \<Longrightarrow> readdir_entry d1 = (Err e, d2) \<Longrightarrow>
     readdir_loop lim ver names cookie d = (Err e, d2)"
  "read_bool d = (Ok True, d1) \<Longrightarrow> length names \<noteq> lim \<Longrightarrow> readdir_entry d1 = (Ok (cookie', name), d2) \<Longrightarrow>
     readdir_loop lim ver names cookie d =
       readdir_loop lim ver (case name of Some n \<Rightarrow> names @ [n] | None \<Rightarrow> names) cookie' d2"
  by (subst readdir_loop.simps; simp)+

lemma readdir_entry_visible:
  assumes "readdir_entry d = (Ok (cookie, Some n), d')"
  shows "n \<noteq> ''.'' \<and> n \<noteq> ''..''"
proof -
  from assms obtain d1 d2 where "read_string_unless is_dot_readdir_name d1 = (Ok (Some n), d2)"
    by (auto simp: readdir_entry_def elim!: and_then_OkE)
  then obtain v where "\<not> is_dot_readdir_name v" "n = from_bytes v"
    by (auto simp: read_string_unless_def Let_def elim!: and_then_OkE split: if_splits)
  then show ?thesis by (metis as_bytes_from_bytes is_dot_readdir_name_def)
qed

lemma readdir_loop_page:
  assumes "readdir_loop lim ver names cookie d = (Ok page, d')"
    and "length names \<le> lim" and "\<forall>n \<in> set names. n \<noteq> ''.'' \<and> n \<noteq> ''..''"
  shows "length (page_entries page) \<le> lim \<and> page_verifier page = ver \<and>
    (\<forall>n \<in> set (page_entries page). n \<noteq> ''.'' \<and> n \<noteq> ''..'')"
  using assms
proof (induction d arbitrary: names cookie rule: length_induct)
  case (1 d)
  obtain r d1 where b: "read_bool d = (r, d1)" by fastforce
  show ?case
  proof (cases r)
    case (Ok has_entry)
    show ?thesis
    proof (cases "has_entry \<and> length names \<noteq> lim")
      case True
      then have b': "read_bool d = (Ok True, d1)" using b Ok by simp
      obtain q d2 where e: "readdir_entry d1 = (q, d2)" by fastforce
      have "\<exists>cookie' name. q = Ok (cookie', name)"
        using readdir_loop_steps(4) [OF b', of names lim _ d2 ver cookie] 1(2) True e
          safe_not_Panic [OF safe_readdir_entry, of d1 d2]
        by (cases q) simp_all
      then obtain cookie' name where q: "readdir_entry d1 = (Ok (cookie', name), d2)" using e by blast
      let ?names = "case name of Some n \<Rightarrow> names @ [n] | None \<Rightarrow> names"
      have "readdir_loop lim ver ?names cookie' d2 = (Ok page, d')"
        using readdir_loop_steps(5) [OF b' _ q] 1(2) True by simp
      moreover have "length d2 < length d"
        using read_bool_Ok_length [OF b'] safe_length [OF safe_readdir_entry q] by simp
      moreover have "length ?names \<le> lim" using True 1(3) by (cases name) auto
      moreover have "\<forall>n \<in> set ?names. n \<noteq> ''.'' \<and> n \<noteq> ''..''"
        using 1(4) readdir_entry_visible [of d1 cookie' _ d2] q by (cases name) auto
      ultimately show ?thesis using 1(1) [rule_format, of d2 ?names cookie'] by blast
    next
      case False
      then have "page_entries page = names \<and> page_verifier page = ver"
        using 1(2) b Ok readdir_loop_steps(3) [of d d1 names lim ver cookie]
          readdir_loop_steps(2) [of d d1 lim ver names cookie]
        by (cases has_entry) (auto simp: and_then_Ok)
      then show ?thesis using 1(3,4) by simp
    qed
  next
    case (Err e)
    then show ?thesis using 1(2) b readdir_loop_steps(1) [of d e d1] by simp
  next
    case Panic
    then show ?thesis using b safe_not_Panic [OF safe_read_bool] by blast
  qed
qed

lemma decode_readdir_page:
  assumes "decode_readdir max_entries d = (Ok page, d')"
  shows "(case max_entries of Some n \<Rightarrow> length (page_entries page) \<le> n | None \<Rightarrow> True) \<and>
    length (page_verifier page) = 8 \<and> (\<forall>n \<in> set (page_entries page). n \<noteq> ''.'' \<and> n \<noteq> ''..'')"
proof -
  from assms obtain ver d1 where v: "read_bytes 8 d = (Ok ver, d1)"
      "readdir_loop (case max_entries of Some n \<Rightarrow> n | None \<Rightarrow> usize_max) ver [] 0 d1 = (Ok page, d')"
    by (auto simp: decode_readdir_def Let_def elim!: and_then_OkE)
  then have "length ver = 8" by (auto simp: read_bytes_eq split: if_splits)
  with readdir_loop_page [OF v(2)] show ?thesis by (auto split: option.splits)
qed

text \<open>A READDIR result with no attributes requested, as the server encodes it.\<close>

definition dir_entry_wire :: "u64 \<times> string \<Rightarrow> bytes" where
  "dir_entry_wire e = (case e of (cookie, name) \<Rightarrow>
     be_bytes 4 (1 :: u32) @ be_bytes 8 cookie @ opaque_wire (as_bytes name) @
     be_bytes 4 (0 :: u32) @ be_bytes 4 (0 :: u32))"

definition readdir_wire :: "bytes \<Rightarrow> (u64 \<times> string) list \<Rightarrow> bool \<Rightarrow> bytes" where
  "readdir_wire verifier es eof =
     verifier @ concat (map dir_entry_wire es) @ be_bytes 4 (0 :: u32) @ be_bytes 4 (of_bool eof :: u32)"

definition visible_names :: "(u64 \<times> string) list \<Rightarrow> string list" where
  "visible_names es = filter (\<lambda>n. n \<noteq> ''.'' \<and> n \<noteq> ''..'') (map snd es)"

lemma as_bytes_inject [simp]: "as_bytes a = as_bytes b \<longleftrightarrow> a = b"
  by (metis from_bytes_as_bytes)

lemma read_bool_wire [simp]:
  "read_bool (be_bytes 4 (0 :: u32) @ rest) = (Ok False, rest)"
  "read_bool (be_bytes 4 (1 :: u32) @ rest) = (Ok True, rest)"
  "read_bool (be_bytes 4 (of_bool b :: u32) @ rest) = (Ok b, rest)"
  by (simp_all add: read_bool_eq)

lemma skip_empty_fattr [simp]:
  "skip_fattr (be_bytes 4 (0 :: u32) @ be_bytes 4 (0 :: u32) @ rest) = (Ok (), rest)"
  by (simp add: skip_fattr_def skip_bitmap_def skip_bitmap_after_len_def require_bitmap_words_def
      remaining_def and_then_def checked_mul_def skip_opaque_def after_require_run)

lemma readdir_entry_wire:
  assumes "length name \<le> u32_max" and "utf8_valid (as_bytes name)"
  shows "readdir_entry (be_bytes 8 cookie @ opaque_wire (as_bytes name) @
           be_bytes 4 (0 :: u32) @ be_bytes 4 (0 :: u32) @ rest) =
         (Ok (cookie, if name = ''.'' \<or> name = ''..'' then None else Some name), rest)"
  using assms
  by (simp add: readdir_entry_def and_then_def read_string_unless_wire is_dot_readdir_name_def)

lemma readdir_loop_entry:
  assumes "length name \<le> u32_max" and "utf8_valid (as_bytes name)" and "length names \<noteq> lim"
  shows "readdir_loop lim ver names cookie (dir_entry_wire (c, name) @ rest) =
    readdir_loop lim ver (if name = ''.'' \<or> name = ''..'' then names else names @ [name]) c rest"
  using assms readdir_entry_wire [of name c rest]
  by (subst readdir_loop.simps) (simp add: dir_entry_wire_def)

lemma readdir_loop_wire:
  assumes "\<And>e. e \<in> set es \<Longrightarrow> length (snd e) \<le> u32_max \<and> utf8_valid (as_bytes (snd e))"
    and "length names + length es < lim"
  shows "readdir_loop lim ver names cookie
      (concat (map dir_entry_wire es) @ be_bytes 4 (0 :: u32) @ be_bytes 4 (of_bool eof :: u32) @ rest) =
    (Ok \<lparr> page_entries = names @ visible_names es, page_eof = eof, page_verifier = ver,
          last_cookie = (if es = [] then cookie else fst (last es)) \<rparr>, rest)"
  using assms
proof (induction es arbitrary: names cookie)
  case Nil
  then show ?case by (subst readdir_loop.simps) (simp add: and_then_def visible_names_def)
next
  case (Cons e es)
  obtain c name where e: "e = (c, name)" by fastforce
  let ?rest = "concat (map dir_entry_wire es) @ be_bytes 4 (0 :: u32) @ be_bytes 4 (of_bool eof :: u32) @ rest"
  let ?names = "if name = ''.'' \<or> name = ''..'' then names else names @ [name]"
  have "readdir_loop lim ver names cookie (dir_entry_wire e @ ?rest) = readdir_loop lim ver ?names c ?rest"
    unfolding e using Cons.prems(1) [of e] Cons.prems(2) e by (intro readdir_loop_entry) auto
  also have "\<dots> = (Ok \<lparr> page_entries = ?names @ visible_names es, page_eof = eof, page_verifier = ver,
          last_cookie = (if es = [] then c else fst (last es)) \<rparr>, rest)"
    using Cons by (intro Cons.IH) auto
  finally show ?case by (simp add: e visible_names_def)
qed

subsection \<open>Session set-up\<close>

lemma decode_channel_attrs_nonzero:
  assumes "decode_channel_attrs d = (Ok attrs, d')"
  shows "0 < ca_max_request_size attrs \<and> 0 < ca_max_response_size attrs \<and>
    0 < maxoperations attrs \<and> 0 < maxrequests attrs"
  using assms
  by (auto simp: decode_channel_attrs_def nonzero_channel_limit_def word_gt_0
      elim!: and_then_OkE split: if_splits)

lemma decode_create_session_limits:
  assumes "decode_create_session seq minimum d = (Ok res, d')"
  shows "length (cs_sessionid res) = 16 \<and> 2 \<le> maxoperations (fore_attrs res) \<and>
    minimum \<le> unat (ca_max_request_size (fore_attrs res)) \<and>
    MIN_SEQUENCE_COMPOUND_RESPONSE_SIZE \<le> ca_max_response_size (fore_attrs res) \<and>
    0 < maxrequests (fore_attrs res)"
proof -
  from assms obtain session d1 w d2 fore d3 where r: "read_bytes 16 d = (Ok session, d1)"
      "decode_channel_attrs d2 = (Ok fore, d3)" "validate_fore_channel_minimums fore minimum = Ok ()"
      "res = \<lparr> cs_sessionid = session, fore_attrs = fore \<rparr>"
    by (auto simp: decode_create_session_def elim!: and_then_OkE split: if_splits)
  then have "length session = 16" by (auto simp: read_bytes_eq split: if_splits)
  then show ?thesis using r decode_channel_attrs_nonzero [OF r(2)]
    by (auto simp: validate_fore_channel_minimums_def not_less split: if_splits)
qed

subsection \<open>Properties\<close>

text \<open>
  C26. The attribute fast paths are the general decoder: for every bitmap word, decoding through the
  single-word dispatch gives the same attributes and leaves the same bytes as the general
  attribute loop, and fails exactly when it fails.
\<close>

theorem fattr_fast_path_equivalent:
  "same_up_to_error (decode_fattr_single_bitmap_word w d) (decode_fattr_values (bitmap_inline_word w) d)"
  by (rule decode_fattr_single_bitmap_word_generic)

text \<open>
  C32. The SEQUENCE status flags a session goes on with are exactly the callback, GSS-context and
  device notifications and, before RECLAIM_COMPLETE, the restart notice; and the check is
  monotone, so flags that were fatal once stay fatal after more flags are latched and after
  RECLAIM_COMPLETE.
\<close>

theorem sequence_flags_usable:
  "(validate_sequence_status_flags flags rc = Ok () \<longleftrightarrow>
      (\<forall>i. bit flags i \<longrightarrow> i \<in> {0, 1, 2, 9, 11, 12} \<or> (i = 8 \<and> \<not> rc))) \<and>
   ((rc \<longrightarrow> rc') \<and> validate_sequence_status_flags flags rc \<noteq> Ok () \<longrightarrow>
      validate_sequence_status_flags (latched OR flags) rc' \<noteq> Ok ())"
  using validate_sequence_status_flags_Ok [of flags rc] validate_flags_antimono [of latched flags rc' rc]
  by (auto simp: harmless_flag_def)

theorem sequence_flags_usable_witness:
  "validate_sequence_status_flags (0x1 OR 0x80) True \<noteq> Ok () \<and> validate_sequence_status_flags 0x80 False \<noteq> Ok ()"
proof -
  have bad: "validate_sequence_status_flags 0x80 False \<noteq> Ok ()" by code_simp
  then show ?thesis using sequence_flags_usable [where flags = "0x80" and rc = False and rc' = True and latched = "0x1"] by simp
qed

text \<open>
  C31. A SEQUENCE result is accepted exactly when it echoes the session, sequence and slot of the
  request, and then yields the slot limits and flags the server sent.
\<close>

theorem sequence_result_checked:
  assumes "length tag \<le> u32_max" and "length rs < u32_max" and "length sid' = 16"
  shows "decode_sequence_result (compound_reply status tag
      ((op_u32 OpCode.Sequence, status_OK, sequence_body sid' seq' slot' hi tgt fl) # rs)) sid seq slot = Ok res \<longleftrightarrow>
    sid' = sid \<and> seq' = seq \<and> slot' = slot \<and>
    res = \<lparr> seq_highest_slotid = hi, seq_target_highest_slotid = tgt, seq_status_flags = fl \<rparr>"
  using decode_sequence_result_wire [OF assms] by auto

theorem sequence_result_checked_witness:
  "decode_sequence_result (compound_reply 0 []
      [(op_u32 OpCode.Sequence, status_OK, sequence_body (replicate 16 1) 5 2 7 7 0)]) (replicate 16 1) 5 2 =
    Ok \<lparr> seq_highest_slotid = 7, seq_target_highest_slotid = 7, seq_status_flags = 0 \<rparr>"
  using sequence_result_checked [of "[]" "[]" "replicate 16 1"] by (simp add: u32_max_def)

text \<open>
  C33. A directory page is decoded completely: the decoder returns every name the server listed
  except \<open>.\<close> and \<open>..\<close>, in order, with the end-of-directory flag and the last cookie, when fewer
  entries are listed than the caller's limit.
\<close>

theorem readdir_round_trip:
  assumes "\<And>e. e \<in> set es \<Longrightarrow> length (snd e) \<le> u32_max \<and> utf8_valid (as_bytes (snd e))"
    and "length ver = 8" and "length es < (case max_entries of Some n \<Rightarrow> n | None \<Rightarrow> usize_max)"
  shows "decode_readdir max_entries (readdir_wire ver es eof @ rest) =
    (Ok \<lparr> page_entries = visible_names es, page_eof = eof, page_verifier = ver,
          last_cookie = (if es = [] then 0 else fst (last es)) \<rparr>, rest)"
  using readdir_loop_wire [of es "[]" _ ver 0 eof rest] assms
  by (simp add: decode_readdir_def and_then_def readdir_wire_def)

theorem readdir_round_trip_witness:
  "decode_readdir (Some 5) (readdir_wire (replicate 8 0) [(1, ''.''), (2, ''a'')] True) =
    (Ok \<lparr> page_entries = [''a''], page_eof = True, page_verifier = replicate 8 0, last_cookie = 2 \<rparr>, [])"
proof -
  have "length (snd e) \<le> u32_max \<and> utf8_valid (as_bytes (snd e))" if "e \<in> set [(1 :: u64, ''.''), (2, ''a'')]" for e
    using that by (auto simp: u32_max_def as_bytes_def)
  then show ?thesis
    using readdir_round_trip [of "[(1, ''.''), (2, ''a'')]" "replicate 8 0" "Some 5" True "[]"]
    by (simp add: visible_names_def)
qed

text \<open>
  Whatever bytes the server sends, a decoded directory page holds at most as many entries as
  asked for, an eight-byte verifier, and never the names \<open>.\<close> and \<open>..\<close>.
\<close>

lemma readdir_page_bounded:
  assumes "decode_readdir max_entries d = (Ok page, d')"
  shows "(case max_entries of Some n \<Rightarrow> length (page_entries page) \<le> n | None \<Rightarrow> True) \<and>
    length (page_verifier page) = 8 \<and> ''.'' \<notin> set (page_entries page) \<and> ''..'' \<notin> set (page_entries page)"
  using decode_readdir_page [OF assms] by blast

end
