(* ===== verification/Replies.thy ===== *)
theory Replies
  imports Result_Decode
begin

text \<open>
  The walk over the operation replies of a COMPOUND response (\<open>CompoundReplies\<close> and the
  \<open>decode_*_compound\<close> functions of \<open>src/nfs4/codec.rs\<close>), one definition per function of the
  source. A walk threads the record of the decoder position and the reply counters; its errors
  are \<open>CompoundDecodeError\<close>s, so that the index of the reply that failed and its status reach
  the retry decision.

  The lemmas describe every decoder by one predicate, \<open>walks\<close>: on any bytes it does not panic,
  what it consumed is a prefix of the replies the request asks for, in order and each with
  status OK, and an error that carries a status and an index names the first reply that failed.
  The \<open>shape\<close> argument of the source only occurs in messages and is left out.
\<close>

subsection \<open>Outcomes\<close>

datatype RemoveOutcome = Removed | Missing

datatype CreateDirOutcome = Created | Exists

datatype CreateDirHandleOutcome = CreatedHandle FileHandle | HandleExists

datatype 'a OpenOutcome = Opened 'a | AlreadyExists

datatype CloseShape = FileClose | RenameClose usize | LinkRemoveClose usize

definition shape_reply_count :: "CloseShape \<Rightarrow> usize" where
  "shape_reply_count shape = (case shape of
     FileClose \<Rightarrow> 3
   | RenameClose parent_lookup_count \<Rightarrow> 7 + parent_lookup_count
   | LinkRemoveClose parent_lookup_count \<Rightarrow> 8 + parent_lookup_count)"

subsection \<open>Reply headers\<close>

text \<open>\<open>into_cde\<close>: the \<open>?\<close> that turns an \<open>Error\<close> into a \<open>CompoundDecodeError\<close> by \<open>From\<close>.\<close>

definition into_cde :: "'a decoder \<Rightarrow> (XdrDecoder, CompoundDecodeError, 'a) stm" where
  "into_cde m d = (case m d of (r, d) \<Rightarrow> (map_err cde_from r, d))"

definition decode_compound_header :: "(XdrDecoder, CompoundDecodeError, u32 \<times> usize) stm" where
  "decode_compound_header =
    and_then (into_cde read_u32_skip_opaque_and_read_u32) (\<lambda>(compound_status, reply_count).
    and_then (into_cde remaining) (\<lambda>left.
    if unat reply_count > left div 8
    then fail (cde_from (Xdr ''compound reply count {reply_count} exceeds remaining XDR data''))
    else ok (compound_status, unat reply_count)))"

definition reply_count_error :: CompoundDecodeError where
  "reply_count_error = cde_from (Protocol ''{shape} compound returned {reply_count} replies, expected {expected_replies}'')"

definition validate_expected_reply_op :: "u32 \<Rightarrow> u32 \<Rightarrow> OpCode \<Rightarrow> (OpCode, CompoundDecodeError) outcome" where
  "validate_expected_reply_op op_raw status expected =
    (if op_raw = op_u32 expected then Ok expected
     else if op_raw = op_u32 OpCode.Illegal \<and> status = status_OP_ILLEGAL then Ok OpCode.Illegal
     else then_outcome (map_err cde_from (op_from_u32 op_raw)) (\<lambda>op.
       Err (cde_from (Protocol ''{shape} compound returned unexpected {op:?} reply, expected {expected:?}''))))"

definition decode_expected_op :: "OpCode \<Rightarrow> (XdrDecoder, CompoundDecodeError, unit) stm" where
  "decode_expected_op expected =
    and_then (into_cde read_u32_pair) (\<lambda>(op_raw, status).
    and_then (lift (validate_expected_reply_op op_raw status expected)) (\<lambda>op.
    if status \<noteq> status_OK then fail (cde_nfs status op) else ok ()))"

definition decode_expected_op_or_exist :: "OpCode \<Rightarrow> (XdrDecoder, CompoundDecodeError, bool) stm" where
  "decode_expected_op_or_exist expected =
    and_then (into_cde read_u32_pair) (\<lambda>(op_raw, status).
    and_then (lift (validate_expected_reply_op op_raw status expected)) (\<lambda>op.
    if status \<noteq> status_OK then
      (if op = expected \<and> status = status_EXIST then ok True else fail (cde_nfs status op))
    else ok False))"

definition decode_remove_expected_op :: "OpCode \<Rightarrow> (XdrDecoder, CompoundDecodeError, bool) stm" where
  "decode_remove_expected_op expected =
    and_then (into_cde read_u32_pair) (\<lambda>(op_raw, status).
    and_then (lift (validate_expected_reply_op op_raw status expected)) (\<lambda>op.
    if status \<noteq> status_OK then
      (if op = expected \<and> status = status_NOENT \<and>
          (expected = OpCode.PutFh \<or> expected = OpCode.Lookup \<or> expected = OpCode.Remove)
       then ok True else fail (cde_nfs status op))
    else ok False))"

subsection \<open>The reply walker\<close>

record CompoundReplies =
  rep_dec :: XdrDecoder
  rep_status :: u32
  rep_count :: usize
  expected_replies :: usize
  decoded :: usize

type_synonym 'a walk = "(CompoundReplies, CompoundDecodeError, 'a) stm"

definition replies_new :: "bytes \<Rightarrow> usize \<Rightarrow> (CompoundReplies, CompoundDecodeError) outcome" where
  "replies_new bs expected = (case decode_compound_header bs of
     (Ok (status, reply_count), d) \<Rightarrow>
       if reply_count > expected then Err reply_count_error
       else Ok \<lparr> rep_dec = d, rep_status = status, rep_count = reply_count,
                 expected_replies = expected, decoded = 0 \<rparr>
   | (Err e, d) \<Rightarrow> Err e
   | (Panic, d) \<Rightarrow> Panic)"

text \<open>\<open>on_dec\<close>: a decoder run on \<open>replies.dec\<close>, its error converted by \<open>?\<close>.\<close>

definition on_dec :: "'a decoder \<Rightarrow> 'a walk" where
  "on_dec m r = (case into_cde m (rep_dec r) of (x, d) \<Rightarrow> (x, r\<lparr> rep_dec := d \<rparr>))"

definition advance_with :: "(XdrDecoder, CompoundDecodeError, 'a) stm \<Rightarrow> 'a option walk" where
  "advance_with decode r =
    (if rep_count r \<le> decoded r then (Ok None, r)
     else (case decode (rep_dec r) of
         (Ok out, d) \<Rightarrow> (Ok (Some out), r\<lparr> rep_dec := d, decoded := decoded r + 1 \<rparr>)
       | (Err e, d) \<Rightarrow> (Err (at_reply (decoded r) e), r\<lparr> rep_dec := d \<rparr>)
       | (Panic, d) \<Rightarrow> (Panic, r\<lparr> rep_dec := d \<rparr>)))"

definition advance :: "OpCode \<Rightarrow> bool walk" where
  "advance op = and_then (advance_with (decode_expected_op op)) (\<lambda>present. ok (present \<noteq> None))"

definition walk_sequence :: "unit walk" where
  "walk_sequence =
    and_then (advance OpCode.Sequence) (\<lambda>present.
    if present then on_dec skip_sequence_data else ok ())"

definition walk_result :: "OpCode \<Rightarrow> 'a decoder \<Rightarrow> 'a option walk" where
  "walk_result op decode =
    and_then (advance op) (\<lambda>present.
    if \<not> present then ok None
    else and_then (on_dec decode) (\<lambda>v. ok (Some v)))"

definition walk_getfh :: "FileHandle option walk" where
  "walk_getfh = walk_result OpCode.GetFh decode_file_handle"

definition open_stateid_or_exists :: "StateId OpenOutcome option walk" where
  "open_stateid_or_exists =
    and_then (advance_with (decode_expected_op_or_exist OpCode.Open)) (\<lambda>r. case r of
      None \<Rightarrow> ok None
    | Some exists \<Rightarrow>
        if exists then ok (Some AlreadyExists)
        else and_then (on_dec decode_open_stateid) (\<lambda>stateid. ok (Some (Opened stateid))))"

fun lookups :: "usize \<Rightarrow> unit walk" where
  "lookups 0 = ok ()"
| "lookups (Suc n) =
    and_then (advance OpCode.Lookup) (\<lambda>present. if \<not> present then ok () else lookups n)"

definition rename_publish :: "bool walk" where
  "rename_publish =
    and_then (advance OpCode.Rename) (\<lambda>present.
    if \<not> present then ok False
    else and_then (on_dec skip_change_info) (\<lambda>_.
         and_then (on_dec skip_change_info) (\<lambda>_. ok True)))"

definition link_remove_publish :: "usize \<Rightarrow> bool walk" where
  "link_remove_publish parent_lookup_count =
    and_then (advance OpCode.SaveFh) (\<lambda>_.
    and_then (advance OpCode.PutFh) (\<lambda>_.
    and_then (lookups parent_lookup_count) (\<lambda>_.
    and_then (advance OpCode.Link) (\<lambda>linked.
    and_then (if linked then on_dec skip_change_info else ok ()) (\<lambda>_.
    and_then (advance OpCode.Remove) (\<lambda>removed.
    if \<not> removed then ok False
    else and_then (on_dec skip_change_info) (\<lambda>_. ok True)))))))"

definition walk_finish :: "unit walk" where
  "walk_finish r =
    (if decoded r < rep_count r then (Err reply_count_error, r)
     else if rep_status r \<noteq> status_OK then (Err (cde_nfs (rep_status r) OpCode.Illegal), r)
     else (Ok (), r))"

text \<open>\<open>missing op\<close>: the error of \<open>ok_or_else\<close> after \<open>finish\<close>, when a reply never came.\<close>

definition require_result :: "string \<Rightarrow> 'a option \<Rightarrow> 'a walk" where
  "require_result message x = lift (ok_or (cde_from (Protocol message)) x)"

definition missing_publish_result :: CompoundDecodeError where
  "missing_publish_result = cde_from (Protocol ''compound response did not include the publish result'')"

text \<open>\<open>with_replies\<close>: \<open>CompoundReplies::new\<close> followed by the body of the decoder.\<close>

definition with_replies :: "bytes \<Rightarrow> usize \<Rightarrow> 'a walk \<Rightarrow> ('a, CompoundDecodeError) outcome" where
  "with_replies bs expected body = then_outcome (replies_new bs expected) (\<lambda>r. fst (body r))"

subsection \<open>The compound decoders\<close>

definition decode_setup_compound :: "bytes \<Rightarrow> OpCode \<Rightarrow> 'a decoder \<Rightarrow> 'a result" where
  "decode_setup_compound bs expected decode =
    map_err err_error (with_replies bs 1 (
      and_then (walk_result expected decode) (\<lambda>r.
      and_then walk_finish (\<lambda>_.
      require_result ''compound response did not include {shape} result'' r))))"

definition decode_exchange_id_compound :: "bytes \<Rightarrow> ExchangeIdResult result" where
  "decode_exchange_id_compound bs = decode_setup_compound bs OpCode.ExchangeId decode_exchange_id"

definition decode_create_session_compound :: "bytes \<Rightarrow> u32 \<Rightarrow> usize \<Rightarrow> CreateSessionResult result" where
  "decode_create_session_compound bs expected_sequenceid minimum_request_size =
    decode_setup_compound bs OpCode.CreateSession (decode_create_session expected_sequenceid minimum_request_size)"

definition decode_no_result_compound :: "bytes \<Rightarrow> OpCode \<Rightarrow> (unit, CompoundDecodeError) outcome" where
  "decode_no_result_compound bs expected =
    with_replies bs 2 (
      and_then walk_sequence (\<lambda>_.
      and_then (advance expected) (\<lambda>saw_expected.
      and_then walk_finish (\<lambda>_.
      if saw_expected then ok ()
      else fail (cde_from (Protocol ''compound response did not include {expected:?} result''))))))"

definition decode_read_compound :: "bytes \<Rightarrow> (ReadData, CompoundDecodeError) outcome" where
  "decode_read_compound bs =
    with_replies bs 3 (
      and_then walk_sequence (\<lambda>_.
      and_then (advance OpCode.PutFh) (\<lambda>_.
      and_then (walk_result OpCode.Read decode_read_data) (\<lambda>read.
      and_then walk_finish (\<lambda>_.
      require_result ''compound response did not include READ result'' read)))))"

definition decode_read_path_compound :: "bytes \<Rightarrow> usize \<Rightarrow> (ReadData, CompoundDecodeError) outcome" where
  "decode_read_path_compound bs lookup_count =
    with_replies bs (3 + lookup_count) (
      and_then walk_sequence (\<lambda>_.
      and_then (advance OpCode.PutFh) (\<lambda>_.
      and_then (lookups lookup_count) (\<lambda>_.
      and_then (walk_result OpCode.Read decode_read_data) (\<lambda>read.
      and_then walk_finish (\<lambda>_.
      require_result ''compound response did not include READ result'' read))))))"

text \<open>The COMMIT reply of a fused PUT: its verifier is compared with the one of the WRITE.\<close>

definition fused_put_commit :: "WriteData option \<Rightarrow> unit walk" where
  "fused_put_commit write =
    and_then (advance OpCode.Commit) (\<lambda>present.
    if \<not> present then ok ()
    else and_then (on_dec (read_bytes 8)) (\<lambda>commit_verifier.
         and_then (require_result ''fused PUT response included COMMIT without a WRITE result'' write) (\<lambda>write.
         if requires_commit write
         then lift (map_err cde_from (ensure_write_verifier (write_verifier write) commit_verifier))
         else ok ())))"

definition fused_put_publish :: "usize \<Rightarrow> bool \<Rightarrow> bool walk" where
  "fused_put_publish parent_lookup_count create_new =
    and_then (advance OpCode.Verify) (\<lambda>_.
    if create_new then link_remove_publish parent_lookup_count
    else and_then (advance OpCode.RestoreFh) (\<lambda>_. rename_publish))"

definition fused_put_open :: "usize \<Rightarrow> bool \<Rightarrow> StateId OpenOutcome option walk" where
  "fused_put_open parent_lookup_count create_new =
    and_then walk_sequence (\<lambda>_.
    and_then (advance OpCode.PutFh) (\<lambda>_.
    and_then (lookups parent_lookup_count) (\<lambda>_.
    and_then (if \<not> create_new then advance OpCode.SaveFh else ok False) (\<lambda>_.
    open_stateid_or_exists))))"

definition fused_put_results ::
  "usize \<Rightarrow> bool \<Rightarrow> StateId option \<Rightarrow> (StateId \<times> FileHandle \<times> WriteData) OpenOutcome walk" where
  "fused_put_results parent_lookup_count create_new stateid =
    and_then walk_getfh (\<lambda>handle.
    and_then (walk_result OpCode.Write decode_write_data) (\<lambda>write.
    and_then (fused_put_commit write) (\<lambda>_.
    and_then (fused_put_publish parent_lookup_count create_new) (\<lambda>published.
    and_then walk_finish (\<lambda>_.
    if \<not> published then fail missing_publish_result
    else
    and_then (require_result ''compound response did not include OPEN result'' stateid) (\<lambda>stateid.
    and_then (require_result ''compound response did not include GETFH result'' handle) (\<lambda>handle.
    and_then (require_result ''compound response did not include WRITE result'' write) (\<lambda>write.
    ok (Opened (stateid, handle, write))))))))))"

definition decode_fused_put_compound ::
  "bytes \<Rightarrow> usize \<Rightarrow> bool \<Rightarrow> ((StateId \<times> FileHandle \<times> WriteData) OpenOutcome, CompoundDecodeError) outcome" where
  "decode_fused_put_compound bs parent_lookup_count create_new =
    (let expected = (if create_new then 11 + 2 * parent_lookup_count else 10 + parent_lookup_count) in
     with_replies bs expected (
      and_then (fused_put_open parent_lookup_count create_new) (\<lambda>opened. case opened of
        Some AlreadyExists \<Rightarrow> ok AlreadyExists
      | Some (Opened stateid) \<Rightarrow> fused_put_results parent_lookup_count create_new (Some stateid)
      | None \<Rightarrow> fused_put_results parent_lookup_count create_new None)))"

definition decode_read_path_handle_compound ::
  "bytes \<Rightarrow> usize \<Rightarrow> (FileHandle \<times> ReadData, CompoundDecodeError) outcome" where
  "decode_read_path_handle_compound bs lookup_count =
    with_replies bs (4 + lookup_count) (
      and_then walk_sequence (\<lambda>_.
      and_then (advance OpCode.PutFh) (\<lambda>_.
      and_then (lookups lookup_count) (\<lambda>_.
      and_then walk_getfh (\<lambda>handle.
      and_then (walk_result OpCode.Read decode_read_data) (\<lambda>read.
      and_then walk_finish (\<lambda>_.
      and_then (require_result ''compound response did not include GETFH result'' handle) (\<lambda>handle.
      and_then (require_result ''compound response did not include READ result'' read) (\<lambda>read.
      ok (handle, read))))))))))"

definition decode_read_path_size_compound ::
  "bytes \<Rightarrow> usize \<Rightarrow> (FileHandle \<times> u64 \<times> ReadData, CompoundDecodeError) outcome" where
  "decode_read_path_size_compound bs lookup_count =
    with_replies bs (5 + lookup_count) (
      and_then walk_sequence (\<lambda>_.
      and_then (advance OpCode.PutFh) (\<lambda>_.
      and_then (lookups lookup_count) (\<lambda>_.
      and_then walk_getfh (\<lambda>handle.
      and_then (walk_result OpCode.GetAttr decode_fattr) (\<lambda>attrs.
      (let size_result = Option.bind attrs attr_size in
      and_then (walk_result OpCode.Read decode_read_data) (\<lambda>read.
      and_then walk_finish (\<lambda>_.
      and_then (require_result ''compound response did not include GETFH result'' handle) (\<lambda>handle.
      and_then (require_result ''compound response did not include GETATTR size result'' size_result) (\<lambda>size_result.
      and_then (require_result ''compound response did not include READ result'' read) (\<lambda>read.
      ok (handle, size_result, read)))))))))))))"

definition decode_getfh_compound ::
  "bytes \<Rightarrow> OpCode \<Rightarrow> usize \<Rightarrow> (FileHandle, CompoundDecodeError) outcome" where
  "decode_getfh_compound bs start_op lookup_count =
    with_replies bs (3 + lookup_count) (
      and_then walk_sequence (\<lambda>_.
      and_then (advance start_op) (\<lambda>_.
      and_then (lookups lookup_count) (\<lambda>_.
      and_then walk_getfh (\<lambda>handle.
      and_then walk_finish (\<lambda>_.
      require_result ''compound response did not include GETFH result'' handle))))))"

definition decode_getfh_attrs_compound ::
  "bytes \<Rightarrow> usize \<Rightarrow> AttrRequest \<Rightarrow> (FileHandle \<times> FileAttrs, CompoundDecodeError) outcome" where
  "decode_getfh_attrs_compound bs lookup_count attr_request =
    with_replies bs (4 + lookup_count) (
      and_then walk_sequence (\<lambda>_.
      and_then (advance OpCode.PutFh) (\<lambda>_.
      and_then (lookups lookup_count) (\<lambda>_.
      and_then walk_getfh (\<lambda>handle.
      and_then (walk_result OpCode.GetAttr decode_fattr) (\<lambda>attrs.
      and_then walk_finish (\<lambda>_.
      and_then (require_result ''compound response did not include GETFH result'' handle) (\<lambda>handle.
      (let attrs = (case attrs of Some a \<Rightarrow> a | None \<Rightarrow> \<lparr> attr_file_type = None, attr_size = None \<rparr>) in
      and_then (lift (map_err cde_from (validate_file_attrs attr_request attrs))) (\<lambda>_.
      ok (handle, attrs)))))))))))"

definition decode_open_file_compound ::
  "bytes \<Rightarrow> usize \<Rightarrow> ((StateId \<times> FileHandle) OpenOutcome, CompoundDecodeError) outcome" where
  "decode_open_file_compound bs parent_lookup_count =
    with_replies bs (4 + parent_lookup_count) (
      and_then walk_sequence (\<lambda>_.
      and_then (advance OpCode.PutFh) (\<lambda>_.
      and_then (lookups parent_lookup_count) (\<lambda>_.
      and_then open_stateid_or_exists (\<lambda>opened.
      case opened of Some AlreadyExists \<Rightarrow> ok AlreadyExists
      | _ \<Rightarrow>
      (let stateid = (case opened of Some (Opened s) \<Rightarrow> Some s | _ \<Rightarrow> None) in
      and_then walk_getfh (\<lambda>handle.
      and_then walk_finish (\<lambda>_.
      and_then (require_result ''compound response did not include OPEN result'' stateid) (\<lambda>stateid.
      and_then (require_result ''compound response did not include GETFH result'' handle) (\<lambda>handle.
      ok (Opened (stateid, handle))))))))))))"

definition close_commit :: "bytes option \<Rightarrow> unit walk" where
  "close_commit commit_verifier = (case commit_verifier of
     None \<Rightarrow> ok ()
   | Some expected_verifier \<Rightarrow>
       and_then (advance OpCode.Commit) (\<lambda>present.
       if \<not> present then ok ()
       else and_then (on_dec (read_bytes 8)) (\<lambda>actual.
            lift (map_err cde_from (ensure_write_verifier expected_verifier actual)))))"

definition close_publish :: "CloseShape \<Rightarrow> bool \<Rightarrow> bool walk" where
  "close_publish shape saw_close = (case shape of
     FileClose \<Rightarrow> ok saw_close
   | RenameClose parent_lookup_count \<Rightarrow>
       and_then (advance OpCode.PutFh) (\<lambda>_.
       and_then (lookups parent_lookup_count) (\<lambda>_.
       and_then (advance OpCode.SaveFh) (\<lambda>_.
       rename_publish)))
   | LinkRemoveClose parent_lookup_count \<Rightarrow> link_remove_publish parent_lookup_count)"

definition decode_close_compound ::
  "bytes \<Rightarrow> CloseShape \<Rightarrow> bytes option \<Rightarrow> (unit, CompoundDecodeError) outcome" where
  "decode_close_compound bs shape commit_verifier =
    with_replies bs (shape_reply_count shape + (if commit_verifier \<noteq> None then 1 else 0)) (
      and_then walk_sequence (\<lambda>_.
      and_then (advance OpCode.PutFh) (\<lambda>_.
      and_then (close_commit commit_verifier) (\<lambda>_.
      and_then (if shape \<noteq> FileClose then advance OpCode.Verify else ok False) (\<lambda>_.
      and_then (advance OpCode.Close) (\<lambda>saw_close.
      and_then (if saw_close then on_dec skip_stateid else ok ()) (\<lambda>_.
      and_then (close_publish shape saw_close) (\<lambda>published.
      and_then walk_finish (\<lambda>_.
      if \<not> saw_close then fail (cde_from (Protocol ''compound response did not include CLOSE result''))
      else if \<not> published then fail missing_publish_result
      else ok ())))))))))"

fun close_batch_loop :: "usize \<Rightarrow> usize \<Rightarrow> usize walk" where
  "close_batch_loop 0 decoded_closes = ok decoded_closes"
| "close_batch_loop (Suc n) decoded_closes =
    and_then (advance OpCode.PutFh) (\<lambda>_.
    and_then (advance OpCode.Close) (\<lambda>present.
    if present
    then and_then (on_dec skip_stateid) (\<lambda>_. close_batch_loop n (decoded_closes + 1))
    else close_batch_loop n decoded_closes))"

definition decode_close_batch_compound :: "bytes \<Rightarrow> usize \<Rightarrow> (unit, CompoundDecodeError) outcome" where
  "decode_close_batch_compound bs close_count =
    with_replies bs (saturating_add 1 (saturating_mul close_count 2)) (
      and_then walk_sequence (\<lambda>_.
      and_then (close_batch_loop close_count 0) (\<lambda>decoded_closes.
      and_then walk_finish (\<lambda>_.
      if decoded_closes \<noteq> close_count
      then fail (cde_from (Protocol ''batched CLOSE response included {decoded_closes} of {close_count} CLOSE results''))
      else ok ()))))"

definition decode_rename_publish_compound :: "bytes \<Rightarrow> usize \<Rightarrow> (unit, CompoundDecodeError) outcome" where
  "decode_rename_publish_compound bs parent_lookup_count =
    with_replies bs (4 + parent_lookup_count) (
      and_then walk_sequence (\<lambda>_.
      and_then (advance OpCode.PutFh) (\<lambda>_.
      and_then (lookups parent_lookup_count) (\<lambda>_.
      and_then (advance OpCode.SaveFh) (\<lambda>_.
      and_then rename_publish (\<lambda>published.
      and_then walk_finish (\<lambda>_.
      if published then ok () else fail missing_publish_result)))))))"

definition decode_link_remove_publish_compound :: "bytes \<Rightarrow> usize \<Rightarrow> (unit, CompoundDecodeError) outcome" where
  "decode_link_remove_publish_compound bs parent_lookup_count =
    with_replies bs (6 + parent_lookup_count) (
      and_then walk_sequence (\<lambda>_.
      and_then (advance OpCode.PutFh) (\<lambda>_.
      and_then (link_remove_publish parent_lookup_count) (\<lambda>published.
      and_then walk_finish (\<lambda>_.
      if published then ok () else fail missing_publish_result)))))"

definition decode_write_compound :: "bytes \<Rightarrow> (WriteData, CompoundDecodeError) outcome" where
  "decode_write_compound bs =
    with_replies bs 3 (
      and_then walk_sequence (\<lambda>_.
      and_then (advance OpCode.PutFh) (\<lambda>_.
      and_then (walk_result OpCode.Write decode_write_data) (\<lambda>write.
      and_then walk_finish (\<lambda>_.
      require_result ''compound response did not include WRITE result'' write)))))"

definition decode_write_commit_compound :: "bytes \<Rightarrow> (WriteData \<times> bytes, CompoundDecodeError) outcome" where
  "decode_write_commit_compound bs =
    with_replies bs 4 (
      and_then walk_sequence (\<lambda>_.
      and_then (advance OpCode.PutFh) (\<lambda>_.
      and_then (walk_result OpCode.Write decode_write_data) (\<lambda>write.
      and_then (walk_result OpCode.Commit (read_bytes 8)) (\<lambda>commit.
      and_then walk_finish (\<lambda>_.
      and_then (require_result ''compound response did not include WRITE result'' write) (\<lambda>write.
      and_then (require_result ''compound response did not include COMMIT result'' commit) (\<lambda>commit.
      ok (write, commit)))))))))"

definition decode_readdir_compound :: "bytes \<Rightarrow> usize option \<Rightarrow> (DirPage, CompoundDecodeError) outcome" where
  "decode_readdir_compound bs max_entries =
    with_replies bs 3 (
      and_then walk_sequence (\<lambda>_.
      and_then (advance OpCode.PutFh) (\<lambda>_.
      and_then (walk_result OpCode.ReadDir (decode_readdir max_entries)) (\<lambda>page.
      and_then walk_finish (\<lambda>_.
      require_result ''compound response did not include READDIR result'' page)))))"

definition decode_readdir_path_compound ::
  "bytes \<Rightarrow> usize option \<Rightarrow> usize \<Rightarrow> (FileHandle \<times> DirPage, CompoundDecodeError) outcome" where
  "decode_readdir_path_compound bs max_entries parent_lookup_count =
    with_replies bs (4 + parent_lookup_count) (
      and_then walk_sequence (\<lambda>_.
      and_then (advance OpCode.PutFh) (\<lambda>_.
      and_then (lookups parent_lookup_count) (\<lambda>_.
      and_then walk_getfh (\<lambda>handle.
      and_then (walk_result OpCode.ReadDir (decode_readdir max_entries)) (\<lambda>page.
      and_then walk_finish (\<lambda>_.
      and_then (require_result ''compound response did not include GETFH result'' handle) (\<lambda>handle.
      and_then (require_result ''compound response did not include READDIR result'' page) (\<lambda>page.
      ok (handle, page))))))))))"

definition decode_readdir_path_without_handle_compound ::
  "bytes \<Rightarrow> usize option \<Rightarrow> usize \<Rightarrow> (DirPage, CompoundDecodeError) outcome" where
  "decode_readdir_path_without_handle_compound bs max_entries parent_lookup_count =
    with_replies bs (3 + parent_lookup_count) (
      and_then walk_sequence (\<lambda>_.
      and_then (advance OpCode.PutFh) (\<lambda>_.
      and_then (lookups parent_lookup_count) (\<lambda>_.
      and_then (walk_result OpCode.ReadDir (decode_readdir max_entries)) (\<lambda>page.
      and_then walk_finish (\<lambda>_.
      require_result ''compound response did not include READDIR result'' page))))))"

definition decode_create_dir_compound :: "bytes \<Rightarrow> usize \<Rightarrow> (CreateDirOutcome, CompoundDecodeError) outcome" where
  "decode_create_dir_compound bs parent_lookup_count =
    with_replies bs (3 + parent_lookup_count) (
      and_then walk_sequence (\<lambda>_.
      and_then (advance OpCode.PutFh) (\<lambda>_.
      and_then (lookups parent_lookup_count) (\<lambda>_.
      and_then (advance_with (decode_expected_op_or_exist OpCode.Create)) (\<lambda>r.
      if r = Some True then ok Exists
      else
      and_then (if r = Some False
                then and_then (on_dec skip_change_info) (\<lambda>_.
                     and_then (on_dec skip_bitmap) (\<lambda>_. ok (Some Created)))
                else ok None) (\<lambda>created.
      and_then walk_finish (\<lambda>_.
      require_result ''compound response did not include CREATE result'' created)))))))"

definition decode_create_dir_handle_compound ::
  "bytes \<Rightarrow> usize \<Rightarrow> (CreateDirHandleOutcome, CompoundDecodeError) outcome" where
  "decode_create_dir_handle_compound bs parent_lookup_count =
    with_replies bs (4 + parent_lookup_count) (
      and_then walk_sequence (\<lambda>_.
      and_then (advance OpCode.PutFh) (\<lambda>_.
      and_then (lookups parent_lookup_count) (\<lambda>_.
      and_then (advance_with (decode_expected_op_or_exist OpCode.Create)) (\<lambda>r.
      if r = Some True then ok HandleExists
      else
      and_then (if r = Some False
                then and_then (on_dec skip_change_info) (\<lambda>_. on_dec skip_bitmap)
                else ok ()) (\<lambda>_.
      and_then walk_getfh (\<lambda>handle.
      and_then walk_finish (\<lambda>_.
      require_result ''compound response did not include CREATE directory handle result''
        (map_option CreatedHandle handle)))))))))"

text \<open>The LOOKUP loop of \<open>decode_remove_compound\<close>: true when a component is missing.\<close>

fun remove_lookups :: "usize \<Rightarrow> bool walk" where
  "remove_lookups 0 = ok False"
| "remove_lookups (Suc n) =
    and_then (advance_with (decode_remove_expected_op OpCode.Lookup)) (\<lambda>r. case r of
      Some True \<Rightarrow> ok True
    | Some False \<Rightarrow> remove_lookups n
    | None \<Rightarrow> ok False)"

definition decode_remove_compound :: "bytes \<Rightarrow> usize \<Rightarrow> (RemoveOutcome, CompoundDecodeError) outcome" where
  "decode_remove_compound bs parent_lookup_count =
    with_replies bs (3 + parent_lookup_count) (
      and_then (advance_with (decode_remove_expected_op OpCode.Sequence)) (\<lambda>missing.
      if missing = Some True then ok Missing
      else
      and_then (if missing = Some False then on_dec skip_sequence_data else ok ()) (\<lambda>_.
      and_then (advance_with (decode_remove_expected_op OpCode.PutFh)) (\<lambda>missing.
      if missing = Some True then ok Missing
      else
      and_then (remove_lookups parent_lookup_count) (\<lambda>missing.
      if missing then ok Missing
      else
      and_then (advance_with (decode_remove_expected_op OpCode.Remove)) (\<lambda>missing.
      if missing = Some True then ok Missing
      else
      and_then (if missing = Some False then on_dec skip_change_info else ok ()) (\<lambda>_.
      (let removed = (missing = Some False) in
      and_then walk_finish (\<lambda>_.
      if removed then ok Removed
      else fail (cde_from (Protocol ''compound response did not include REMOVE result'')))))))))))"

named_theorems walk_intros \<open>rules for the shape of a reply walk\<close>

subsection \<open>What a walk consumes\<close>

definition replies_wire :: "OpCode list \<Rightarrow> bytes list \<Rightarrow> bytes" where
  "replies_wire ops bodies = concat (map2 (\<lambda>op body. reply_wire (op_u32 op, status_OK, body)) ops bodies)"

definition consumed :: "CompoundReplies \<Rightarrow> OpCode list \<Rightarrow> CompoundReplies \<Rightarrow> bool" where
  "consumed r ops r' \<longleftrightarrow>
     (\<exists>bodies. length bodies = length ops \<and> rep_dec r = replies_wire ops bodies @ rep_dec r') \<and>
     decoded r' = decoded r + length ops \<and> rep_count r' = rep_count r \<and> rep_status r' = rep_status r"

definition unindexed :: "CompoundDecodeError \<Rightarrow> bool" where
  "unindexed e \<longleftrightarrow> reply_index e = None \<or> err_status e = None"

definition failed_at :: "CompoundReplies \<Rightarrow> OpCode list \<Rightarrow> CompoundDecodeError \<Rightarrow> bool" where
  "failed_at r ops e \<longleftrightarrow>
     (\<forall>i st. reply_index e = Some i \<and> err_status e = Some st \<longrightarrow>
        st \<noteq> status_OK \<and> i < rep_count r \<and>
        (\<exists>k r' op rest. k < length ops \<and> i = decoded r + k \<and> consumed r (take k ops) r' \<and>
           rep_dec r' = be_bytes 4 (op :: u32) @ be_bytes 4 st @ rest))"

text \<open>
  \<open>progress r ops r' full\<close>: a prefix of \<open>ops\<close> was consumed, all of \<open>ops\<close> unless the replies ran
  out, and certainly all of them if \<open>full\<close>. \<open>walks w ops G F\<close>: every result of \<open>w\<close> in \<open>G\<close> (not an
  early return) makes such progress, full for the results in \<open>F\<close>.
\<close>

definition progress :: "CompoundReplies \<Rightarrow> OpCode list \<Rightarrow> CompoundReplies \<Rightarrow> bool \<Rightarrow> bool" where
  "progress r ops r' full \<longleftrightarrow> decoded r' \<le> rep_count r' \<and>
     (\<exists>k \<le> length ops. consumed r (take k ops) r' \<and>
        (k = length ops \<or> rep_count r \<le> decoded r') \<and> (full \<longrightarrow> k = length ops))"

definition walks :: "'a walk \<Rightarrow> OpCode list \<Rightarrow> ('a \<Rightarrow> bool) \<Rightarrow> ('a \<Rightarrow> bool) \<Rightarrow> bool" where
  "walks w ops G F \<longleftrightarrow> (\<forall>r. decoded r \<le> rep_count r \<longrightarrow>
     (case w r of
        (Ok x, r') \<Rightarrow> G x \<longrightarrow> progress r ops r' (F x)
      | (Err e, r') \<Rightarrow> failed_at r ops e
      | (Panic, r') \<Rightarrow> False))"

text \<open>A step that touches no reply counter: \<open>still\<close> leaves the bytes, \<open>eats\<close> takes some.\<close>

definition eats :: "'a walk \<Rightarrow> bool" where
  "eats m \<longleftrightarrow> (\<forall>r. case m r of
     (Ok x, r') \<Rightarrow> suffix (rep_dec r') (rep_dec r) \<and> r' = r\<lparr> rep_dec := rep_dec r' \<rparr>
   | (Err e, r') \<Rightarrow> unindexed e
   | (Panic, r') \<Rightarrow> False)"

definition still :: "'a walk \<Rightarrow> bool" where
  "still m \<longleftrightarrow> (\<forall>r. case m r of
     (Ok x, r') \<Rightarrow> r' = r
   | (Err e, r') \<Rightarrow> unindexed e
   | (Panic, r') \<Rightarrow> False)"

definition quits :: "'a walk \<Rightarrow> ('a \<Rightarrow> bool) \<Rightarrow> bool" where
  "quits m G \<longleftrightarrow> (\<forall>r. case m r of
     (Ok x, r') \<Rightarrow> \<not> G x
   | (Err e, r') \<Rightarrow> unindexed e
   | (Panic, r') \<Rightarrow> False)"

lemma consumed_refl [simp]: "consumed r [] r"
  by (simp add: consumed_def replies_wire_def)

lemma consumed_trans:
  assumes "consumed r ops r'" and "consumed r' ops' r''"
  shows "consumed r (ops @ ops') r''"
proof -
  obtain bs bs' where "length bs = length ops" "rep_dec r = replies_wire ops bs @ rep_dec r'"
    "length bs' = length ops'" "rep_dec r' = replies_wire ops' bs' @ rep_dec r''"
    using assms by (auto simp: consumed_def)
  then have "length (bs @ bs') = length (ops @ ops')"
    "rep_dec r = replies_wire (ops @ ops') (bs @ bs') @ rep_dec r''"
    by (simp_all add: replies_wire_def)
  then show ?thesis using assms unfolding consumed_def by (metis add.assoc length_append)
qed

text \<open>Bytes taken after the last reply header belong to the body of that reply.\<close>

lemma consumed_body:
  assumes "consumed r ops r'" and "ops \<noteq> []" and "suffix d (rep_dec r')"
  shows "consumed r ops (r'\<lparr> rep_dec := d \<rparr>)"
proof -
  obtain front op where ops: "ops = front @ [op]" using assms(2) rev_exhaust by blast
  obtain bs where bs: "length bs = length ops" "rep_dec r = replies_wire ops bs @ rep_dec r'"
    using assms(1) by (auto simp: consumed_def)
  then obtain bs' b where bb: "bs = bs' @ [b]" "length bs' = length front"
    using ops by (metis length_append_singleton length_Suc_conv_rev nat.inject)
  obtain more where more: "rep_dec r' = more @ d" using assms(3) by (auto simp: suffix_def)
  have "replies_wire ops (bs' @ [b @ more]) @ d = replies_wire ops bs @ rep_dec r'"
    using ops bb more by (simp add: replies_wire_def reply_wire_def)
  then show ?thesis using assms(1) bs(2) ops bb(2) unfolding consumed_def
    by (auto intro!: exI [of _ "bs' @ [b @ more]"])
qed

lemma failed_at_unindexed [simp]: "unindexed e \<Longrightarrow> failed_at r ops e"
  by (auto simp: failed_at_def unindexed_def)

lemma unindexed_cde [simp]: "unindexed (cde_from e)" "unindexed (cde_nfs st op)"
  by (simp_all add: unindexed_def cde_from_def cde_nfs_def)

lemma unindexed_errors [simp]: "unindexed reply_count_error" "unindexed missing_publish_result"
  by (simp_all add: reply_count_error_def missing_publish_result_def)

lemma failed_at_append: "failed_at r ops e \<Longrightarrow> failed_at r (ops @ ops') e"
  unfolding failed_at_def by (fastforce)

lemma failed_at_later:
  assumes "consumed r ops r'" and "failed_at r' ops' e"
  shows "failed_at r (ops @ ops') e"
  unfolding failed_at_def
proof (intro allI impI)
  fix i st
  assume e: "reply_index e = Some i \<and> err_status e = Some st"
  then obtain k r'' op rest where k: "st \<noteq> status_OK" "i < rep_count r'" "k < length ops'" "i = decoded r' + k"
    "consumed r' (take k ops') r''" "rep_dec r'' = be_bytes 4 (op :: u32) @ be_bytes 4 st @ rest"
    using assms(2) unfolding failed_at_def by blast
  have "consumed r (take (length ops + k) (ops @ ops')) r''"
    using consumed_trans [OF assms(1) k(5)] by simp
  moreover have "i = decoded r + (length ops + k)" "rep_count r' = rep_count r"
    using assms(1) k(4) by (simp_all add: consumed_def)
  ultimately show "st \<noteq> status_OK \<and> i < rep_count r \<and> (\<exists>k r' op rest. k < length (ops @ ops') \<and>
      i = decoded r + k \<and> consumed r (take k (ops @ ops')) r' \<and>
      rep_dec r' = be_bytes 4 (op :: u32) @ be_bytes 4 st @ rest)"
    using k by (metis length_append nat_add_left_cancel_less)
qed

lemma failed_at_exhausted:
  "failed_at r' ops' e \<Longrightarrow> rep_count r' \<le> decoded r' \<Longrightarrow> unindexed e"
  by (cases "reply_index e"; cases "err_status e") (fastforce simp: failed_at_def unindexed_def)+


lemma progress_trans:
  assumes "progress r ops1 r1 full1" and "progress r1 ops2 r2 full2" and "full2 \<Longrightarrow> full1 \<or> ops2 \<noteq> []"
  shows "progress r (ops1 @ ops2) r2 full2"
proof -
  obtain k1 where k1: "decoded r1 \<le> rep_count r1" "k1 \<le> length ops1" "consumed r (take k1 ops1) r1"
      "k1 = length ops1 \<or> rep_count r \<le> decoded r1" "full1 \<Longrightarrow> k1 = length ops1"
    using assms(1) by (auto simp: progress_def)
  obtain k2 where k2: "decoded r2 \<le> rep_count r2" "k2 \<le> length ops2" "consumed r1 (take k2 ops2) r2"
      "k2 = length ops2 \<or> rep_count r1 \<le> decoded r2" "full2 \<Longrightarrow> k2 = length ops2"
    using assms(2) by (auto simp: progress_def)
  have dec: "decoded r2 = decoded r1 + k2" "rep_count r2 = rep_count r1" "rep_count r1 = rep_count r"
    using k1(3) k2(2,3) by (auto simp: consumed_def)
  show ?thesis
  proof (cases "k1 = length ops1")
    case True
    have "consumed r (take (k1 + k2) (ops1 @ ops2)) r2"
      using consumed_trans [OF k1(3) k2(3)] True by simp
    then show ?thesis unfolding progress_def using k2 dec True by (intro conjI exI [of _ "k1 + k2"]) auto
  next
    case False
    then have k0: "k2 = 0" using k1(4) k2(1) dec by auto
    moreover have "consumed r (take k1 (ops1 @ ops2)) r2"
      using consumed_trans [OF k1(3) k2(3)] k1(2) k0 by simp
    moreover have "\<not> full2" using assms(3) k1(5) k2(5) False k0 by auto
    ultimately show ?thesis unfolding progress_def using k1 k2 dec False by (intro conjI exI [of _ k1]) auto
  qed
qed

lemma progress_failed:
  assumes "progress r ops1 r1 full" and "failed_at r1 ops2 e"
  shows "failed_at r (ops1 @ ops2) e"
proof -
  obtain k1 where k1: "consumed r (take k1 ops1) r1" "k1 = length ops1 \<or> rep_count r \<le> decoded r1"
    using assms(1) by (auto simp: progress_def)
  then have "rep_count r1 = rep_count r" by (simp add: consumed_def)
  then show ?thesis using k1 failed_at_later [OF k1(1) assms(2)] failed_at_exhausted [OF assms(2)]
    by (cases "k1 = length ops1") auto
qed

lemma progress_body:
  assumes "progress r ops r1 full" and "ops \<noteq> []" and "full" and "suffix d (rep_dec r1)"
  shows "progress r ops (r1\<lparr> rep_dec := d \<rparr>) full'"
  using assms consumed_body [OF _ assms(2) assms(4)] by (auto simp: progress_def)

lemma progress_mono: "progress r ops r' full \<Longrightarrow> (full' \<Longrightarrow> full) \<Longrightarrow> progress r ops r' full'"
  by (auto simp: progress_def)

text \<open>Sequencing: the replies of the first walk, then those of the second.\<close>

lemma walks_bind:
  assumes w: "walks w ops1 G1 F1" and f: "\<And>x. G1 x \<Longrightarrow> walks (f x) ops2 G2 F2"
    and q: "\<And>x. \<not> G1 x \<Longrightarrow> quits (f x) G2"
    and full: "\<And>x y r r'. f x r = (Ok y, r') \<Longrightarrow> F2 y \<Longrightarrow> F1 x \<or> ops2 \<noteq> []"
  shows "walks (and_then w f) (ops1 @ ops2) G2 F2"
  unfolding walks_def
proof (intro allI impI)
  fix r :: CompoundReplies
  assume r: "decoded r \<le> rep_count r"
  note w1 = w [unfolded walks_def, rule_format, OF r]
  obtain o1 r1 where o1: "w r = (o1, r1)" by fastforce
  consider (ok) x where "o1 = Ok x" "G1 x" | (quit) x where "o1 = Ok x" "\<not> G1 x" | (err) e where "o1 = Err e"
    using w1 o1 by (cases o1) auto
  then show "case and_then w f r of (Ok x, r') \<Rightarrow> G2 x \<longrightarrow> progress r (ops1 @ ops2) r' (F2 x)
    | (Err e, r') \<Rightarrow> failed_at r (ops1 @ ops2) e | (Panic, r') \<Rightarrow> False"
  proof cases
    case err then show ?thesis using w1 o1 by (simp add: and_then_def failed_at_append)
  next
    case quit
    then show ?thesis using q [OF quit(2), unfolded quits_def, rule_format, of r1] o1
      by (auto simp: and_then_def split: prod.splits outcome.splits)
  next
    case ok
    then have p: "progress r ops1 r1 (F1 x)" using w1 o1 by simp
    then have "decoded r1 \<le> rep_count r1" by (simp add: progress_def)
    note w2 = f [OF ok(2), unfolded walks_def, rule_format, OF this]
    obtain o2 r2 where o2: "f x r1 = (o2, r2)" by fastforce
    then show ?thesis using o1 ok w2 progress_trans [OF p, of ops2 r2] progress_failed [OF p, of ops2] full
      by (cases o2) (auto simp: and_then_def)
  qed
qed

text \<open>A body or a final check after a walk adds no reply.\<close>

lemma walks_body:
  assumes w: "walks w ops G1 F1" and ne: "ops \<noteq> []"
    and e: "\<And>x. F1 x \<Longrightarrow> eats (f x)" and s: "\<And>x. G1 x \<Longrightarrow> \<not> F1 x \<Longrightarrow> still (f x)"
    and q: "\<And>x. \<not> G1 x \<Longrightarrow> quits (f x) G2"
    and full: "\<And>x y r r'. f x r = (Ok y, r') \<Longrightarrow> F2 y \<Longrightarrow> F1 x"
  shows "walks (and_then w f) ops G2 F2"
  unfolding walks_def
proof (intro allI impI)
  fix r :: CompoundReplies
  assume r: "decoded r \<le> rep_count r"
  note w1 = w [unfolded walks_def, rule_format, OF r]
  obtain o1 r1 where o1: "w r = (o1, r1)" by fastforce
  consider (ok) x where "o1 = Ok x" "G1 x" | (quit) x where "o1 = Ok x" "\<not> G1 x" | (err) e where "o1 = Err e"
    using w1 o1 by (cases o1) auto
  then show "case and_then w f r of (Ok x, r') \<Rightarrow> G2 x \<longrightarrow> progress r ops r' (F2 x)
    | (Err e, r') \<Rightarrow> failed_at r ops e | (Panic, r') \<Rightarrow> False"
  proof cases
    case err then show ?thesis using w1 o1 by (simp add: and_then_def)
  next
    case quit
    then show ?thesis using q [OF quit(2), unfolded quits_def, rule_format, of r1] o1
      by (auto simp: and_then_def split: prod.splits outcome.splits)
  next
    case ok
    then have p: "progress r ops r1 (F1 x)" using w1 o1 by simp
    obtain o2 r2 where o2: "f x r1 = (o2, r2)" by fastforce
    show ?thesis
    proof (cases "F1 x")
      case True
      then show ?thesis
        using o1 ok o2 e [OF True, unfolded eats_def, rule_format, of r1] progress_body [OF p ne True, of "rep_dec r2"]
        by (cases o2) (auto simp: and_then_def)
    next
      case False
      then show ?thesis
        using o1 ok o2 s [OF ok(2) False, unfolded still_def, rule_format, of r1] progress_mono [OF p] full [of x r1]
        by (cases o2) (auto simp: and_then_def)
    qed
  qed
qed

subsection \<open>The steps of a walk\<close>

lemma still_ok [walk_intros]: "still (ok x)"
  by (simp add: still_def)

lemma still_fail [walk_intros]: "unindexed e \<Longrightarrow> still (fail e)"
  by (simp add: still_def)

lemma still_lift [walk_intros]: "r \<noteq> Panic \<Longrightarrow> still (lift (map_err cde_from r))"
  by (cases r) (simp_all add: still_def)

lemma still_require_result [walk_intros]: "still (require_result msg x)"
  by (cases x) (simp_all add: still_def require_result_def)

lemma still_finish [walk_intros]: "still walk_finish"
  by (simp add: still_def walk_finish_def)

lemma still_bind [walk_intros]: "still m \<Longrightarrow> (\<And>x. still (f x)) \<Longrightarrow> still (and_then m f)"
  by (fastforce simp: still_def and_then_def split: prod.splits outcome.splits)

lemma still_if [walk_intros]: "(b \<Longrightarrow> still m) \<Longrightarrow> (\<not> b \<Longrightarrow> still m') \<Longrightarrow> still (if b then m else m')"
  by simp

lemma still_eats: "still m \<Longrightarrow> eats m"
  by (fastforce simp: still_def eats_def split: prod.splits outcome.splits)

lemmas eats_still [walk_intros] =
  still_eats [OF still_ok] still_eats [OF still_fail] still_eats [OF still_lift] still_eats [OF still_require_result] still_eats [OF still_finish]

lemma eats_if [walk_intros]: "(b \<Longrightarrow> eats m) \<Longrightarrow> (\<not> b \<Longrightarrow> eats m') \<Longrightarrow> eats (if b then m else m')"
  by simp

lemma eats_on_dec [walk_intros]: "safe m \<Longrightarrow> eats (on_dec m)"
  unfolding eats_def
proof
  fix r :: CompoundReplies
  assume "safe m"
  then have "fst (m (rep_dec r)) \<noteq> Panic \<and> suffix (snd (m (rep_dec r))) (rep_dec r)" by (simp add: safe_def)
  then show "case on_dec m r of (Ok x, r') \<Rightarrow> suffix (rep_dec r') (rep_dec r) \<and> r' = r\<lparr>rep_dec := rep_dec r'\<rparr>
    | (Err e, r') \<Rightarrow> unindexed e | (Panic, r') \<Rightarrow> False"
    by (cases "m (rep_dec r)"; cases "fst (m (rep_dec r))") (auto simp: on_dec_def into_cde_def)
qed

lemma eats_bind [walk_intros]:
  assumes "eats m" and "\<And>x. eats (f x)"
  shows "eats (and_then m f)"
  unfolding eats_def
proof
  fix r :: CompoundReplies
  obtain o1 r1 where o1: "m r = (o1, r1)" by fastforce
  note m = assms(1) [unfolded eats_def, rule_format, of r]
  show "case and_then m f r of (Ok x, r') \<Rightarrow> suffix (rep_dec r') (rep_dec r) \<and> r' = r\<lparr>rep_dec := rep_dec r'\<rparr>
    | (Err e, r') \<Rightarrow> unindexed e | (Panic, r') \<Rightarrow> False"
  proof (cases o1)
    case (Ok x)
    obtain o2 r2 where o2: "f x r1 = (o2, r2)" by fastforce
    have r1: "suffix (rep_dec r1) (rep_dec r)" "r1 = r\<lparr>rep_dec := rep_dec r1\<rparr>" using m o1 Ok by auto
    note f = assms(2) [of x, unfolded eats_def, rule_format, of r1, unfolded o2]
    have "r2 = r\<lparr>rep_dec := rep_dec r2\<rparr>" if "r2 = r1\<lparr>rep_dec := rep_dec r2\<rparr>"
      using that r1(2) by (metis CompoundReplies.surjective CompoundReplies.update_convs(1))
    then show ?thesis using o1 o2 Ok f r1(1) by (cases o2) (auto simp: and_then_def intro: suffix_order.order_trans)
  qed (use m o1 in \<open>auto simp: and_then_def\<close>)
qed

lemma quits_ok [walk_intros]: "\<not> G x \<Longrightarrow> quits (ok x) G"
  by (simp add: quits_def)

text \<open>What a reply header decoder promises; \<open>E\<close> holds of the results that end the walk early.\<close>

definition reply_header :: "(XdrDecoder, CompoundDecodeError, 'a) stm \<Rightarrow> OpCode \<Rightarrow> ('a \<Rightarrow> bool) \<Rightarrow> bool" where
  "reply_header m op E \<longleftrightarrow> (\<forall>d. case m d of
     (Ok x, d') \<Rightarrow> \<not> E x \<longrightarrow> d = be_bytes 4 (op_u32 op) @ be_bytes 4 (status_OK :: u32) @ d'
   | (Err e, d') \<Rightarrow> reply_index e = None \<and> (\<forall>st. err_status e = Some st \<longrightarrow> st \<noteq> status_OK \<and>
         (\<exists>raw rest. d = be_bytes 4 (raw :: u32) @ be_bytes 4 st @ rest))
   | (Panic, d') \<Rightarrow> False)"

lemma walks_advance_with:
  assumes "reply_header m op E"
  shows "walks (advance_with m) [op] (\<lambda>x. case x of None \<Rightarrow> True | Some v \<Rightarrow> \<not> E v)
    (\<lambda>x. case x of None \<Rightarrow> False | Some v \<Rightarrow> \<not> E v)"
  unfolding walks_def
proof (intro allI impI)
  fix r :: CompoundReplies
  assume r: "decoded r \<le> rep_count r"
  obtain o1 d1 where o1: "m (rep_dec r) = (o1, d1)" by fastforce
  note h = assms [unfolded reply_header_def, rule_format, of "rep_dec r"]
  show "case advance_with m r of
      (Ok x, r') \<Rightarrow> (case x of None \<Rightarrow> True | Some v \<Rightarrow> \<not> E v) \<longrightarrow>
         progress r [op] r' (case x of None \<Rightarrow> False | Some v \<Rightarrow> \<not> E v)
    | (Err e, r') \<Rightarrow> failed_at r [op] e | (Panic, r') \<Rightarrow> False"
  proof (cases "rep_count r \<le> decoded r")
    case True
    then show ?thesis using r by (auto simp: advance_with_def progress_def intro!: exI [of _ 0])
  next
    case False
    show ?thesis
    proof (cases o1)
      case (Ok x)
      have "progress r [op] (r\<lparr>rep_dec := d1, decoded := decoded r + 1\<rparr>) full" if "\<not> E x" for full
        using h o1 Ok that False
        by (auto simp: progress_def consumed_def replies_wire_def reply_wire_def
            intro!: exI [of _ "Suc 0"] exI [of _ "[[]]"])
      then show ?thesis using False o1 Ok by (simp add: advance_with_def)
    next
      case (Err e)
      then have "failed_at r [op] (at_reply (decoded r) e)"
        using h o1 False unfolding failed_at_def at_reply_def
        by (auto intro!: exI [of _ "0 :: nat"] exI [of _ r])
      then show ?thesis using False o1 Err by (simp add: advance_with_def)
    next
      case Panic
      then show ?thesis using h o1 by simp
    qed
  qed
qed

lemma read_u32_pair_split:
  "read_u32_pair d = (Ok (a, b), d') \<Longrightarrow> d = be_bytes 4 a @ be_bytes 4 b @ d'"
proof -
  assume "read_u32_pair d = (Ok (a, b), d')"
  then have "8 \<le> length d" "a = of_be (take 4 d)" "b = of_be (take 4 (drop 4 d))" "d' = drop 8 d"
    by (auto simp: read_u32_pair_eq split: if_splits)
  moreover have "d = take 4 d @ take 4 (drop 4 d) @ drop 4 (drop 4 d)" by (simp only: append_take_drop_id)
  ultimately show ?thesis by (simp add: be_bytes_of_be)
qed


lemma header_walk:
  assumes "\<And>a b. (if a = op_u32 op \<and> b = status_OK then \<exists>x. m a b = ok x \<and> \<not> E x
      else (\<exists>x. m a b = ok x \<and> E x) \<or> (\<exists>e. m a b = fail e \<and> reply_index e = None \<and>
        (err_status e = None \<or> err_status e = Some b \<and> b \<noteq> status_OK)))"
  shows "reply_header (and_then (into_cde read_u32_pair) (\<lambda>(a, b). m a b)) op E"
  unfolding reply_header_def
proof
  fix d
  show "case and_then (into_cde read_u32_pair) (\<lambda>(a, b). m a b) d of
     (Ok x, d') \<Rightarrow> \<not> E x \<longrightarrow> d = be_bytes 4 (op_u32 op) @ be_bytes 4 (status_OK :: u32) @ d'
   | (Err e, d') \<Rightarrow> reply_index e = None \<and> (\<forall>st. err_status e = Some st \<longrightarrow> st \<noteq> status_OK \<and>
         (\<exists>raw rest. d = be_bytes 4 (raw :: u32) @ be_bytes 4 st @ rest))
   | (Panic, d') \<Rightarrow> False"
  proof (cases "length d < 8")
    case True
    then show ?thesis by (simp add: and_then_def into_cde_def read_u32_pair_eq cde_from_def)
  next
    case False
    then obtain a b d' where ab: "read_u32_pair d = (Ok (a, b), d')" by (simp add: read_u32_pair_eq)
    then have run: "and_then (into_cde read_u32_pair) (\<lambda>(a, b). m a b) d = m a b d'"
      by (simp add: and_then_def into_cde_def)
    from read_u32_pair_split [OF ab] show ?thesis
      unfolding run using assms [of a b] by (auto split: if_splits) blast+
  qed
qed

lemma validate_expected_reply_op_cases:
  "validate_expected_reply_op a b op = (if a = op_u32 op then Ok op
     else if a = op_u32 OpCode.Illegal \<and> b = status_OP_ILLEGAL then Ok OpCode.Illegal
     else Err (cde_from (case op_from_u32 a of Err e \<Rightarrow> e
       | _ \<Rightarrow> Protocol ''{shape} compound returned unexpected {op:?} reply, expected {expected:?}'')))"
  by (cases "op_from_u32 a") (auto simp: validate_expected_reply_op_def op_from_u32_not_Panic)

lemma header_expected_op: "reply_header (decode_expected_op op) op (\<lambda>_. False)"
  unfolding decode_expected_op_def
  by (rule header_walk) (auto simp: validate_expected_reply_op_cases and_then_def fun_eq_iff lift_def
      fail_def ok_def cde_from_def cde_nfs_def split: outcome.splits)

lemma header_op_or_exist: "reply_header (decode_expected_op_or_exist op) op (\<lambda>exists. exists)"
  unfolding decode_expected_op_or_exist_def
  by (rule header_walk) (auto simp: validate_expected_reply_op_cases and_then_def fun_eq_iff lift_def
      fail_def ok_def cde_from_def cde_nfs_def)

lemma header_remove_expected_op: "reply_header (decode_remove_expected_op op) op (\<lambda>missing. missing)"
  unfolding decode_remove_expected_op_def
  by (rule header_walk) (auto simp: validate_expected_reply_op_cases and_then_def fun_eq_iff lift_def
      fail_def ok_def cde_from_def cde_nfs_def)

lemmas walks_advance_expected = walks_advance_with [OF header_expected_op]
lemmas walks_advance_or_exist = walks_advance_with [OF header_op_or_exist]
lemmas walks_advance_remove = walks_advance_with [OF header_remove_expected_op]

lemma walks_ok [walk_intros]: "walks (ok x) [] (\<lambda>_. True) F"
  by (simp add: walks_def progress_def)

lemma walks_advance [walk_intros]: "walks (advance op) [op] (\<lambda>_. True) (\<lambda>present. present)"
  unfolding advance_def
  by (rule walks_body [OF walks_advance_expected]) (auto intro: walk_intros still_eats split: option.splits)

lemma walks_result [walk_intros]:
  "safe decode \<Longrightarrow> walks (walk_result op decode) [op] (\<lambda>_. True) (\<lambda>x. x \<noteq> None)"
  unfolding walk_result_def
  by (rule walks_body [OF walks_advance]) (auto intro: walk_intros still_eats split: if_splits)

lemma walks_sequence [walk_intros]: "walks walk_sequence [OpCode.Sequence] (\<lambda>_. True) (\<lambda>_. False)"
  unfolding walk_sequence_def
  by (rule walks_body [OF walks_advance]) (auto intro: walk_intros safe_intros)

lemma walks_getfh [walk_intros]: "walks walk_getfh [OpCode.GetFh] (\<lambda>_. True) (\<lambda>x. x \<noteq> None)"
  unfolding walk_getfh_def by (intro walk_intros safe_intros)

lemma walks_open [walk_intros]:
  "walks open_stateid_or_exists [OpCode.Open] (\<lambda>x. x \<noteq> Some AlreadyExists) (\<lambda>x. x \<notin> {None, Some AlreadyExists})"
  unfolding open_stateid_or_exists_def
  by (rule walks_body [OF walks_advance_or_exist])
    (auto intro: walk_intros safe_intros still_eats split: option.splits)

text \<open>Once the replies have run out, the LOOKUP loops change nothing, so their \<open>break\<close> can be ignored.\<close>

lemma advance_with_None:
  "advance_with m r = (Ok None, r') \<longleftrightarrow> rep_count r \<le> decoded r \<and> r' = r"
  by (auto simp: advance_with_def split: prod.splits outcome.splits)

lemma advance_exhausted: "rep_count r \<le> decoded r \<Longrightarrow> advance op r = (Ok False, r)"
  by (simp add: advance_def advance_with_def and_then_def)

lemma advance_False: "advance op r = (Ok False, r') \<Longrightarrow> rep_count r \<le> decoded r \<and> r' = r"
  using advance_with_None [of "decode_expected_op op" r r'] by (auto simp: advance_def and_then_Ok)

lemma lookups_exhausted: "rep_count r \<le> decoded r \<Longrightarrow> lookups n r = (Ok (), r)"
  by (cases n) (simp_all add: and_then_def advance_exhausted)

lemma lookups_Suc: "lookups (Suc n) = and_then (advance OpCode.Lookup) (\<lambda>_. lookups n)"
proof
  fix r
  show "lookups (Suc n) r = and_then (advance OpCode.Lookup) (\<lambda>_. lookups n) r"
    using advance_False [of OpCode.Lookup r]
    by (auto simp: and_then_def lookups_exhausted split: prod.splits outcome.splits)
qed

lemma walks_lookups [walk_intros]: "walks (lookups n) (replicate n OpCode.Lookup) (\<lambda>_. True) (\<lambda>_. False)"
proof (induction n)
  case 0 show ?case unfolding lookups.simps replicate.simps by (rule walks_ok)
next
  case (Suc n)
  have "walks (lookups (Suc n)) ([OpCode.Lookup] @ replicate n OpCode.Lookup) (\<lambda>_. True) (\<lambda>_. False)"
    unfolding lookups_Suc by (rule walks_bind [OF walks_advance Suc]) auto
  then show ?case by simp
qed

lemma walks_rename_publish [walk_intros]: "walks rename_publish [OpCode.Rename] (\<lambda>_. True) (\<lambda>published. published)"
  unfolding rename_publish_def
  by (rule walks_body [OF walks_advance]) (auto intro: walk_intros safe_intros still_eats split: if_splits)

text \<open>A reply whose body is skipped when it is present.\<close>

lemma walks_bind_skip:
  assumes "safe decode" and "\<And>present. walks (f present) ops2 G F"
    and "\<And>present y r r'. f present r = (Ok y, r') \<Longrightarrow> F y \<Longrightarrow> present \<or> ops2 \<noteq> []"
  shows "walks (and_then (advance op) (\<lambda>present.
     and_then (if present then on_dec decode else ok v) (\<lambda>_. f present))) ([op] @ ops2) G F"
proof -
  let ?w = "and_then (advance op) (\<lambda>present. and_then (if present then on_dec decode else ok v) (\<lambda>_. ok present))"
  have w: "walks ?w [op] (\<lambda>_. True) (\<lambda>present. present)"
    by (rule walks_body [OF walks_advance]; (intro walk_intros assms)?; auto simp: and_then_Ok split: if_splits)
  have "walks (and_then ?w f) ([op] @ ops2) G F"
    by (rule walks_bind [OF w]) (use assms in auto)
  moreover have "and_then ?w f = and_then (advance op) (\<lambda>present.
     and_then (if present then on_dec decode else ok v) (\<lambda>_. f present))"
    by (simp only: and_then_assoc and_then_ok)
  ultimately show ?thesis by simp
qed

lemma walks_skip_change_info:
  "walks (and_then (advance op) (\<lambda>present.
     if \<not> present then ok False else and_then (on_dec skip_change_info) (\<lambda>_. ok True)))
   [op] (\<lambda>_. True) (\<lambda>present. present)"
  by (rule walks_body [OF walks_advance]) (auto intro: walk_intros safe_intros still_eats split: if_splits)

lemma walks_link_remove_publish [walk_intros]:
  "walks (link_remove_publish n)
    ([OpCode.SaveFh] @ [OpCode.PutFh] @ replicate n OpCode.Lookup @ [OpCode.Link] @ [OpCode.Remove])
    (\<lambda>_. True) (\<lambda>published. published)"
  unfolding link_remove_publish_def
  by (rule walks_bind [OF walks_advance] walks_bind [OF walks_lookups] walks_bind_skip walks_skip_change_info
      safe_skip_change_info | simp)+

lemma walks_fused_put_commit [walk_intros]:
  "walks (fused_put_commit write) [OpCode.Commit] (\<lambda>_. True) (\<lambda>_. False)"
  unfolding fused_put_commit_def
  by (rule walks_body [OF walks_advance])
    (auto intro!: walk_intros safe_intros)

lemma walks_close_commit [walk_intros]:
  "walks (close_commit v) (if v \<noteq> None then [OpCode.Commit] else []) (\<lambda>_. True) (\<lambda>_. False)"
proof (cases v)
  case None then show ?thesis unfolding close_commit_def using walks_ok by simp
next
  case (Some verifier)
  have "walks (close_commit v) [OpCode.Commit] (\<lambda>_. True) (\<lambda>_. False)"
    unfolding close_commit_def Some option.case
    by (rule walks_body [OF walks_advance])
      (auto intro!: walk_intros safe_intros)
  then show ?thesis using Some by simp
qed


lemma walks_fused_put_publish [walk_intros]:
  "walks (fused_put_publish n create_new)
    ([OpCode.Verify] @ (if create_new
      then [OpCode.SaveFh] @ [OpCode.PutFh] @ replicate n OpCode.Lookup @ [OpCode.Link] @ [OpCode.Remove]
      else [OpCode.RestoreFh] @ [OpCode.Rename])) (\<lambda>_. True) (\<lambda>published. published)"
  unfolding fused_put_publish_def
  by (cases create_new; simp only: if_True if_False;
      (rule walks_bind [OF walks_advance] walks_link_remove_publish walks_rename_publish | simp)+)

subsection \<open>A whole response\<close>

definition finishes :: "'a walk \<Rightarrow> ('a \<Rightarrow> bool) \<Rightarrow> bool" where
  "finishes w F \<longleftrightarrow> (\<forall>r y r'. w r = (Ok y, r') \<and> F y \<longrightarrow> rep_status r' = status_OK \<and> rep_count r' \<le> decoded r')"

lemma finishes_bind: "(\<And>x. finishes (f x) F) \<Longrightarrow> finishes (and_then w f) F"
  by (fastforce simp: finishes_def and_then_Ok)

lemma finishes_finish:
  assumes "still (f ())"
  shows "finishes (and_then walk_finish f) F"
  using assms by (fastforce simp: finishes_def still_def and_then_Ok walk_finish_def split: if_splits prod.splits)

lemma finishes_fail: "\<not> F x \<Longrightarrow> finishes (ok x) F"
  by (simp add: finishes_def)

text \<open>\<open>answered bs ops\<close>: the response has status OK and exactly one OK reply per operation, in order.\<close>

definition answered :: "bytes \<Rightarrow> OpCode list \<Rightarrow> bool" where
  "answered bs ops \<longleftrightarrow> (\<exists>bodies rest. length bodies = length ops \<and>
     decode_compound_header bs = (Ok (status_OK, length ops), replies_wire ops bodies @ rest))"

text \<open>
  \<open>stopped_at bs ops i st\<close>: the first \<open>i\<close> operations were answered with OK and the reply of
  operation \<open>i\<close> carries the failure \<open>st\<close>.
\<close>

definition stopped_at :: "bytes \<Rightarrow> OpCode list \<Rightarrow> usize \<Rightarrow> u32 \<Rightarrow> bool" where
  "stopped_at bs ops i st \<longleftrightarrow> i < length ops \<and> st \<noteq> status_OK \<and>
     (\<exists>status n bodies op rest. i < n \<and> length bodies = i \<and>
        decode_compound_header bs =
          (Ok (status, n), replies_wire (take i ops) bodies @ be_bytes 4 (op :: u32) @ be_bytes 4 st @ rest))"

lemma decode_compound_header_cases:
  "case decode_compound_header d of (Ok x, d') \<Rightarrow> True | (Err e, d') \<Rightarrow> unindexed e | (Panic, d') \<Rightarrow> False"
proof -
  have "fst (read_u32_skip_opaque_and_read_u32 d) \<noteq> Panic"
    using safe_read_u32_skip_opaque_and_read_u32 by (simp add: safe_def)
  then show ?thesis
    by (cases "read_u32_skip_opaque_and_read_u32 d"; cases "fst (read_u32_skip_opaque_and_read_u32 d)")
      (auto simp: decode_compound_header_def and_then_def into_cde_def remaining_def split: prod.splits)
qed

lemma replies_new_cases:
  "replies_new bs n = Err e \<Longrightarrow> unindexed e"
  "replies_new bs n \<noteq> Panic"
  "replies_new bs n = Ok r \<Longrightarrow> decode_compound_header bs = (Ok (rep_status r, rep_count r), rep_dec r) \<and> decoded r = 0"
  using decode_compound_header_cases [of bs]
  by (auto simp: replies_new_def split: prod.splits outcome.splits if_splits)

lemma with_replies_correct:
  assumes w: "walks w ops G F" and fin: "finishes w F"
  shows "case with_replies bs n w of
      Ok y \<Rightarrow> G y \<and> F y \<longrightarrow> answered bs ops
    | Err e \<Rightarrow> \<forall>i st. reply_index e = Some i \<and> err_status e = Some st \<longrightarrow> stopped_at bs ops i st
    | Panic \<Rightarrow> False"
proof (cases "replies_new bs n")
  case (Ok r)
  note r = replies_new_cases(3) [OF Ok]
  then have d: "decoded r \<le> rep_count r" by simp
  obtain o1 r1 where o1: "w r = (o1, r1)" by fastforce
  note w = w [unfolded walks_def, rule_format, OF d, unfolded o1]
  show ?thesis
  proof (cases o1)
    case (Ok y)
    have "answered bs ops" if "G y" "F y"
    proof -
      have "rep_status r1 = status_OK" "rep_count r1 \<le> decoded r1"
        using fin that o1 Ok by (auto simp: finishes_def)
      moreover have "progress r ops r1 True" using w Ok that by simp
      ultimately show ?thesis using r unfolding answered_def progress_def consumed_def
        by (metis add_0 le_antisym take_all_iff order_refl)
    qed
    then show ?thesis using o1 Ok \<open>replies_new bs n = outcome.Ok r\<close> by (simp add: with_replies_def)
  next
    case (Err e)
    then have "stopped_at bs ops i st" if "reply_index e = Some i" "err_status e = Some st" for i st
      using w that r unfolding failed_at_def stopped_at_def consumed_def
      by (smt (verit) add_0 length_take min.absorb4 case_prod_conv outcome.case)
    then show ?thesis using o1 Err Ok by (simp add: with_replies_def)
  next
    case Panic then show ?thesis using w by simp
  qed
next
  case (Err e)
  then show ?thesis using replies_new_cases(1) [OF Err] by (auto simp: with_replies_def unindexed_def)
next
  case Panic
  then show ?thesis using replies_new_cases(2) [of bs n] by simp
qed

text \<open>
  \<open>decodes res bs ops F\<close>: the contract of a compound decoder. A result in \<open>F\<close> means that every
  operation of \<open>ops\<close> was answered with OK; an error with a status and an index names the reply
  that stopped the compound; there is no panic.
\<close>

definition decodes :: "('a, CompoundDecodeError) outcome \<Rightarrow> bytes \<Rightarrow> OpCode list \<Rightarrow> ('a \<Rightarrow> bool) \<Rightarrow> bool" where
  "decodes res bs ops F \<longleftrightarrow> (case res of
     Ok y \<Rightarrow> F y \<longrightarrow> answered bs ops
   | Err e \<Rightarrow> \<forall>i st. reply_index e = Some i \<and> err_status e = Some st \<longrightarrow> stopped_at bs ops i st
   | Panic \<Rightarrow> False)"

lemma decodesI: "walks w ops F F \<Longrightarrow> finishes w F \<Longrightarrow> decodes (with_replies bs n w) bs ops F"
  using with_replies_correct [of w ops F F bs n] by (auto simp: decodes_def split: outcome.splits)

lemma decodes_not_Panic: "decodes res bs ops F \<Longrightarrow> res \<noteq> Panic"
  by (auto simp: decodes_def)

lemma require_result_Ok: "require_result msg x r = (Ok y, r') \<longleftrightarrow> x = Some y \<and> r' = r"
  by (auto simp: require_result_def)

lemmas tail_simps = and_then_Ok require_result_Ok

lemmas walk_chain = walks_bind [OF walks_sequence] walks_bind [OF walks_advance] walks_bind [OF walks_lookups]
  walks_bind [OF walks_getfh] walks_bind [OF walks_open] walks_bind [OF walks_fused_put_commit]
  walks_bind [OF walks_close_commit] walks_bind [OF walks_result [OF safe_decode_write_data]]
  walks_bind [OF walks_result [OF safe_decode_fattr]]
lemmas walk_last = walks_body [OF walks_result] walks_body [OF walks_getfh] walks_body [OF walks_advance]
  walks_body [OF walks_rename_publish] walks_body [OF walks_link_remove_publish]
  walks_body [OF walks_fused_put_publish]
lemmas finish_chain = finishes_finish finishes_bind

lemma decodes_read:
  "decodes (decode_read_compound bs) bs ([OpCode.Sequence] @ [OpCode.PutFh] @ [OpCode.Read]) (\<lambda>_. True)"
  unfolding decode_read_compound_def
  by (rule decodesI; (rule walk_chain walk_last finish_chain walk_intros safe_intros
    | (auto simp: tail_simps split: if_splits; fail) | simp only: Let_def)+)

lemma decodes_read_path:
  "decodes (decode_read_path_compound bs n) bs ([OpCode.Sequence] @ [OpCode.PutFh] @ replicate n OpCode.Lookup @ [OpCode.Read]) (\<lambda>_. True)"
  unfolding decode_read_path_compound_def
  by (rule decodesI; (rule walk_chain walk_last finish_chain walk_intros safe_intros
    | (auto simp: tail_simps split: if_splits; fail) | simp only: Let_def)+)

lemma decodes_read_path_handle:
  "decodes (decode_read_path_handle_compound bs n) bs ([OpCode.Sequence] @ [OpCode.PutFh] @ replicate n OpCode.Lookup @ [OpCode.GetFh] @ [OpCode.Read]) (\<lambda>_. True)"
  unfolding decode_read_path_handle_compound_def
  by (rule decodesI; (rule walk_chain walk_last finish_chain walk_intros safe_intros
    | (auto simp: tail_simps split: if_splits; fail) | simp only: Let_def)+)

lemma decodes_read_path_size:
  "decodes (decode_read_path_size_compound bs n) bs ([OpCode.Sequence] @ [OpCode.PutFh] @ replicate n OpCode.Lookup @ [OpCode.GetFh] @ [OpCode.GetAttr] @ [OpCode.Read]) (\<lambda>_. True)"
  unfolding decode_read_path_size_compound_def
  by (rule decodesI; (rule walk_chain walk_last finish_chain walk_intros safe_intros
    | (auto simp: tail_simps split: if_splits; fail) | simp only: Let_def)+)

lemma decodes_getfh:
  "decodes (decode_getfh_compound bs op n) bs ([OpCode.Sequence] @ [op] @ replicate n OpCode.Lookup @ [OpCode.GetFh]) (\<lambda>_. True)"
  unfolding decode_getfh_compound_def
  by (rule decodesI; (rule walk_chain walk_last finish_chain walk_intros safe_intros
    | (auto simp: tail_simps split: if_splits; fail) | simp only: Let_def)+)

lemma validate_file_attrs_default:
  "validate_file_attrs req \<lparr> attr_file_type = None, attr_size = None \<rparr> \<noteq> Ok ()"
  "validate_file_attrs req attrs \<noteq> Panic"
  by (auto simp: validate_file_attrs_def split: AttrRequest.splits)

lemma decodes_getfh_attrs:
  "decodes (decode_getfh_attrs_compound bs n req) bs ([OpCode.Sequence] @ [OpCode.PutFh] @ replicate n OpCode.Lookup @ [OpCode.GetFh] @ [OpCode.GetAttr]) (\<lambda>_. True)"
  unfolding decode_getfh_attrs_compound_def
  by (rule decodesI; (rule walk_chain walk_last finish_chain walk_intros safe_intros
    | (auto simp: tail_simps validate_file_attrs_default split: if_splits option.splits; fail) | simp only: Let_def)+)

lemma decodes_no_result:
  "decodes (decode_no_result_compound bs op) bs ([OpCode.Sequence] @ [op]) (\<lambda>_. True)"
  unfolding decode_no_result_compound_def
  by (rule decodesI; (rule walk_chain walk_last finish_chain walk_intros safe_intros
    | (auto simp: tail_simps split: if_splits; fail) | simp only: Let_def)+)

lemma decodes_open_file:
  "decodes (decode_open_file_compound bs n) bs ([OpCode.Sequence] @ [OpCode.PutFh] @ replicate n OpCode.Lookup @ [OpCode.Open] @ [OpCode.GetFh]) (\<lambda>y. y \<noteq> AlreadyExists)"
  unfolding decode_open_file_compound_def
  by (rule decodesI; (rule walk_chain walk_last finish_chain finishes_fail walk_intros safe_intros
    | (auto simp: tail_simps split: if_splits; fail) | simp only: Let_def | (split option.split OpenOutcome.split, intro conjI allI impI))+)

lemma decodes_rename_publish:
  "decodes (decode_rename_publish_compound bs n) bs ([OpCode.Sequence] @ [OpCode.PutFh] @ replicate n OpCode.Lookup @ [OpCode.SaveFh] @ [OpCode.Rename]) (\<lambda>_. True)"
  unfolding decode_rename_publish_compound_def
  by (rule decodesI; (rule walk_chain walk_last finish_chain walk_intros safe_intros
    | (auto simp: tail_simps split: if_splits; fail) | simp only: Let_def)+)

lemma decodes_link_remove_publish:
  "decodes (decode_link_remove_publish_compound bs n) bs ([OpCode.Sequence] @ [OpCode.PutFh] @ ([OpCode.SaveFh] @ [OpCode.PutFh] @ replicate n OpCode.Lookup @ [OpCode.Link] @ [OpCode.Remove])) (\<lambda>_. True)"
  unfolding decode_link_remove_publish_compound_def
  by (rule decodesI; (rule walk_chain walk_last finish_chain walk_intros safe_intros
    | (auto simp: tail_simps split: if_splits; fail) | simp only: Let_def)+)

lemma decodes_write:
  "decodes (decode_write_compound bs) bs ([OpCode.Sequence] @ [OpCode.PutFh] @ [OpCode.Write]) (\<lambda>_. True)"
  unfolding decode_write_compound_def
  by (rule decodesI; (rule walk_chain walk_last finish_chain walk_intros safe_intros
    | (auto simp: tail_simps split: if_splits; fail) | simp only: Let_def)+)

lemma decodes_write_commit:
  "decodes (decode_write_commit_compound bs) bs ([OpCode.Sequence] @ [OpCode.PutFh] @ [OpCode.Write] @ [OpCode.Commit]) (\<lambda>_. True)"
  unfolding decode_write_commit_compound_def
  by (rule decodesI; (rule walk_chain walk_last finish_chain walk_intros safe_intros
    | (auto simp: tail_simps split: if_splits; fail) | simp only: Let_def)+)

lemma decodes_readdir:
  "decodes (decode_readdir_compound bs m) bs ([OpCode.Sequence] @ [OpCode.PutFh] @ [OpCode.ReadDir]) (\<lambda>_. True)"
  unfolding decode_readdir_compound_def
  by (rule decodesI; (rule walk_chain walk_last finish_chain walk_intros safe_intros
    | (auto simp: tail_simps split: if_splits; fail) | simp only: Let_def)+)

lemma decodes_readdir_path:
  "decodes (decode_readdir_path_compound bs m n) bs ([OpCode.Sequence] @ [OpCode.PutFh] @ replicate n OpCode.Lookup @ [OpCode.GetFh] @ [OpCode.ReadDir]) (\<lambda>_. True)"
  unfolding decode_readdir_path_compound_def
  by (rule decodesI; (rule walk_chain walk_last finish_chain walk_intros safe_intros
    | (auto simp: tail_simps split: if_splits; fail) | simp only: Let_def)+)

lemma decodes_readdir_path_without_handle:
  "decodes (decode_readdir_path_without_handle_compound bs m n) bs ([OpCode.Sequence] @ [OpCode.PutFh] @ replicate n OpCode.Lookup @ [OpCode.ReadDir]) (\<lambda>_. True)"
  unfolding decode_readdir_path_without_handle_compound_def
  by (rule decodesI; (rule walk_chain walk_last finish_chain walk_intros safe_intros
    | (auto simp: tail_simps split: if_splits; fail) | simp only: Let_def)+)

lemma walks_mono: "walks w ops G F \<Longrightarrow> (\<And>x. F' x \<Longrightarrow> F x) \<Longrightarrow> walks w ops G F'"
  by (fastforce simp: walks_def split: prod.splits outcome.splits intro: progress_mono)

lemma walks_always: "walks w ops (\<lambda>_. True) (\<lambda>_. True) \<Longrightarrow> walks w ops G F"
  by (fastforce simp: walks_def split: prod.splits outcome.splits intro: progress_mono)

lemma walks_still: "still m \<Longrightarrow> walks m [] G F"
  by (fastforce simp: walks_def still_def progress_def split: prod.splits outcome.splits)

lemma walks_optional_advance [walk_intros]:
  "walks (if b then advance op else ok v) (if b then [op] else []) (\<lambda>_. True) (\<lambda>_. False)"
  by (cases b) (auto intro: walks_mono [OF walks_advance] walks_ok simp del: ok_run)

lemma walks_fused_put_open:
  "walks (fused_put_open n create_new)
    ([OpCode.Sequence] @ [OpCode.PutFh] @ replicate n OpCode.Lookup @
      (if \<not> create_new then [OpCode.SaveFh] else []) @ [OpCode.Open])
    (\<lambda>x. x \<noteq> Some AlreadyExists) (\<lambda>x. x \<notin> {None, Some AlreadyExists})"
  unfolding fused_put_open_def
  by (rule walk_chain walks_bind [OF walks_optional_advance] walks_open | (auto; fail))+

lemma walks_fused_put_results:
  "walks (fused_put_results n create_new stateid)
    ([OpCode.GetFh] @ [OpCode.Write] @ [OpCode.Commit] @ [OpCode.Verify] @ (if create_new
      then [OpCode.SaveFh] @ [OpCode.PutFh] @ replicate n OpCode.Lookup @ [OpCode.Link] @ [OpCode.Remove]
      else [OpCode.RestoreFh] @ [OpCode.Rename])) (\<lambda>_. True) (\<lambda>_. True)"
  unfolding fused_put_results_def
  by (rule walk_chain walk_last walk_intros unindexed_errors | (auto simp: tail_simps split: if_splits; fail))+

lemma finishes_fused_put_results: "finishes (fused_put_results n create_new stateid) F"
  unfolding fused_put_results_def by (rule finish_chain walk_intros unindexed_errors)+

lemma decodes_fused_put:
  "decodes (decode_fused_put_compound bs n create_new) bs
    (([OpCode.Sequence] @ [OpCode.PutFh] @ replicate n OpCode.Lookup @
      (if \<not> create_new then [OpCode.SaveFh] else []) @ [OpCode.Open]) @
     ([OpCode.GetFh] @ [OpCode.Write] @ [OpCode.Commit] @ [OpCode.Verify] @ (if create_new
      then [OpCode.SaveFh] @ [OpCode.PutFh] @ replicate n OpCode.Lookup @ [OpCode.Link] @ [OpCode.Remove]
      else [OpCode.RestoreFh] @ [OpCode.Rename]))) (\<lambda>y. y \<noteq> AlreadyExists)"
  unfolding decode_fused_put_compound_def Let_def
  by (rule decodesI; (rule walks_bind [OF walks_fused_put_open] finishes_bind finishes_fused_put_results
      finishes_fail quits_ok walks_always [OF walks_fused_put_results]
    | (auto split: option.splits; fail) | (split option.split OpenOutcome.split, intro conjI allI impI))+)

lemma walks_close_publish [walk_intros]:
  "walks (close_publish shape saw_close) (case shape of
      FileClose \<Rightarrow> []
    | RenameClose n \<Rightarrow> [OpCode.PutFh] @ replicate n OpCode.Lookup @ [OpCode.SaveFh] @ [OpCode.Rename]
    | LinkRemoveClose n \<Rightarrow> [OpCode.SaveFh] @ [OpCode.PutFh] @ replicate n OpCode.Lookup @ [OpCode.Link] @ [OpCode.Remove])
    (\<lambda>_. True) (\<lambda>published. published)"
  unfolding close_publish_def
  by (cases shape; simp only: CloseShape.case)
    (rule walk_chain walk_intros | (auto; fail))+

abbreviation (input) close_replies :: "CloseShape \<Rightarrow> bytes option \<Rightarrow> OpCode list" where
  "close_replies shape v \<equiv> [OpCode.Sequence] @ [OpCode.PutFh] @ (if v \<noteq> None then [OpCode.Commit] else []) @
    (if shape \<noteq> FileClose then [OpCode.Verify] else []) @ [OpCode.Close] @ (case shape of
      FileClose \<Rightarrow> []
    | RenameClose n \<Rightarrow> [OpCode.PutFh] @ replicate n OpCode.Lookup @ [OpCode.SaveFh] @ [OpCode.Rename]
    | LinkRemoveClose n \<Rightarrow> [OpCode.SaveFh] @ [OpCode.PutFh] @ replicate n OpCode.Lookup @ [OpCode.Link] @ [OpCode.Remove])"

lemma decodes_close: "decodes (decode_close_compound bs shape v) bs (close_replies shape v) (\<lambda>_. True)"
proof (cases "shape = FileClose")
  case True
  show ?thesis
    unfolding decode_close_compound_def close_publish_def True CloseShape.case and_then_ok
    by (rule decodesI; (rule walks_bind_skip walk_chain walks_bind [OF walks_optional_advance] walks_still
        finish_chain walk_intros safe_intros unindexed_cde unindexed_errors | (auto simp: tail_simps split: if_splits; fail))+)
next
  case False
  then have ne: "(case shape of FileClose \<Rightarrow> []
    | RenameClose n \<Rightarrow> [OpCode.PutFh] @ replicate n OpCode.Lookup @ [OpCode.SaveFh] @ [OpCode.Rename]
    | LinkRemoveClose n \<Rightarrow> [OpCode.SaveFh] @ [OpCode.PutFh] @ replicate n OpCode.Lookup @ [OpCode.Link] @ [OpCode.Remove]) \<noteq> []"
    by (cases shape) auto
  show ?thesis
    unfolding decode_close_compound_def
    by (rule decodesI; (rule walks_bind_skip walk_chain walks_bind [OF walks_optional_advance]
        walks_body [OF walks_close_publish ne] finish_chain walk_intros safe_intros unindexed_cde unindexed_errors
        | (use ne in \<open>auto simp: tail_simps split: if_splits\<close>; fail))+)
qed

lemma close_batch_loop_bound: "close_batch_loop n c r = (Ok m, r') \<Longrightarrow> m \<le> c + n"
  by (induction n arbitrary: c r) (auto simp: and_then_Ok split: if_splits, fastforce+)

lemma walks_close_batch_loop:
  "walks (close_batch_loop n c) (concat (replicate n ([OpCode.PutFh] @ [OpCode.Close]))) (\<lambda>_. True) (\<lambda>m. c + n \<le> m)"
proof (induction n arbitrary: c)
  case 0 show ?case unfolding close_batch_loop.simps replicate.simps concat.simps by (rule walks_ok)
next
  case (Suc n)
  let ?rest = "concat (replicate n ([OpCode.PutFh] @ [OpCode.Close]))"
  have loop: "close_batch_loop (Suc n) c = and_then (advance OpCode.PutFh) (\<lambda>_.
      and_then (advance OpCode.Close) (\<lambda>present. and_then (if present then on_dec skip_stateid else ok ())
        (\<lambda>_. close_batch_loop n (if present then c + 1 else c))))"
    by (intro ext) (auto simp: and_then_def split: prod.splits outcome.splits)
  have "walks (close_batch_loop (Suc n) c) ([OpCode.PutFh] @ [OpCode.Close] @ ?rest) (\<lambda>_. True) (\<lambda>m. c + Suc n \<le> m)"
    unfolding loop
    by (rule walks_bind_skip walk_chain safe_skip_stateid walks_mono [OF Suc]
        | (auto dest!: close_batch_loop_bound split: if_splits; fail))+
  then show ?case by simp
qed

lemma decodes_close_batch:
  "decodes (decode_close_batch_compound bs n) bs
    ([OpCode.Sequence] @ concat (replicate n ([OpCode.PutFh] @ [OpCode.Close]))) (\<lambda>_. 0 < n)"
proof (cases n)
  case 0
  show ?thesis unfolding decode_close_batch_compound_def 0 close_batch_loop.simps and_then_ok
      replicate.simps concat.simps append_Nil2
    by (rule decodesI; (rule walks_body [OF walks_sequence] finish_chain walk_intros unindexed_cde | (auto; fail))+)
next
  case (Suc m)
  then have ne: "concat (replicate n ([OpCode.PutFh] @ [OpCode.Close])) \<noteq> []" by simp
  show ?thesis unfolding decode_close_batch_compound_def
    by (rule decodesI; (rule walk_chain walks_body [OF walks_close_batch_loop ne] finish_chain walk_intros unindexed_cde
        | (use ne in \<open>auto simp: tail_simps split: if_splits\<close>; fail))+)
qed

text \<open>A reply that may end the walk early with the value \<open>q\<close>, with or without a body.\<close>

lemma walks_bind_guard:
  assumes "reply_header m op (\<lambda>early. early)" and "\<not> G q" and "ops2 \<noteq> []"
    and "\<And>x. x \<noteq> Some True \<Longrightarrow> walks (f x) ops2 G F"
  shows "walks (and_then (advance_with m) (\<lambda>x. if x = Some True then ok q else f x)) ([op] @ ops2) G F"
  by (rule walks_bind [OF walks_advance_with [OF assms(1)]])
    (use assms in \<open>auto simp del: ok_run intro: quits_ok split: option.splits\<close>)

lemma walks_bind_guard_body:
  assumes h: "reply_header m op (\<lambda>early. early)" and "\<not> G q" and "\<not> F q" and "safe decode"
    and "\<And>x. x \<noteq> Some True \<Longrightarrow> walks (f x) ops2 G F"
    and "\<And>x y r r'. f x r = (Ok y, r') \<Longrightarrow> F y \<Longrightarrow> x = Some False \<or> ops2 \<noteq> []"
  shows "walks (and_then (advance_with m) (\<lambda>x. if x = Some True then ok q
    else and_then (if x = Some False then on_dec decode else ok v) (\<lambda>_. f x))) ([op] @ ops2) G F"
proof -
  let ?w = "and_then (advance_with m) (\<lambda>x. if x = Some True then ok x
    else and_then (if x = Some False then on_dec decode else ok v) (\<lambda>_. ok x))"
  have "walks ?w [op] (\<lambda>x. x \<noteq> Some True) (\<lambda>x. x = Some False)"
    by (rule walks_body [OF walks_advance_with [OF h]];
        (rule walk_intros assms | (auto simp: tail_simps split: option.splits if_splits; fail) | (split if_split, intro conjI impI))+)
  then have "walks (and_then ?w (\<lambda>x. if x = Some True then ok q else f x)) ([op] @ ops2) G F"
    by (rule walks_bind; (rule quits_ok)?)
      (use assms in \<open>auto intro: quits_ok split: if_splits\<close>)
  moreover have "and_then ?w (\<lambda>x. if x = Some True then ok q else f x) =
    and_then (advance_with m) (\<lambda>x. if x = Some True then ok q
    else and_then (if x = Some False then on_dec decode else ok v) (\<lambda>_. f x))"
    by (intro ext) (auto simp: and_then_def split: prod.splits outcome.splits)
  ultimately show ?thesis by simp
qed

lemma decodes_create_dir_handle:
  "decodes (decode_create_dir_handle_compound bs n) bs
    ([OpCode.Sequence] @ [OpCode.PutFh] @ replicate n OpCode.Lookup @ [OpCode.Create] @ [OpCode.GetFh])
    (\<lambda>y. y \<noteq> HandleExists)"
proof -
  have body: "and_then (on_dec skip_change_info) (\<lambda>_. on_dec skip_bitmap) =
      on_dec (and_then skip_change_info (\<lambda>_. skip_bitmap))"
    by (intro ext) (auto simp: and_then_def on_dec_def into_cde_def split: prod.splits outcome.splits)
  show ?thesis
    unfolding decode_create_dir_handle_compound_def body
    by (rule decodesI; (rule walks_bind_guard_body [OF header_op_or_exist] walk_chain walk_last
        finish_chain finishes_fail walk_intros safe_intros
      | (auto simp: tail_simps split: if_splits option.splits; fail) | (split if_split, intro conjI impI))+)
qed

lemma remove_lookups_exhausted: "rep_count r \<le> decoded r \<Longrightarrow> remove_lookups n r = (Ok False, r)"
  by (cases n) (simp_all add: and_then_def advance_with_def)

lemma remove_lookups_Suc:
  "remove_lookups (Suc n) = and_then (advance_with (decode_remove_expected_op OpCode.Lookup))
     (\<lambda>x. if x = Some True then ok True else remove_lookups n)"
proof
  fix r
  show "remove_lookups (Suc n) r = and_then (advance_with (decode_remove_expected_op OpCode.Lookup))
     (\<lambda>x. if x = Some True then ok True else remove_lookups n) r"
    using advance_with_None [of "decode_remove_expected_op OpCode.Lookup" r]
    by (auto simp: and_then_def remove_lookups_exhausted split: prod.splits outcome.splits option.splits bool.splits)
qed

lemma walks_remove_lookups:
  "walks (remove_lookups n) (replicate n OpCode.Lookup) (\<lambda>missing. \<not> missing) (\<lambda>_. False)"
proof (induction n)
  case 0 show ?case unfolding remove_lookups.simps replicate.simps by (rule walks_still, rule still_ok)
next
  case (Suc n)
  have "walks (remove_lookups (Suc n)) ([OpCode.Lookup] @ replicate n OpCode.Lookup) (\<lambda>missing. \<not> missing) (\<lambda>_. False)"
    unfolding remove_lookups_Suc
    by (rule walks_bind [OF walks_advance_remove])
      (use Suc in \<open>auto simp del: ok_run intro: quits_ok split: option.splits\<close>)
  then show ?case by simp
qed

lemma decodes_remove:
  "decodes (decode_remove_compound bs n) bs
    ([OpCode.Sequence] @ [OpCode.PutFh] @ replicate n OpCode.Lookup @ [OpCode.Remove] @ []) (\<lambda>y. y = Removed)"
  unfolding decode_remove_compound_def Let_def
  by (rule decodesI; (rule walks_bind_guard_body [OF header_remove_expected_op] walks_bind_guard [OF header_remove_expected_op]
      walks_bind [OF walks_remove_lookups] walks_still finish_chain finishes_fail walk_intros safe_intros unindexed_cde
      | (auto simp: tail_simps split: if_splits option.splits; fail) | (split if_split, intro conjI impI))+)

lemma decode_setup_compound_correct:
  assumes "safe decode"
  shows "decode_setup_compound bs op decode \<noteq> Panic \<and>
    (\<forall>y. decode_setup_compound bs op decode = Ok y \<longrightarrow> answered bs [op])"
proof -
  have "decodes (with_replies bs 1 (and_then (walk_result op decode) (\<lambda>r. and_then walk_finish (\<lambda>_.
      require_result ''compound response did not include {shape} result'' r)))) bs [op] (\<lambda>_. True)"
    by (rule decodesI; (rule walk_last finish_chain walk_intros assms | (auto simp: tail_simps; fail))+)
  then show ?thesis
    by (auto simp: decode_setup_compound_def decodes_def split: outcome.splits)
qed

lemma decodes_create_dir:
  "decodes (decode_create_dir_compound bs n) bs
    ([OpCode.Sequence] @ [OpCode.PutFh] @ replicate n OpCode.Lookup @ [OpCode.Create]) (\<lambda>y. y = Created)"
  unfolding decode_create_dir_compound_def
  by (rule decodesI; (rule walk_chain walks_body [OF walks_advance_or_exist] finish_chain finishes_fail walk_intros safe_intros
      | (auto simp: tail_simps split: if_splits option.splits; fail) | (split if_split, intro conjI impI))+)

subsection \<open>Durability of a fused PUT\<close>

lemma walks_suffix:
  assumes "walks w ops G F" and "w r = (Ok x, r')" and "G x"
    and "decoded r \<le> rep_count r \<and> suffix (rep_dec r) d"
  shows "decoded r' \<le> rep_count r' \<and> suffix (rep_dec r') d"
proof -
  have "progress r ops r' (F x)"
    using assms(1) [unfolded walks_def, rule_format, of r] assms(2-4) by simp
  then have "decoded r' \<le> rep_count r'" "suffix (rep_dec r') (rep_dec r)"
    by (auto simp: progress_def consumed_def suffix_def)
  then show ?thesis using assms(4) suffix_order.order_trans by blast
qed

lemma fused_put_publish_exhausted:
  "rep_count r \<le> decoded r \<Longrightarrow> fused_put_publish n create_new r = (Ok False, r)"
  by (simp add: fused_put_publish_def link_remove_publish_def rename_publish_def and_then_def
      advance_exhausted lookups_exhausted)

lemma advance_True:
  assumes "advance op r = (Ok True, r')"
  shows "rep_dec r = be_bytes 4 (op_u32 op) @ be_bytes 4 (status_OK :: u32) @ rep_dec r'"
  using assms header_expected_op [of op, unfolded reply_header_def, rule_format, of "rep_dec r"]
  by (auto simp: advance_def and_then_Ok advance_with_def split: if_splits prod.splits outcome.splits)

lemma read_bytes_split: "read_bytes n d = (Ok v, d') \<Longrightarrow> d = v @ d' \<and> length v = n"
  by (auto simp: dec_eqs split: if_splits)

lemma fused_put_commit_verified:
  assumes "fused_put_commit (Some w) r = (Ok (), r')" and "requires_commit w"
  shows "(rep_count r \<le> decoded r \<and> r' = r) \<or>
    (\<exists>rest. rep_dec r = reply_wire (op_u32 OpCode.Commit, status_OK, write_verifier w) @ rest)"
proof -
  from assms(1) obtain present r1 where a: "advance OpCode.Commit r = (Ok present, r1)"
    and k: "(if \<not> present then ok ()
    else and_then (on_dec (read_bytes 8)) (\<lambda>commit_verifier.
         and_then (require_result ''fused PUT response included COMMIT without a WRITE result'' (Some w)) (\<lambda>write.
         if requires_commit write
         then lift (map_err cde_from (ensure_write_verifier (write_verifier write) commit_verifier))
         else ok ()))) r1 = (Ok (), r')"
    unfolding fused_put_commit_def by (auto simp: and_then_Ok simp del: ok_run)
  show ?thesis
  proof (cases present)
    case False
    then show ?thesis using a k advance_False by fastforce
  next
    case True
    then obtain v d where v: "read_bytes 8 (rep_dec r1) = (Ok v, d)" "ensure_write_verifier (write_verifier w) v = Ok ()"
      using k assms(2) by (auto simp: and_then_Ok on_dec_def into_cde_def require_result_Ok split: prod.splits)
    then have "v = write_verifier w" by (auto simp: ensure_write_verifier_def split: if_splits)
    then show ?thesis
      using advance_True [of OpCode.Commit r r1] a True read_bytes_split [OF v(1)] by (auto simp: reply_wire_def)
  qed
qed

lemma with_replies_Ok:
  "with_replies bs n w = Ok y \<longleftrightarrow> (\<exists>r r'. replies_new bs n = Ok r \<and> w r = (Ok y, r'))"
  by (auto simp: with_replies_def then_outcome_Ok) (metis prod.collapse)

lemma replies_new_suffix: "replies_new bs n = Ok r \<Longrightarrow> suffix (rep_dec r) bs"
  using safe_suffix [OF safe_read_u32_skip_opaque_and_read_u32, of bs] replies_new_cases(3) [of bs n r]
  by (auto simp: decode_compound_header_def and_then_Ok into_cde_def remaining_def split: prod.splits if_splits)

lemma fused_put_commit_run:
  assumes "decode_fused_put_compound bs n create_new = Ok (Opened (stateid, handle, w))"
  shows "\<exists>r r1 r2. suffix (rep_dec r) bs \<and> fused_put_commit (Some w) r = (Ok (), r1) \<and>
    fused_put_publish n create_new r1 = (Ok True, r2)"
proof -
  let ?k = "\<lambda>opened. case opened of Some AlreadyExists \<Rightarrow> ok AlreadyExists
    | Some (Opened stateid) \<Rightarrow> fused_put_results n create_new (Some stateid)
    | None \<Rightarrow> fused_put_results n create_new None"
  obtain r0 r' where new: "replies_new bs (if create_new then 11 + 2 * n else 10 + n) = Ok r0"
    and run: "and_then (fused_put_open n create_new) ?k r0 = (Ok (Opened (stateid, handle, w)), r')"
    using assms unfolding decode_fused_put_compound_def Let_def with_replies_Ok by blast
  then have r0: "decoded r0 \<le> rep_count r0 \<and> suffix (rep_dec r0) bs"
    using replies_new_cases(3) [OF new] replies_new_suffix [OF new] by simp
  from run obtain opened r1 where o: "fused_put_open n create_new r0 = (Ok opened, r1)" "opened \<noteq> Some AlreadyExists"
    and k: "?k opened r1 = (Ok (Opened (stateid, handle, w)), r')"
    by (elim and_then_OkE) fastforce
  then obtain s where "fused_put_results n create_new s r1 = (Ok (Opened (stateid, handle, w)), r')"
    by (auto split: option.splits OpenOutcome.splits)
  then obtain h r2 wd r3 where h: "walk_getfh r1 = (Ok h, r2)"
    and wr: "walk_result OpCode.Write decode_write_data r2 = (Ok wd, r3)"
    and rest: "\<exists>r4 r5. fused_put_commit wd r3 = (Ok (), r4) \<and> fused_put_publish n create_new r4 = (Ok True, r5)" "wd = Some w"
    unfolding fused_put_results_def by (elim and_then_OkE) (auto simp: tail_simps split: if_splits)
  note r1 = walks_suffix [OF walks_fused_put_open o r0]
  note r2 = walks_suffix [OF walks_getfh h TrueI r1]
  note r3 = walks_suffix [OF walks_result [OF safe_decode_write_data] wr TrueI r2]
  show ?thesis using r3 rest by blast
qed

lemma fused_put_durable:
  assumes "decode_fused_put_compound bs n create_new = Ok (Opened (stateid, handle, w))" and "requires_commit w"
  shows "\<exists>front rest. bs = front @ reply_wire (op_u32 OpCode.Commit, status_OK, write_verifier w) @ rest"
proof -
  obtain r r1 r2 where r: "suffix (rep_dec r) bs" "fused_put_commit (Some w) r = (Ok (), r1)"
      "fused_put_publish n create_new r1 = (Ok True, r2)"
    using fused_put_commit_run [OF assms(1)] by blast
  from fused_put_commit_verified [OF r(2) assms(2)] fused_put_publish_exhausted [of r n create_new] r(3)
  have "\<exists>rest. rep_dec r = reply_wire (op_u32 OpCode.Commit, status_OK, write_verifier w) @ rest" by auto
  then show ?thesis using r(1) by (metis suffixE)
qed

subsection \<open>Running a walk on a response\<close>

named_theorems walk_run \<open>a walk on a well-formed response\<close>

abbreviation (input) walk_state :: "bytes \<Rightarrow> u32 \<Rightarrow> usize \<Rightarrow> usize \<Rightarrow> usize \<Rightarrow> CompoundReplies" where
  "walk_state d st c e k \<equiv> \<lparr> rep_dec = d, rep_status = st, rep_count = c, expected_replies = e, decoded = k \<rparr>"

lemma decode_expected_op_wire:
  "decode_expected_op op (reply_wire (op_u32 op, st, body) @ rest) =
    (if st = status_OK then (Ok (), body @ rest) else (Err (cde_nfs st op), body @ rest))"
  by (simp add: decode_expected_op_def reply_wire_def and_then_def into_cde_def read_u32_pair_wire
      validate_expected_reply_op_def)

lemma advance_wire [walk_run]:
  "a = op_u32 op \<Longrightarrow> k < c \<Longrightarrow>
   advance op (walk_state (reply_wire (a, st', body) @ rest) st c e k) =
    (if st' = status_OK then (Ok True, walk_state (body @ rest) st c e (Suc k))
     else (Err (at_reply k (cde_nfs st' op)), walk_state (body @ rest) st c e k))"
  by (simp add: advance_def and_then_def advance_with_def decode_expected_op_wire)

lemma advance_with_exist_wire [walk_run]:
  "a = op_u32 op \<Longrightarrow> k < c \<Longrightarrow>
   advance_with (decode_expected_op_or_exist op) (walk_state (reply_wire (a, status_OK, body) @ rest) st c e k) =
    (Ok (Some False), walk_state (body @ rest) st c e (Suc k))"
  by (simp add: advance_with_def decode_expected_op_or_exist_def reply_wire_def and_then_def into_cde_def
      read_u32_pair_wire validate_expected_reply_op_def)

lemma on_dec_wire [walk_run]:
  "m (d :: bytes) = (Ok v, d') \<Longrightarrow> on_dec m (walk_state d st c e k) = (Ok v, walk_state d' st c e k)"
  by (simp add: on_dec_def into_cde_def)

lemma skip_sequence_data_wire [walk_run]:
  "length body = 36 \<Longrightarrow> skip_sequence_data (body @ rest) = (Ok (), rest)"
  by (simp add: skip_sequence_data_def dec_eqs)

lemma length_reply_wire: "8 * length rs \<le> length (concat (map reply_wire rs))"
  by (induction rs) (auto simp: reply_wire_def)

lemma with_replies_wire:
  assumes "length tag \<le> u32_max" and "length rs \<le> n" and "length rs \<le> u32_max"
  shows "with_replies (compound_reply st tag rs) n w =
    fst (w (walk_state (concat (map reply_wire rs)) st (length rs) n 0))"
proof -
  have "length rs \<le> length (concat (map reply_wire rs)) div 8"
    using length_reply_wire [of rs] by (simp add: less_eq_div_iff_mult_less_eq mult.commute)
  then show ?thesis
    using assms read_compound_prefix [OF assms(1), of st "of_nat (length rs)"]
    by (simp add: with_replies_def replies_new_def decode_compound_header_def compound_reply_def and_then_def
        into_cde_def remaining_def unat_of_nat_u32)
qed


lemma decode_file_handle_wire [walk_run]:
  "length h \<le> 128 \<Longrightarrow> decode_file_handle (opaque_wire h @ rest) = (Ok h, rest)"
  by (simp add: decode_file_handle_def and_then_def u32_max_def)

lemma decode_read_data_wire [walk_run]:
  assumes "length data \<le> u32_max"
  shows "decode_read_data ((be_bytes 4 (of_bool eof :: u32) @ opaque_wire data) @ rest) =
    (Ok \<lparr> read_eof = eof, read_data = data \<rparr>, rest)"
  using assms read_opaque_wire [OF assms, of rest]
  by (cases eof) (simp_all add: decode_read_data_def and_then_def read_bool_and_opaque_def dec_eqs opaque_wire_def
      unat_of_nat_u32 decode_bool_word_def)

lemma decode_write_data_wire [walk_run]:
  assumes "length ver = 8" and "write_stability_from_raw how = Ok st"
  shows "decode_write_data ((be_bytes 4 count @ be_bytes 4 how @ ver) @ rest) =
    (Ok \<lparr> write_count = count, committed = st, write_verifier = ver \<rparr>, rest)"
  using assms by (simp add: decode_write_data_def and_then_def read_u32_pair_and_bytes_eq u32_max_def)

lemma skip_change_info_wire [walk_run]:
  "length b = 16 \<Longrightarrow> skip_change_info ((be_bytes 4 (of_bool atomic :: u32) @ b) @ rest) = (Ok (), rest)"
  by (cases atomic) (simp_all add: skip_change_info_def read_bool_and_skip_def checked_add_def usize_max_def
      and_then_def run_simps require_def buf_get_u32_def buf_advance_def read_u32_after_require_def
      skip_bytes_after_require_def decode_bool_word_def)

lemma lookups_wire [walk_run]:
  "k + n \<le> c \<Longrightarrow>
   lookups n (walk_state (concat (map reply_wire (replicate n (op_u32 OpCode.Lookup, status_OK, []))) @ rest) st c e k) =
    (Ok (), walk_state rest st c e (k + n))"
proof (induction n arbitrary: k)
  case (Suc n)
  have "lookups (Suc n) (walk_state (reply_wire (op_u32 OpCode.Lookup, status_OK, []) @
      concat (map reply_wire (replicate n (op_u32 OpCode.Lookup, status_OK, []))) @ rest) st c e k) =
    (Ok (), walk_state rest st c e (k + Suc n))"
    using Suc by (simp add: and_then_def advance_wire del: op_u32.simps)
  then show ?case by simp
qed simp

lemma walk_sequence_wire [walk_run]:
  "a = op_u32 OpCode.Sequence \<Longrightarrow> k < c \<Longrightarrow> length body = 36 \<Longrightarrow>
   walk_sequence (walk_state (reply_wire (a, status_OK, body) @ rest) st c e k) =
    (Ok (), walk_state rest st c e (Suc k))"
  by (simp add: walk_sequence_def and_then_def walk_run del: op_u32.simps)

lemma walk_result_wire [walk_run]:
  "a = op_u32 op \<Longrightarrow> k < c \<Longrightarrow> decode (body @ rest) = (Ok v, rest) \<Longrightarrow>
   walk_result op decode (walk_state (reply_wire (a, status_OK, body) @ rest) st c e k) =
    (Ok (Some v), walk_state rest st c e (Suc k))"
  by (simp add: walk_result_def and_then_def walk_run del: op_u32.simps)

lemma skip_bitmap_after_len_0: "skip_bitmap_after_len 0 d = (Ok (), d)"
  by (simp add: skip_bitmap_after_len_def require_bitmap_words_def and_then_def checked_mul_def require_def remaining_def
      skip_bytes_after_require_def buf_advance_def run_simps)

lemma decode_open_stateid_wire [walk_run]:
  assumes "length oth = 12" and "length ci = 16"
  shows "decode_open_stateid ((be_bytes 4 sid @ oth @ (be_bytes 4 (of_bool atomic :: u32) @ ci) @
      be_bytes 4 (0 :: u32) @ be_bytes 4 (0 :: u32) @ be_bytes 4 OPEN_DELEGATE_NONE) @ rest) =
    (Ok \<lparr> seqid = sid, other = oth \<rparr>, rest)"
  using assms skip_change_info_wire [OF assms(2), of atomic]
  by (simp add: decode_open_stateid_def stateid_decode_def and_then_def read_u32_and_bytes_eq u32_max_def
      read_u32_pair_wire skip_bitmap_after_len_0 decode_open_delegation_def read_u32_eq)

lemma open_stateid_or_exists_wire [walk_run]:
  "a = op_u32 OpCode.Open \<Longrightarrow> k < c \<Longrightarrow> decode_open_stateid (body @ rest) = (Ok v, rest) \<Longrightarrow>
   open_stateid_or_exists (walk_state (reply_wire (a, status_OK, body) @ rest) st c e k) =
    (Ok (Some (Opened v)), walk_state rest st c e (Suc k))"
  by (simp add: open_stateid_or_exists_def and_then_def walk_run del: op_u32.simps)

lemma rename_publish_wire [walk_run]:
  assumes "a = op_u32 OpCode.Rename" and "k < c" and "length ci = 16" and "length ci' = 16"
  shows "rename_publish (walk_state (reply_wire (a, status_OK,
      (be_bytes 4 (of_bool x :: u32) @ ci) @ (be_bytes 4 (of_bool y :: u32) @ ci')) @ rest) st c e k) =
    (Ok True, walk_state rest st c e (Suc k))"
  using assms skip_change_info_wire [OF assms(3), of x] skip_change_info_wire [OF assms(4), of y]
  by (simp add: rename_publish_def and_then_def advance_wire on_dec_def into_cde_def del: op_u32.simps)

lemmas decoders_not_Panic =
  decodes_read [THEN decodes_not_Panic]
  decodes_read_path [THEN decodes_not_Panic]
  decodes_read_path_handle [THEN decodes_not_Panic]
  decodes_read_path_size [THEN decodes_not_Panic]
  decodes_getfh [THEN decodes_not_Panic]
  decodes_getfh_attrs [THEN decodes_not_Panic]
  decodes_no_result [THEN decodes_not_Panic]
  decodes_open_file [THEN decodes_not_Panic]
  decodes_fused_put [THEN decodes_not_Panic]
  decodes_close [THEN decodes_not_Panic]
  decodes_close_batch [THEN decodes_not_Panic]
  decodes_rename_publish [THEN decodes_not_Panic]
  decodes_link_remove_publish [THEN decodes_not_Panic]
  decodes_write [THEN decodes_not_Panic]
  decodes_write_commit [THEN decodes_not_Panic]
  decodes_readdir [THEN decodes_not_Panic]
  decodes_readdir_path [THEN decodes_not_Panic]
  decodes_readdir_path_without_handle [THEN decodes_not_Panic]
  decodes_create_dir [THEN decodes_not_Panic]
  decodes_create_dir_handle [THEN decodes_not_Panic]
  decodes_remove [THEN decodes_not_Panic]

subsection \<open>Properties\<close>

text \<open>
  C1. A fused PUT is reported as published only when the server answered every operation of the
  compound, from the guarded OPEN to the RENAME (or LINK and REMOVE), with OK and in order, and,
  when the WRITE was not already stable, the COMMIT returned the verifier of that WRITE: the
  published file holds durable data.
\<close>

theorem fused_put_acknowledged:
  assumes "decode_fused_put_compound bs n create_new = Ok (Opened (stateid, handle, w))"
  shows "answered bs ([OpCode.Sequence, OpCode.PutFh] @ replicate n OpCode.Lookup @
      (if create_new then [] else [OpCode.SaveFh]) @
      [OpCode.Open, OpCode.GetFh, OpCode.Write, OpCode.Commit, OpCode.Verify] @
      (if create_new then [OpCode.SaveFh, OpCode.PutFh] @ replicate n OpCode.Lookup @ [OpCode.Link, OpCode.Remove]
       else [OpCode.RestoreFh, OpCode.Rename])) \<and>
    (requires_commit w \<longrightarrow>
      (\<exists>front rest. bs = front @ reply_wire (op_u32 OpCode.Commit, status_OK, write_verifier w) @ rest))"
  using decodes_fused_put [of bs n create_new] fused_put_durable [of bs n create_new stateid handle w] assms
  by (auto simp: decodes_def split: if_splits)

theorem fused_put_acknowledged_witness:
  "\<exists>bs w front rest. decode_fused_put_compound bs 0 False = Ok (Opened w) \<and> requires_commit (snd (snd w)) \<and>
    bs = front @ reply_wire (op_u32 OpCode.Commit, status_OK, replicate 8 9) @ rest"
proof -
  let ?info = "be_bytes 4 (0 :: u32) @ replicate 16 0"
  let ?open = "be_bytes 4 (1 :: u32) @ replicate 12 5 @ ?info @ be_bytes 4 (0 :: u32) @ be_bytes 4 (0 :: u32) @ be_bytes 4 OPEN_DELEGATE_NONE"
  let ?wr = "be_bytes 4 (3 :: u32) @ be_bytes 4 UNSTABLE4 @ replicate 8 9"
  let ?bs = "compound_reply status_OK [] [(op_u32 OpCode.Sequence, status_OK, replicate 36 0),
      (op_u32 OpCode.PutFh, status_OK, []), (op_u32 OpCode.SaveFh, status_OK, []), (op_u32 OpCode.Open, status_OK, ?open),
      (op_u32 OpCode.GetFh, status_OK, opaque_wire [1, 2, 3, 4]), (op_u32 OpCode.Write, status_OK, ?wr),
      (op_u32 OpCode.Commit, status_OK, replicate 8 9), (op_u32 OpCode.Verify, status_OK, []),
      (op_u32 OpCode.RestoreFh, status_OK, []), (op_u32 OpCode.Rename, status_OK, ?info @ ?info)]"
  let ?w = "\<lparr> write_count = 3, committed = Unstable, write_verifier = replicate 8 9 \<rparr>"
  have o: "decode_open_stateid (?open @ d) = (Ok \<lparr> seqid = 1, other = replicate 12 5 \<rparr>, d)" for d
    using decode_open_stateid_wire [of "replicate 12 5" "replicate 16 0" 1 False] by simp
  have w: "decode_write_data (?wr @ d) = (Ok ?w, d)" for d
    by (rule decode_write_data_wire) (simp_all add: write_stability_from_raw_def)
  have h: "decode_file_handle (opaque_wire [1, 2, 3, 4] @ d) = (Ok [1, 2, 3, 4], d)" for d
    by (rule decode_file_handle_wire) simp
  have p: "k < c \<Longrightarrow> rename_publish (walk_state (reply_wire (op_u32 OpCode.Rename, status_OK, ?info @ ?info)) st c e k) =
      (Ok True, walk_state [] st c e (Suc k))" for st c e k
    using rename_publish_wire [of _ k c "replicate 16 0" "replicate 16 0" False False "[]"] by simp
  have run: "decode_fused_put_compound ?bs 0 False =
      Ok (Opened (\<lparr> seqid = 1, other = replicate 12 5 \<rparr>, [1, 2, 3, 4], ?w))"
    by (simp add: p decode_fused_put_compound_def with_replies_wire u32_max_def and_then_def fused_put_open_def
        fused_put_results_def fused_put_commit_def fused_put_publish_def walk_sequence_wire advance_wire
        open_stateid_or_exists_wire [where body = ?open, OF _ _ o] walk_getfh_def
        walk_result_wire [where decode = decode_file_handle and body = "opaque_wire [1, 2, 3, 4]", OF _ _ h]
        walk_result_wire [where decode = decode_write_data and body = ?wr, OF _ _ w]
        on_dec_wire [where m = "read_bytes 8", OF read_bytes_wire] requires_commit_def ensure_write_verifier_def walk_finish_def
        require_result_def del: op_u32.simps append_assoc)
  from fused_put_acknowledged [OF run] obtain front rest
    where "?bs = front @ reply_wire (op_u32 OpCode.Commit, status_OK, replicate 8 9) @ rest"
    by (auto simp: requires_commit_def simp del: op_u32.simps)
  moreover have "requires_commit ?w" by (simp add: requires_commit_def)
  ultimately show ?thesis using run by (metis snd_conv)
qed

text \<open>
  C8. A close-and-publish compound succeeds only when every operation of its shape was answered
  with OK in order (COMMIT when unstable data is pending, the size VERIFY, CLOSE and the publish);
  and an error that carries a status and a reply index names the first operation that failed: the
  operations before it were answered with OK and it was not.
\<close>

theorem close_compound_acknowledged:
  "(decode_close_compound bs shape v = Ok () \<longrightarrow> answered bs ([OpCode.Sequence, OpCode.PutFh] @
      (if v \<noteq> None then [OpCode.Commit] else []) @ (if shape \<noteq> FileClose then [OpCode.Verify] else []) @
      [OpCode.Close] @ (case shape of
        FileClose \<Rightarrow> []
      | RenameClose n \<Rightarrow> [OpCode.PutFh] @ replicate n OpCode.Lookup @ [OpCode.SaveFh, OpCode.Rename]
      | LinkRemoveClose n \<Rightarrow> [OpCode.SaveFh, OpCode.PutFh] @ replicate n OpCode.Lookup @ [OpCode.Link, OpCode.Remove]))) \<and>
   (\<forall>e i st. decode_close_compound bs shape v = Err e \<and> reply_index e = Some i \<and> err_status e = Some st \<longrightarrow>
      stopped_at bs (close_replies shape v) i st)"
  using decodes_close [of bs shape v] by (cases shape) (auto simp: decodes_def split: if_splits)

theorem close_compound_acknowledged_witness:
  "stopped_at (compound_reply status_DELAY [] [(op_u32 OpCode.Sequence, 0, replicate 36 0),
      (op_u32 OpCode.PutFh, status_DELAY, [])]) (close_replies FileClose None) 1 status_DELAY"
proof -
  have "decode_close_compound (compound_reply status_DELAY [] [(op_u32 OpCode.Sequence, 0, replicate 36 0),
      (op_u32 OpCode.PutFh, status_DELAY, [])]) FileClose None = Err (at_reply 1 (cde_nfs status_DELAY OpCode.PutFh))"
    by (simp add: decode_close_compound_def shape_reply_count_def with_replies_wire u32_max_def and_then_def
        walk_sequence_wire advance_wire [where rest = "[]", simplified] del: op_u32.simps)
  then show ?thesis using close_compound_acknowledged by (fastforce simp: at_reply_def cde_nfs_def)
qed

text \<open>
  C29. A well-formed READ response, with any number of LOOKUPs before it, decodes to the
  end-of-file flag and the data the server sent.
\<close>

theorem read_path_round_trip:
  assumes "length tag \<le> u32_max" and "length seq = 36" and "length data \<le> u32_max" and "n + 3 \<le> u32_max"
  shows "decode_read_path_compound (compound_reply status_OK tag
      ([(op_u32 OpCode.Sequence, status_OK, seq), (op_u32 OpCode.PutFh, status_OK, [])] @
       replicate n (op_u32 OpCode.Lookup, status_OK, []) @
       [(op_u32 OpCode.Read, status_OK, be_bytes 4 (of_bool eof :: u32) @ opaque_wire data)])) n =
    Ok \<lparr> read_eof = eof, read_data = data \<rparr>"
proof -
  have r: "decode_read_data ((be_bytes 4 (of_bool eof :: u32) @ opaque_wire data) @ []) =
      (Ok \<lparr> read_eof = eof, read_data = data \<rparr>, [])"
    using assms decode_read_data_wire by blast
  show ?thesis
    unfolding decode_read_path_compound_def
    using assms walk_result_wire [where op = OpCode.Read and decode = decode_read_data and rest = "[]", OF refl _ r]
      lookups_wire [of "Suc (Suc 0)" n]
    by (simp add: with_replies_wire and_then_def walk_sequence_wire advance_wire [where rest = "concat _ @ _"]
        walk_finish_def require_result_def del: op_u32.simps)
qed

theorem read_path_round_trip_witness:
  "decode_read_path_compound (compound_reply status_OK [] [(op_u32 OpCode.Sequence, status_OK, replicate 36 0),
      (op_u32 OpCode.PutFh, status_OK, []), (op_u32 OpCode.Lookup, status_OK, []),
      (op_u32 OpCode.Read, status_OK, be_bytes 4 (of_bool True :: u32) @ opaque_wire [1, 2, 3])]) 1 =
    Ok \<lparr> read_eof = True, read_data = [1, 2, 3] \<rparr>"
  using read_path_round_trip [of "[]" "replicate 36 0" "[1, 2, 3]" 1 True] by (simp add: u32_max_def)

text \<open>
  C28. No bytes a server can send make a compound decoder panic.
\<close>

theorem compound_decoders_total:
  "decode_exchange_id_compound bs \<noteq> Panic \<and>
   decode_create_session_compound bs seq m \<noteq> Panic \<and>
   decode_no_result_compound bs op \<noteq> Panic \<and>
   decode_read_compound bs \<noteq> Panic \<and>
   decode_read_path_compound bs n \<noteq> Panic \<and>
   decode_read_path_handle_compound bs n \<noteq> Panic \<and>
   decode_read_path_size_compound bs n \<noteq> Panic \<and>
   decode_getfh_compound bs op n \<noteq> Panic \<and>
   decode_getfh_attrs_compound bs n req \<noteq> Panic \<and>
   decode_open_file_compound bs n \<noteq> Panic \<and>
   decode_fused_put_compound bs n create_new \<noteq> Panic \<and>
   decode_close_compound bs shape v \<noteq> Panic \<and>
   decode_close_batch_compound bs n \<noteq> Panic \<and>
   decode_rename_publish_compound bs n \<noteq> Panic \<and>
   decode_link_remove_publish_compound bs n \<noteq> Panic \<and>
   decode_write_compound bs \<noteq> Panic \<and>
   decode_write_commit_compound bs \<noteq> Panic \<and>
   decode_readdir_compound bs max_entries \<noteq> Panic \<and>
   decode_readdir_path_compound bs max_entries n \<noteq> Panic \<and>
   decode_readdir_path_without_handle_compound bs max_entries n \<noteq> Panic \<and>
   decode_create_dir_compound bs n \<noteq> Panic \<and>
   decode_create_dir_handle_compound bs n \<noteq> Panic \<and>
   decode_remove_compound bs n \<noteq> Panic"
  unfolding decode_exchange_id_compound_def decode_create_session_compound_def
  by (intro conjI decoders_not_Panic decode_setup_compound_correct [THEN conjunct1] safe_intros)

end
