(* ===== verification/Slots.thy ===== *)
theory Slots
  imports Errors
begin

text \<open>
  The session slot table (\<open>src/nfs4/slots.rs\<close>): its atomics and mutexes as one record, one
  definition per operation, and the tasks that share it as a transition system.

  A task goes through the phases of \<open>acquire_for_request\<close>, of a request on the slot and of the
  drop of the guard, and every interleaving of the steps of the tasks is a run. Three groups of accesses are
  one step: enabling the notification together with loading the limits, \<open>try_lock\<close> together with setting
  the activity flag, and one turn of the loop of \<open>request_highest_slotid\<close>. The unlock of the mutex, the
  notification and the return of the permit are separate steps. \<open>Notify\<close> is one flag per task:
  \<open>notified().enable()\<close> clears it, \<open>notify_waiters\<close> sets it for every task. A task may be
  cancelled at each of its await points.
\<close>

unbundle bit_operations_syntax

subsection \<open>The table\<close>

record SlotState =
  slot_id :: u32
  slot_sequenceid :: u32
  usable :: bool

record SlotTable =
  slots :: "SlotState list"
  locked :: "bool list"
  active :: "bool list"
  available :: usize
  available_closed :: bool
  live_slots :: usize
  slot_limits :: u64

definition pack_slot_limits :: "usize \<Rightarrow> usize \<Rightarrow> u64" where
  "pack_slot_limits enforced_highest_slotid target_highest_slotid =
     push_bit 32 (of_nat enforced_highest_slotid) OR of_nat target_highest_slotid"

definition slot_table_new :: "u32 \<Rightarrow> SlotTable" where
  "slot_table_new slot_count =
    (let slot_count = unat (max slot_count 1); highest_slotid = slot_count - 1 in
     \<lparr> slots = map (\<lambda>id. \<lparr> slot_id = of_nat id, slot_sequenceid = 1, usable = True \<rparr>) [0..<slot_count],
       locked = replicate slot_count False,
       active = replicate slot_count False,
       available = slot_count,
       available_closed = False,
       live_slots = slot_count,
       slot_limits = pack_slot_limits highest_slotid highest_slotid \<rparr>)"

definition get_slot_limits :: "SlotTable \<Rightarrow> usize \<times> usize" where
  "get_slot_limits tbl =
    (let limits = slot_limits tbl in (unat (drop_bit 32 limits), unat (ucast limits :: u32)))"

definition target_highest_slotid :: "SlotTable \<Rightarrow> usize" where
  "target_highest_slotid tbl = snd (get_slot_limits tbl)"

definition effective_len :: "SlotTable \<Rightarrow> usize" where
  "effective_len tbl = min (target_highest_slotid tbl + 1) (live_slots tbl)"

definition active_highest_slotid :: "SlotTable \<Rightarrow> usize" where
  "active_highest_slotid tbl =
    (case filter (\<lambda>i. active tbl ! i) (rev [0..<length (active tbl)]) of [] \<Rightarrow> 0 | i # _ \<Rightarrow> i)"

text \<open>One turn of the loop of \<open>request_highest_slotid\<close>: the slot is above a limit, the answer, or wait.\<close>

datatype HighestSlot = Withdrawn | Highest u32 | Blocked

definition request_highest_slotid :: "SlotTable \<Rightarrow> usize \<Rightarrow> HighestSlot" where
  "request_highest_slotid tbl acquired_slotid =
    (let (enforced_highest, target_highest) = get_slot_limits tbl in
     if acquired_slotid > target_highest \<or> acquired_slotid > enforced_highest then Withdrawn
     else let active_highest = active_highest_slotid tbl in
       if active_highest \<le> enforced_highest
       then Highest (of_nat (max active_highest target_highest))
       else Blocked)"

definition update_limits :: "u32 \<Rightarrow> u32 \<Rightarrow> SlotTable \<Rightarrow> SlotTable" where
  "update_limits highest target_highest tbl =
    (let local_highest = length (slots tbl) - 1;
         enforced = min (unat highest) local_highest;
         target = min (min (unat target_highest) enforced) local_highest
     in tbl\<lparr> slot_limits := pack_slot_limits enforced target \<rparr>)"

text \<open>\<open>try_lock\<close> of one slot in the loop of \<open>acquire\<close>.\<close>

datatype TrySlot = SlotTaken | SlotRetired | SlotBusy

definition try_slot :: "SlotTable \<Rightarrow> usize \<Rightarrow> TrySlot" where
  "try_slot tbl index =
    (if locked tbl ! index then SlotBusy
     else if usable (slots tbl ! index) then SlotTaken else SlotRetired)"

definition all_slots_unusable_error :: Error where
  "all_slots_unusable_error = ConnectionLost ''all eligible NFSv4.1 session slots are unusable''"

subsection \<open>The guard\<close>

record SlotGuard =
  guard_index :: usize
  request_outstanding :: bool
  retire_permit :: bool

definition new_guard :: "usize \<Rightarrow> SlotGuard" where
  "new_guard index = \<lparr> guard_index = index, request_outstanding = False, retire_permit = False \<rparr>"

definition mark_request_outstanding :: "SlotGuard \<Rightarrow> SlotGuard" where
  "mark_request_outstanding g = g\<lparr> request_outstanding := True \<rparr>"

definition disarm_request :: "SlotGuard \<Rightarrow> SlotGuard" where
  "disarm_request g = g\<lparr> request_outstanding := False \<rparr>"

definition advance_sequence :: "SlotGuard \<Rightarrow> SlotTable \<Rightarrow> SlotTable" where
  "advance_sequence g tbl =
    (let i = guard_index g; slot = slots tbl ! i in
     tbl\<lparr> slots := (slots tbl)[i := slot\<lparr> slot_sequenceid := slot_sequenceid slot + 1 \<rparr>] \<rparr>)"

definition mark_unusable :: "SlotGuard \<Rightarrow> SlotTable \<Rightarrow> SlotGuard \<times> SlotTable" where
  "mark_unusable g tbl =
    (let i = guard_index g; slot = slots tbl ! i in
     if usable slot then
       (g\<lparr> retire_permit := True \<rparr>,
        tbl\<lparr> slots := (slots tbl)[i := slot\<lparr> usable := False \<rparr>],
             live_slots := live_slots tbl - 1,
             available_closed := (if live_slots tbl = 1 then True else available_closed tbl) \<rparr>)
     else (g, tbl))"

text \<open>\<open>Drop for SlotGuard\<close>, then the drop of its mutex guard.\<close>

definition drop_guard :: "SlotGuard \<Rightarrow> SlotTable \<Rightarrow> SlotGuard \<times> SlotTable" where
  "drop_guard g tbl =
    (let (g, tbl) = (if request_outstanding g then mark_unusable g tbl else (g, tbl)) in
     (g, tbl\<lparr> locked := (locked tbl)[guard_index g := False] \<rparr>))"

subsection \<open>Tasks\<close>

text \<open>
  \<open>Scanning index limit saw\<close> holds a permit and has tried the slots below \<open>index\<close>;
  \<open>Peeking\<close> holds the mutex of a retired slot until the end of the \<open>match\<close>; \<open>Parked\<close> waits
  for a change without a permit; \<open>Checking\<close> and \<open>CheckParked\<close> are \<open>request_highest_slotid\<close>;
  \<open>Unlocked\<close> and \<open>Released\<close> are the two halves of \<open>Drop for SlotRelease\<close>, with whether the
  permit is forgotten and whether the slot is acquired again afterwards.
\<close>

datatype Phase =
    Idle
  | WantPermit
  | Scanning usize usize bool
  | Peeking usize usize bool
  | Parked usize
  | Checking SlotGuard
  | CheckParked SlotGuard
  | Holding SlotGuard
  | Unlocked usize bool bool
  | Released bool bool
  | NoSlot

text \<open>\<open>requests i\<close> is the ghost log of the sequence ids that may have reached the server on slot \<open>i\<close>.\<close>

record SlotWorld =
  tbl :: SlotTable
  phase :: "nat \<Rightarrow> Phase"
  woken :: "nat \<Rightarrow> bool"
  requests :: "usize \<Rightarrow> u32 list"

definition slot_init :: "u32 \<Rightarrow> SlotWorld \<Rightarrow> bool" where
  "slot_init slot_count w \<longleftrightarrow> tbl w = slot_table_new slot_count \<and> phase w = (\<lambda>_. Idle) \<and> requests w = (\<lambda>_. [])"

definition enter :: "nat \<Rightarrow> Phase \<Rightarrow> SlotWorld \<Rightarrow> SlotWorld" where
  "enter t p w = w\<lparr> phase := (phase w)(t := p) \<rparr>"

definition slot_seq :: "SlotWorld \<Rightarrow> usize \<Rightarrow> u32" where
  "slot_seq w i = slot_sequenceid (slots (tbl w) ! i)"

inductive slot_step :: "SlotWorld \<Rightarrow> SlotWorld \<Rightarrow> bool" where
  start: "phase w t = Idle \<Longrightarrow> slot_step w (enter t WantPermit w)"
| cancel: "phase w t \<in> {WantPermit} \<or> (\<exists>lim. phase w t = Parked lim) \<Longrightarrow> slot_step w (enter t Idle w)"
| permit: "phase w t = WantPermit \<Longrightarrow> \<not> available_closed (tbl w) \<Longrightarrow> 0 < available (tbl w) \<Longrightarrow>
    slot_step w (enter t (Scanning 0 (target_highest_slotid (tbl w)) False)
      (w\<lparr> tbl := (tbl w)\<lparr> available := available (tbl w) - 1 \<rparr>, woken := (woken w)(t := False) \<rparr>))"
| closed: "phase w t = WantPermit \<Longrightarrow> available_closed (tbl w) \<Longrightarrow> slot_step w (enter t NoSlot w)"
| take: "phase w t = Scanning i lim saw \<Longrightarrow> i \<le> lim \<Longrightarrow> try_slot (tbl w) i = SlotTaken \<Longrightarrow>
    slot_step w (enter t (Checking (new_guard i))
      (w\<lparr> tbl := (tbl w)\<lparr> locked := (locked (tbl w))[i := True], active := (active (tbl w))[i := True] \<rparr> \<rparr>))"
| peek: "phase w t = Scanning i lim saw \<Longrightarrow> i \<le> lim \<Longrightarrow> try_slot (tbl w) i = SlotRetired \<Longrightarrow>
    slot_step w (enter t (Peeking i lim saw) (w\<lparr> tbl := (tbl w)\<lparr> locked := (locked (tbl w))[i := True] \<rparr> \<rparr>))"
| unpeek: "phase w t = Peeking i lim saw \<Longrightarrow>
    slot_step w (enter t (Scanning (i + 1) lim saw) (w\<lparr> tbl := (tbl w)\<lparr> locked := (locked (tbl w))[i := False] \<rparr> \<rparr>))"
| busy: "phase w t = Scanning i lim saw \<Longrightarrow> i \<le> lim \<Longrightarrow> try_slot (tbl w) i = SlotBusy \<Longrightarrow>
    slot_step w (enter t (Scanning (i + 1) lim True) w)"
| give_up: "phase w t = Scanning i lim False \<Longrightarrow> lim < i \<Longrightarrow>
    slot_step w (enter t NoSlot (w\<lparr> tbl := (tbl w)\<lparr> available := available (tbl w) + 1 \<rparr> \<rparr>))"
| park: "phase w t = Scanning i lim True \<Longrightarrow> lim < i \<Longrightarrow>
    slot_step w (enter t (Parked lim) (w\<lparr> tbl := (tbl w)\<lparr> available := available (tbl w) + 1 \<rparr> \<rparr>))"
| wake: "phase w t = Parked lim \<Longrightarrow> woken w t \<Longrightarrow> slot_step w (enter t WantPermit w)"
| granted: "phase w t = Checking g \<Longrightarrow> request_highest_slotid (tbl w) (guard_index g) = Highest h \<Longrightarrow>
    slot_step w (enter t (Holding g) w)"
| withdrawn: "phase w t = Checking g \<Longrightarrow> request_highest_slotid (tbl w) (guard_index g) = Withdrawn \<Longrightarrow>
    drop_guard g (tbl w) = (g', tb) \<Longrightarrow>
    slot_step w (enter t (Unlocked (guard_index g') (retire_permit g') True) (w\<lparr> tbl := tb \<rparr>))"
| blocked: "phase w t = Checking g \<Longrightarrow> request_highest_slotid (tbl w) (guard_index g) = Blocked \<Longrightarrow>
    slot_step w (enter t (CheckParked g) (w\<lparr> woken := (woken w)(t := False) \<rparr>))"
| recheck: "phase w t = CheckParked g \<Longrightarrow> woken w t \<Longrightarrow> slot_step w (enter t (Checking g) w)"
| arm: "phase w t = Holding g \<Longrightarrow> \<not> request_outstanding g \<Longrightarrow>
    slot_step w (enter t (Holding (mark_request_outstanding g))
      (w\<lparr> requests := (requests w)(guard_index g := requests w (guard_index g) @ [slot_seq w (guard_index g)]) \<rparr>))"
| not_sent: "phase w t = Holding g \<Longrightarrow> request_outstanding g \<Longrightarrow>
    slot_step w (enter t (Holding (disarm_request g))
      (w\<lparr> requests := (requests w)(guard_index g := butlast (requests w (guard_index g))) \<rparr>))"
| limits: "phase w t = Holding g \<Longrightarrow> request_outstanding g \<Longrightarrow>
    slot_step w (w\<lparr> tbl := update_limits hi tgt (tbl w), woken := (\<lambda>_. True) \<rparr>)"
| confirm: "phase w t = Holding g \<Longrightarrow> request_outstanding g \<Longrightarrow>
    slot_step w (enter t (Holding (disarm_request g)) (w\<lparr> tbl := advance_sequence g (tbl w) \<rparr>))"
| dropped: "phase w t \<in> {Holding g, CheckParked g} \<Longrightarrow> drop_guard g (tbl w) = (g', tb) \<Longrightarrow>
    slot_step w (enter t (Unlocked (guard_index g') (retire_permit g') False) (w\<lparr> tbl := tb \<rparr>))"
| notify: "phase w t = Unlocked i retire again \<Longrightarrow>
    slot_step w (enter t (Released retire again)
      (w\<lparr> tbl := (tbl w)\<lparr> active := (active (tbl w))[i := False] \<rparr>, woken := (\<lambda>_. True) \<rparr>))"
| finish: "phase w t = Released retire again \<Longrightarrow>
    slot_step w (enter t (if again then WantPermit else Idle)
      (w\<lparr> tbl := (tbl w)\<lparr> available := available (tbl w) + (if retire then 0 else 1) \<rparr> \<rparr>))"

subsection \<open>Limits\<close>

lemma nth_update_if: "xs[i := x] ! j = (if i = j \<and> i < length xs then x else xs ! j)"
  by (cases "i < length xs") (simp_all add: nth_list_update list_update_beyond not_less)

lemma get_slot_limits_pack [simp]:
  assumes "e < 2 ^ 32" and "t < 2 ^ 32"
  shows "get_slot_limits (tb\<lparr> slot_limits := pack_slot_limits e t \<rparr>) = (e, t)"
proof -
  have t: "ucast (pack_slot_limits e t) = (of_nat t :: u32)"
    unfolding pack_slot_limits_def by (rule bit_word_eqI) (auto simp: bit_simps)
  have small: "drop_bit 32 (of_nat t :: u64) = 0"
    using assms(2) by (simp add: drop_bit_eq_div word_arith_nat_div unat_of_nat)
  have "drop_bit 32 (pack_slot_limits e t) = drop_bit 32 (push_bit 32 (of_nat e :: u64))"
    unfolding pack_slot_limits_def using small by (simp add: drop_bit_or)
  also have "\<dots> = (of_nat e :: u64)"
  proof (rule bit_word_eqI)
    fix i assume "i < LENGTH(64)"
    have "take_bit 32 (of_nat e :: u64) = of_nat e"
      using assms(1) by (simp add: take_bit_of_nat take_bit_nat_eq_self)
    then have "\<not> bit (of_nat e :: u64) i" if "32 \<le> i"
      using that by (metis bit_take_bit_iff not_le)
    then show "bit (drop_bit 32 (push_bit 32 (of_nat e :: u64))) i = bit (of_nat e :: u64) i"
      using \<open>i < LENGTH(64)\<close> not_le [of 32 i] by (auto simp: bit_simps)
  qed
  finally have e: "drop_bit 32 (pack_slot_limits e t) = (of_nat e :: u64)" .
  show ?thesis using assms by (simp add: get_slot_limits_def e t Let_def unat_of_nat)
qed

definition shape :: "SlotTable \<Rightarrow> bool" where
  "shape tb \<longleftrightarrow> 0 < length (slots tb) \<and> length (slots tb) < 2 ^ 32 \<and>
     length (locked tb) = length (slots tb) \<and> length (active tb) = length (slots tb) \<and>
     snd (get_slot_limits tb) \<le> fst (get_slot_limits tb) \<and> fst (get_slot_limits tb) < length (slots tb) \<and>
     (\<forall>i < length (slots tb). slot_id (slots tb ! i) = of_nat i)"

lemma get_slot_limits_cong [simp]:
  "get_slot_limits (tb\<lparr> slots := a \<rparr>) = get_slot_limits tb"
  "get_slot_limits (tb\<lparr> locked := b \<rparr>) = get_slot_limits tb"
  "get_slot_limits (tb\<lparr> active := c \<rparr>) = get_slot_limits tb"
  "get_slot_limits (tb\<lparr> available := d \<rparr>) = get_slot_limits tb"
  "get_slot_limits (tb\<lparr> available_closed := x \<rparr>) = get_slot_limits tb"
  "get_slot_limits (tb\<lparr> live_slots := y \<rparr>) = get_slot_limits tb"
  by (simp_all add: get_slot_limits_def)

lemma shape_new: "shape (slot_table_new n)"
proof -
  let ?c = "unat (max n 1)"
  have c: "0 < ?c" "?c < 2 ^ 32" using unat_less_2p32 [of "max n 1"] by (auto simp: unat_gt_0 max_def)
  have "get_slot_limits (slot_table_new n) = (?c - 1, ?c - 1)"
    using get_slot_limits_pack [of "?c - 1" "?c - 1" "slot_table_new n"] less_imp_diff_less [OF c(2), of 1]
    by (simp add: slot_table_new_def Let_def)
  then show ?thesis using c by (auto simp: shape_def slot_table_new_def Let_def)
qed

lemma shape_update_limits:
  assumes "shape tb"
  shows "shape (update_limits hi tgt tb)"
proof -
  let ?e = "min (unat hi) (length (slots tb) - 1)"
  have "get_slot_limits (update_limits hi tgt tb) = (?e, min (min (unat tgt) ?e) (length (slots tb) - 1))"
    unfolding update_limits_def Let_def using assms
    by (subst get_slot_limits_pack) (auto simp: shape_def)
  then show ?thesis using assms by (auto simp: shape_def update_limits_def Let_def)
qed

lemma shape_advance: "shape tb \<Longrightarrow> shape (advance_sequence g tb)"
  by (auto simp: shape_def advance_sequence_def Let_def nth_update_if)

lemma drop_guard_shape: "shape tb \<Longrightarrow> shape (snd (drop_guard g tb))"
  by (auto simp: shape_def drop_guard_def mark_unusable_def Let_def nth_update_if split: prod.splits)

lemma slot_step_shape: "slot_step w w' \<Longrightarrow> shape (tbl w) \<Longrightarrow> shape (tbl w')"
proof (induction rule: slot_step.induct)
  case (withdrawn w t g g' tb) then show ?case using drop_guard_shape [of "tbl w" g] by (simp add: enter_def)
next
  case (dropped w t g g' tb) then show ?case using drop_guard_shape [of "tbl w" g] by (simp add: enter_def)
next
  case (limits w t g hi tgt) then show ?case by (simp add: enter_def shape_update_limits)
next
  case (confirm w t g) then show ?case by (simp add: enter_def shape_advance)
qed (simp_all add: enter_def shape_def)

subsection \<open>Mutexes and phases\<close>

fun guard_of :: "Phase \<Rightarrow> SlotGuard option" where
  "guard_of (Checking g) = Some g"
| "guard_of (CheckParked g) = Some g"
| "guard_of (Holding g) = Some g"
| "guard_of _ = None"

fun mutex_of :: "Phase \<Rightarrow> usize option" where
  "mutex_of (Peeking i lim saw) = Some i"
| "mutex_of p = map_option guard_index (guard_of p)"

fun phase_ok :: "SlotTable \<Rightarrow> Phase \<Rightarrow> bool" where
  "phase_ok tb (Scanning i lim saw) \<longleftrightarrow> i \<le> lim + 1 \<and> lim < length (slots tb)"
| "phase_ok tb (Peeking i lim saw) \<longleftrightarrow> i \<le> lim \<and> lim < length (slots tb) \<and> \<not> usable (slots tb ! i)"
| "phase_ok tb (Parked lim) \<longleftrightarrow> lim < length (slots tb)"
| "phase_ok tb (Holding g) \<longleftrightarrow> guard_index g < length (slots tb) \<and> usable (slots tb ! guard_index g) \<and> \<not> retire_permit g"
| "phase_ok tb (Unlocked i retire again) \<longleftrightarrow> i < length (slots tb)"
| "phase_ok tb p \<longleftrightarrow> (\<forall>g. guard_of p = Some g \<longrightarrow> \<not> request_outstanding g \<and> guard_index g < length (slots tb) \<and>
     usable (slots tb ! guard_index g) \<and> \<not> retire_permit g)"

definition owned :: "SlotWorld \<Rightarrow> bool" where
  "owned w \<longleftrightarrow>
     (\<forall>t. phase_ok (tbl w) (phase w t)) \<and>
     (\<forall>t i. mutex_of (phase w t) = Some i \<longrightarrow> locked (tbl w) ! i) \<and>
     (\<forall>i < length (slots (tbl w)). locked (tbl w) ! i \<longrightarrow> (\<exists>t. mutex_of (phase w t) = Some i)) \<and>
     (\<forall>t u i. mutex_of (phase w t) = Some i \<longrightarrow> mutex_of (phase w u) = Some i \<longrightarrow> t = u)"

lemma mutex_guard: "guard_of p = Some g \<Longrightarrow> mutex_of p = Some (guard_index g)"
  by (cases p) auto

lemma phase_ok_index: "shape tb \<Longrightarrow> phase_ok tb p \<Longrightarrow> mutex_of p = Some i \<Longrightarrow> i < length (slots tb)"
  by (cases p) auto

lemma phase_ok_cong:
  assumes "length (slots tb') = length (slots tb)" and "\<And>i. usable (slots tb' ! i) = usable (slots tb ! i)"
  shows "phase_ok tb' p = phase_ok tb p"
  using assms by (cases p) simp_all

lemma phase_ok_retire:
  assumes "length (slots tb') = length (slots tb)"
    and "\<And>i. i \<noteq> j \<Longrightarrow> usable (slots tb' ! i) = usable (slots tb ! i)" and "\<not> usable (slots tb' ! j)"
    and "guard_of p = None \<or> mutex_of p \<noteq> Some j" and "phase_ok tb p"
  shows "phase_ok tb' p"
  using assms by (cases p) (auto, (metis+)?)

lemma drop_guard_cases:
  assumes "drop_guard g tb = (g', tb')" and "usable (slots tb ! guard_index g)"
    and "guard_index g < length (slots tb)" and "\<not> retire_permit g"
  shows "guard_index g' = guard_index g" and "retire_permit g' = request_outstanding g"
    and "locked tb' = (locked tb)[guard_index g := False]" and "active tb' = active tb"
    and "available tb' = available tb" and "get_slot_limits tb' = get_slot_limits tb"
    and "length (slots tb') = length (slots tb)"
    and "\<And>i. slot_sequenceid (slots tb' ! i) = slot_sequenceid (slots tb ! i)"
    and "\<And>i. usable (slots tb' ! i) = (usable (slots tb ! i) \<and> (i = guard_index g \<longrightarrow> \<not> request_outstanding g))"
    and "live_slots tb' = live_slots tb - of_bool (request_outstanding g)"
    and "available_closed tb' = (available_closed tb \<or> request_outstanding g \<and> live_slots tb = 1)"
  using assms by (auto simp: drop_guard_def mark_unusable_def Let_def nth_update_if split: if_splits)

lemma owned_same:
  assumes "owned w" and "mutex_of p = mutex_of (phase w t)" and "locked tb = locked (tbl w)"
    and "length (slots tb) = length (slots (tbl w))"
    and "\<And>u. u \<noteq> t \<Longrightarrow> phase_ok tb (phase w u)" and "phase_ok tb p"
    and "tbl w' = tb" and "phase w' = (phase w)(t := p)"
  shows "owned w'"
  using assms unfolding owned_def by (simp add: fun_upd_apply) (metis+)?

lemma owned_lock:
  assumes w: "owned w" "shape (tbl w)" and p: "mutex_of (phase w t) = None" "mutex_of p = Some i"
    and i: "i < length (slots (tbl w))" "\<not> locked (tbl w) ! i" and tb: "locked tb = (locked (tbl w))[i := True]"
    "length (slots tb) = length (slots (tbl w))"
    and ok: "\<And>u. u \<noteq> t \<Longrightarrow> phase_ok tb (phase w u)" "phase_ok tb p"
    and w': "tbl w' = tb" "phase w' = (phase w)(t := p)"
  shows "owned w'"
proof -
  have free: "mutex_of (phase w u) \<noteq> Some i" for u using w(1) i(2) by (auto simp: owned_def)
  have len: "i < length (locked (tbl w))" using w(2) i(1) by (simp add: shape_def)
  show ?thesis
    using assms free len unfolding owned_def
    by (intro conjI allI impI) (auto simp: nth_update_if split: if_splits, metis option.distinct(1))
qed

lemma owned_unlock:
  assumes w: "owned w" "shape (tbl w)" and p: "mutex_of (phase w t) = Some i" "mutex_of p = None"
    and tb: "locked tb = (locked (tbl w))[i := False]" "length (slots tb) = length (slots (tbl w))"
    and ok: "\<And>u. u \<noteq> t \<Longrightarrow> phase_ok tb (phase w u)" "phase_ok tb p"
    and w': "tbl w' = tb" "phase w' = (phase w)(t := p)"
  shows "owned w'"
proof -
  have only: "mutex_of (phase w u) = Some i \<Longrightarrow> u = t" for u using w(1) p(1) unfolding owned_def by blast
  have i: "i < length (slots (tbl w))" "i < length (locked (tbl w))"
    using phase_ok_index [OF w(2) _ p(1)] w by (auto simp: owned_def shape_def)
  show ?thesis unfolding owned_def w' tb
  proof (intro conjI allI impI)
    fix u show "phase_ok tb (((phase w)(t := p)) u)" using ok by simp
  next
    fix u j assume "mutex_of (((phase w)(t := p)) u) = Some j"
    then have u: "u \<noteq> t" "mutex_of (phase w u) = Some j" using p(2) by (auto split: if_splits)
    then have "j \<noteq> i" using only by blast
    then show "(locked (tbl w))[i := False] ! j" using w(1) u(2) by (simp add: owned_def nth_update_if)
  next
    fix j assume "j < length (slots (tbl w))" "(locked (tbl w))[i := False] ! j"
    then obtain u where u: "mutex_of (phase w u) = Some j" "j \<noteq> i"
      using w(1) i by (auto simp: owned_def nth_update_if split: if_splits)
    then show "\<exists>u. mutex_of (((phase w)(t := p)) u) = Some j" using p(1) by (metis fun_upd_apply option.inject)
  next
    fix u v j assume "mutex_of (((phase w)(t := p)) u) = Some j" "mutex_of (((phase w)(t := p)) v) = Some j"
    then show "u = v" using w(1) p(2) unfolding owned_def by (metis fun_upd_apply option.distinct(1))
  qed
qed

lemma owned_drop:
  assumes w: "owned w" "shape (tbl w)" and g: "guard_of (phase w t) = Some g"
    and d: "drop_guard g (tbl w) = (g', tb)"
    and w': "tbl w' = tb" "phase w' = (phase w)(t := Unlocked (guard_index g') (retire_permit g') again)"
  shows "owned w'"
proof -
  have ok: "phase_ok (tbl w) (phase w u)" for u using w(1) by (simp add: owned_def)
  have g': "usable (slots (tbl w) ! guard_index g)" "guard_index g < length (slots (tbl w))" "\<not> retire_permit g"
    using ok [of t] g by (cases "phase w t"; auto)+
  note c = drop_guard_cases [OF d g']
  have only: "guard_of (phase w u) = None \<or> mutex_of (phase w u) \<noteq> Some (guard_index g)" if "u \<noteq> t" for u
    using w(1) mutex_guard [OF g] that unfolding owned_def by blast
  have "phase_ok tb (phase w u)" if "u \<noteq> t" for u
  proof (cases "request_outstanding g")
    case True
    then show ?thesis using phase_ok_retire [OF c(7) _ _ only [OF that] ok] c(9) g'(1) by simp
  next
    case False
    then show ?thesis using phase_ok_cong [OF c(7)] c(9) ok by simp
  qed
  then show ?thesis
    using w mutex_guard [OF g] c g' w' by (intro owned_unlock [OF w mutex_guard [OF g]]) auto
qed

lemma owned_step:
  assumes "owned w" and "phase w' = (phase w)(t := p)" and "mutex_of p = mutex_of (phase w t)"
    and "locked (tbl w') = locked (tbl w)" and "length (slots (tbl w')) = length (slots (tbl w))"
    and "\<And>i. usable (slots (tbl w') ! i) = usable (slots (tbl w) ! i)" and "phase_ok (tbl w) p"
  shows "owned w'"
proof -
  have "phase_ok (tbl w') q = phase_ok (tbl w) q" for q by (rule phase_ok_cong) (use assms in auto)
  then show ?thesis using assms by (intro owned_same [OF assms(1,3), where tb = "tbl w'"]) (auto simp: owned_def)
qed

lemma slot_step_owned:
  assumes "slot_step w w'" and sh: "shape (tbl w)" and ow: "owned w"
  shows "owned w'"
proof -
  have ok: "phase_ok (tbl w) (phase w t)" for t using ow by (simp add: owned_def)
  from assms(1) show ?thesis
  proof (cases rule: slot_step.cases)
  case (start t)
  then show ?thesis using ok [of t] sh
    by (intro owned_step [OF ow, where t = t and p = "phase w' t"])
      (auto simp: enter_def shape_def target_highest_slotid_def mark_request_outstanding_def disarm_request_def)
next
  case (cancel t)
  then show ?thesis using ok [of t] sh
    by (intro owned_step [OF ow, where t = t and p = "phase w' t"])
      (auto simp: enter_def shape_def target_highest_slotid_def mark_request_outstanding_def disarm_request_def)
next
  case (closed t)
  then show ?thesis using ok [of t] sh
    by (intro owned_step [OF ow, where t = t and p = "phase w' t"])
      (auto simp: enter_def shape_def target_highest_slotid_def mark_request_outstanding_def disarm_request_def)
next
  case (busy t i lim saw)
  then show ?thesis using ok [of t] sh
    by (intro owned_step [OF ow, where t = t and p = "phase w' t"])
      (auto simp: enter_def shape_def target_highest_slotid_def mark_request_outstanding_def disarm_request_def)
next
  case (give_up t i lim)
  then show ?thesis using ok [of t] sh
    by (intro owned_step [OF ow, where t = t and p = "phase w' t"])
      (auto simp: enter_def shape_def target_highest_slotid_def mark_request_outstanding_def disarm_request_def)
next
  case (park t i lim)
  then show ?thesis using ok [of t] sh
    by (intro owned_step [OF ow, where t = t and p = "phase w' t"])
      (auto simp: enter_def shape_def target_highest_slotid_def mark_request_outstanding_def disarm_request_def)
next
  case (wake t lim)
  then show ?thesis using ok [of t] sh
    by (intro owned_step [OF ow, where t = t and p = "phase w' t"])
      (auto simp: enter_def shape_def target_highest_slotid_def mark_request_outstanding_def disarm_request_def)
next
  case (granted t g h)
  then show ?thesis using ok [of t] sh
    by (intro owned_step [OF ow, where t = t and p = "phase w' t"])
      (auto simp: enter_def shape_def target_highest_slotid_def mark_request_outstanding_def disarm_request_def)
next
  case (blocked t g)
  then show ?thesis using ok [of t] sh
    by (intro owned_step [OF ow, where t = t and p = "phase w' t"])
      (auto simp: enter_def shape_def target_highest_slotid_def mark_request_outstanding_def disarm_request_def)
next
  case (recheck t g)
  then show ?thesis using ok [of t] sh
    by (intro owned_step [OF ow, where t = t and p = "phase w' t"])
      (auto simp: enter_def shape_def target_highest_slotid_def mark_request_outstanding_def disarm_request_def)
next
  case (arm t g)
  then show ?thesis using ok [of t] sh
    by (intro owned_step [OF ow, where t = t and p = "phase w' t"])
      (auto simp: enter_def shape_def target_highest_slotid_def mark_request_outstanding_def disarm_request_def)
next
  case (not_sent t g)
  then show ?thesis using ok [of t] sh
    by (intro owned_step [OF ow, where t = t and p = "phase w' t"])
      (auto simp: enter_def shape_def target_highest_slotid_def mark_request_outstanding_def disarm_request_def)
next
  case (notify t i retire again)
  then show ?thesis using ok [of t] sh
    by (intro owned_step [OF ow, where t = t and p = "phase w' t"])
      (auto simp: enter_def shape_def target_highest_slotid_def mark_request_outstanding_def disarm_request_def)
next
  case (finish t retire again)
  then show ?thesis using ok [of t] sh
    by (intro owned_step [OF ow, where t = t and p = "phase w' t"])
      (auto simp: enter_def shape_def target_highest_slotid_def mark_request_outstanding_def disarm_request_def)
next
  case (permit t)
  then show ?thesis using ok [of t] sh
    by (intro owned_step [OF ow, where t = t and p = "phase w' t"])
      (auto simp: enter_def shape_def target_highest_slotid_def mark_request_outstanding_def disarm_request_def)
next
  case (take t i lim saw)
  have "i < length (slots (tbl w))" using take ok [of t] by auto
  with take show ?thesis
    by (intro owned_lock [OF ow sh, where t = t and i = i and tb = "tbl w'" and p = "phase w' t"])
      (auto simp: enter_def try_slot_def new_guard_def ok phase_ok_cong [of _ "tbl w"] split: if_splits)
next
  case (peek t i lim saw)
  have "lim < length (slots (tbl w))" using peek ok [of t] by auto
  with peek show ?thesis
    by (intro owned_lock [OF ow sh, where t = t and i = i and tb = "tbl w'" and p = "phase w' t"])
      (auto simp: enter_def try_slot_def ok phase_ok_cong [of _ "tbl w"] split: if_splits)
next
  case (unpeek t i lim saw)
  have "i \<le> lim" "lim < length (slots (tbl w))" using unpeek ok [of t] by auto
  with unpeek show ?thesis
    by (intro owned_unlock [OF ow sh, where t = t and i = i and tb = "tbl w'" and p = "phase w' t"])
      (auto simp: enter_def ok phase_ok_cong [of _ "tbl w"])
next
  case (withdrawn t g g' tb)
  then show ?thesis by (intro owned_drop [OF ow sh, where t = t and g = g]) (auto simp: enter_def)
next
  case (dropped t g g' tb)
  then show ?thesis by (intro owned_drop [OF ow sh, where t = t and g = g]) (auto simp: enter_def)
next
  case (limits t g hi tgt)
  then show ?thesis using ok [of t]
    by (intro owned_step [OF ow, where t = t and p = "phase w' t"]) (auto simp: update_limits_def Let_def)
next
  case (confirm t g)
  then show ?thesis using ok [of t]
    by (intro owned_step [OF ow, where t = t and p = "phase w' t"])
      (auto simp: enter_def advance_sequence_def disarm_request_def Let_def nth_update_if)
qed
qed

subsection \<open>Permits and live slots\<close>

fun holds_permit :: "Phase \<Rightarrow> bool" where
  "holds_permit (Scanning i lim saw) = True"
| "holds_permit (Peeking i lim saw) = True"
| "holds_permit (Unlocked i retire again) = True"
| "holds_permit (Released retire again) = True"
| "holds_permit p = (guard_of p \<noteq> None)"

fun forgets_permit :: "Phase \<Rightarrow> bool" where
  "forgets_permit (Unlocked i retire again) = retire"
| "forgets_permit (Released retire again) = retire"
| "forgets_permit p = False"

definition permits_ok :: "SlotWorld \<Rightarrow> bool" where
  "permits_ok w \<longleftrightarrow>
     live_slots (tbl w) = length (filter usable (slots (tbl w))) \<and>
     (available_closed (tbl w) \<longleftrightarrow> live_slots (tbl w) = 0) \<and>
     finite {t. holds_permit (phase w t)} \<and>
     available (tbl w) + card {t. holds_permit (phase w t)} =
       live_slots (tbl w) + card {t. forgets_permit (phase w t)}"

lemma forgets_holds: "forgets_permit p \<Longrightarrow> holds_permit p"
  by (cases p) auto

lemma card_upd:
  assumes "finite {u. P (f u)}"
  shows "finite {u. P ((f(t := p)) u)}"
    and "card {u. P ((f(t := p)) u)} + of_bool (P (f t)) = card {u. P (f u)} + of_bool (P p)"
proof -
  have "{u. P ((f(t := p)) u)} = (if P p then insert t {u. P (f u)} else {u. P (f u)} - {t})" by auto
  moreover have "P (f t) \<longleftrightarrow> t \<in> {u. P (f u)}" by simp
  ultimately show "finite {u. P ((f(t := p)) u)}"
    "card {u. P ((f(t := p)) u)} + of_bool (P (f t)) = card {u. P (f u)} + of_bool (P p)"
    using assms card_Suc_Diff1 [OF assms, of t] by (auto simp: card_insert_if)
qed

lemma permits_step:
  assumes "permits_ok w" and "phase w' = (phase w)(t := p)"
    and "available (tbl w') + live_slots (tbl w) + of_bool (holds_permit p) + of_bool (forgets_permit (phase w t)) =
         available (tbl w) + live_slots (tbl w') + of_bool (holds_permit (phase w t)) + of_bool (forgets_permit p)"
    and "live_slots (tbl w') = length (filter usable (slots (tbl w')))"
    and "available_closed (tbl w') \<longleftrightarrow> live_slots (tbl w') = 0"
  shows "permits_ok w'"
proof -
  have f: "finite {u. holds_permit (phase w u)}" "finite {u. forgets_permit (phase w u)}"
    using assms(1) forgets_holds by (auto simp: permits_ok_def intro: rev_finite_subset)
  show ?thesis
    using assms card_upd [of holds_permit "phase w" t p, OF f(1)] card_upd [of forgets_permit "phase w" t p, OF f(2)]
    unfolding permits_ok_def by simp
qed

lemma filter_update_length:
  assumes "i < length xs" and "P (xs ! i)" and "\<not> P x"
  shows "length (filter P xs) = Suc (length (filter P (xs[i := x])))"
  using assms by (induction xs arbitrary: i) (auto simp: nth_Cons split: nat.splits)

lemma filter_update_same:
  assumes "P x = P (xs ! i)"
  shows "length (filter P (xs[i := x])) = length (filter P xs)"
  using assms by (induction xs arbitrary: i) (auto simp: nth_Cons split: nat.splits)

lemma drop_guard_live:
  assumes "drop_guard g tb = (g', tb')" and "guard_index g < length (slots tb)" and "usable (slots tb ! guard_index g)"
  shows "length (filter usable (slots tb)) = length (filter usable (slots tb')) + of_bool (request_outstanding g)"
  using assms filter_update_length [of "guard_index g" "slots tb" usable "(slots tb ! guard_index g)\<lparr> usable := False \<rparr>"]
  by (auto simp: drop_guard_def mark_unusable_def Let_def split: if_splits)

lemma permits_drop:
  assumes w: "permits_ok w" "owned w" and g: "guard_of (phase w t) = Some g" and d: "drop_guard g (tbl w) = (g', tb)"
    and w': "tbl w' = tb" "phase w' = (phase w)(t := Unlocked (guard_index g') (retire_permit g') again)"
  shows "permits_ok w'"
proof -
  have g': "usable (slots (tbl w) ! guard_index g)" "guard_index g < length (slots (tbl w))" "\<not> retire_permit g"
    using w(2) g by (cases "phase w t"; auto simp: owned_def dest: spec [of _ t])+
  note c = drop_guard_cases [OF d g']
  have "holds_permit (phase w t)" "\<not> forgets_permit (phase w t)" using g by (cases "phase w t"; simp)+
  then show ?thesis
    using w(1) c drop_guard_live [OF d g'(2,1)] w'
    by (intro permits_step [OF w(1) w'(2)]) (auto simp: permits_ok_def)
qed


lemma slot_step_permits:
  assumes "slot_step w w'" and ow: "owned w" and pm: "permits_ok w"
  shows "permits_ok w'"
  using assms(1)
proof (cases rule: slot_step.cases)
  case (start t) then show ?thesis using pm by (intro permits_step [OF pm, of w' t "phase w' t"]) (auto simp: enter_def permits_ok_def)
next
  case (cancel t) then show ?thesis using pm by (intro permits_step [OF pm, of w' t "phase w' t"]) (auto simp: enter_def permits_ok_def)
next
  case (closed t) then show ?thesis using pm by (intro permits_step [OF pm, of w' t "phase w' t"]) (auto simp: enter_def permits_ok_def)
next
  case (busy t i lim saw) then show ?thesis using pm by (intro permits_step [OF pm, of w' t "phase w' t"]) (auto simp: enter_def permits_ok_def)
next
  case (give_up t i lim) then show ?thesis using pm by (intro permits_step [OF pm, of w' t "phase w' t"]) (auto simp: enter_def permits_ok_def)
next
  case (park t i lim) then show ?thesis using pm by (intro permits_step [OF pm, of w' t "phase w' t"]) (auto simp: enter_def permits_ok_def)
next
  case (wake t lim) then show ?thesis using pm by (intro permits_step [OF pm, of w' t "phase w' t"]) (auto simp: enter_def permits_ok_def)
next
  case (granted t g h) then show ?thesis using pm by (intro permits_step [OF pm, of w' t "phase w' t"]) (auto simp: enter_def permits_ok_def)
next
  case (blocked t g) then show ?thesis using pm by (intro permits_step [OF pm, of w' t "phase w' t"]) (auto simp: enter_def permits_ok_def)
next
  case (recheck t g) then show ?thesis using pm by (intro permits_step [OF pm, of w' t "phase w' t"]) (auto simp: enter_def permits_ok_def)
next
  case (arm t g) then show ?thesis using pm by (intro permits_step [OF pm, of w' t "phase w' t"]) (auto simp: enter_def permits_ok_def)
next
  case (not_sent t g) then show ?thesis using pm by (intro permits_step [OF pm, of w' t "phase w' t"]) (auto simp: enter_def permits_ok_def)
next
  case (notify t i retire again) then show ?thesis using pm by (intro permits_step [OF pm, of w' t "phase w' t"]) (auto simp: enter_def permits_ok_def)
next
  case (finish t retire again) then show ?thesis using pm by (intro permits_step [OF pm, of w' t "phase w' t"]) (auto simp: enter_def permits_ok_def)
next
  case (permit t) then show ?thesis using pm by (intro permits_step [OF pm, of w' t "phase w' t"]) (auto simp: enter_def permits_ok_def)
next
  case (take t i lim saw) then show ?thesis using pm by (intro permits_step [OF pm, of w' t "phase w' t"]) (auto simp: enter_def permits_ok_def)
next
  case (peek t i lim saw) then show ?thesis using pm by (intro permits_step [OF pm, of w' t "phase w' t"]) (auto simp: enter_def permits_ok_def)
next
  case (unpeek t i lim saw) then show ?thesis using pm by (intro permits_step [OF pm, of w' t "phase w' t"]) (auto simp: enter_def permits_ok_def)
next
  case (withdrawn t g g' tb) then show ?thesis by (intro permits_drop [OF pm ow, of t g g' tb]) (auto simp: enter_def)
next
  case (dropped t g g' tb) then show ?thesis by (intro permits_drop [OF pm ow, of t g g' tb]) (auto simp: enter_def)
next
  case (limits t g hi tgt)
  then show ?thesis using pm by (intro permits_step [OF pm, of w' t "phase w' t"]) (auto simp: permits_ok_def update_limits_def Let_def)
next
  case (confirm t g)
  then show ?thesis using pm
    by (intro permits_step [OF pm, of w' t "phase w' t"])
      (auto simp: enter_def permits_ok_def advance_sequence_def Let_def filter_update_same)
qed

subsection \<open>Sequence ids\<close>

fun armed :: "Phase \<Rightarrow> usize option" where
  "armed (Holding g) = (if request_outstanding g then Some (guard_index g) else None)"
| "armed p = None"

text \<open>
  The requests that may have reached the server on a slot carry the sequence ids 1, 2, 3 and so
  on; while the slot is usable its next id follows the last one.
\<close>

definition seq_log :: "nat \<Rightarrow> u32 list" where
  "seq_log n = map of_nat [1..<Suc n]"

lemma seq_log_simps [simp]:
  "length (seq_log n) = n" "seq_log 0 = []" "seq_log (Suc n) = seq_log n @ [of_nat (Suc n)]"
  by (simp_all add: seq_log_def)

definition log_ok :: "SlotWorld \<Rightarrow> bool" where
  "log_ok w \<longleftrightarrow> (\<forall>i.
     requests w i = seq_log (length (requests w i)) \<and>
     (i < length (slots (tbl w)) \<longrightarrow> usable (slots (tbl w) ! i) \<longrightarrow>
       (if \<exists>t. armed (phase w t) = Some i
        then requests w i \<noteq> [] \<and> slot_seq w i = of_nat (length (requests w i))
        else slot_seq w i = of_nat (Suc (length (requests w i))))))"

lemma armed_mutex: "armed p = Some i \<Longrightarrow> mutex_of p = Some i"
  by (cases p) (auto split: if_splits)

lemma log_step:
  assumes "log_ok w" and "phase w' = (phase w)(t := p)" and "armed p = armed (phase w t)"
    and "requests w' = requests w" and "length (slots (tbl w')) = length (slots (tbl w))"
    and "\<And>i. usable (slots (tbl w') ! i) \<Longrightarrow> usable (slots (tbl w) ! i)" and "\<And>i. slot_seq w' i = slot_seq w i"
  shows "log_ok w'"
proof -
  have "(\<exists>u. armed (phase w' u) = Some i) = (\<exists>u. armed (phase w u) = Some i)" for i
    using assms(2,3) by (metis fun_upd_apply)
  then show ?thesis using assms unfolding log_ok_def by auto
qed

lemma log_drop:
  assumes lg: "log_ok w" and ow: "owned w" and g: "guard_of (phase w t) = Some g" and d: "drop_guard g (tbl w) = (g', tb)"
    and w': "tbl w' = tb" "phase w' = (phase w)(t := Unlocked (guard_index g') (retire_permit g') again)"
      "requests w' = requests w"
  shows "log_ok w'"
proof -
  have g': "usable (slots (tbl w) ! guard_index g)" "guard_index g < length (slots (tbl w))" "\<not> retire_permit g"
    using ow g by (cases "phase w t"; auto simp: owned_def dest: spec [of _ t])+
  note c = drop_guard_cases [OF d g']
  have armed: "armed (phase w t) = Some i \<Longrightarrow> i = guard_index g \<and> request_outstanding g" for i
    using g by (cases "phase w t") (auto split: if_splits)
  have "(\<exists>u. armed (phase w' u) = Some i) = (\<exists>u. armed (phase w u) = Some i)"
    if "usable (slots tb ! i)" for i
    using that armed [of i] w'(2) c(9) by (metis armed.simps(9) fun_upd_apply option.distinct(1))
  moreover have "slot_seq w' i = slot_seq w i" for i using w' c by (simp add: slot_seq_def)
  ultimately show ?thesis using lg w' c unfolding log_ok_def by auto
qed

lemma log_armed_step:
  assumes lg: "log_ok w" and ow: "owned w" and t: "phase w t = Holding g"
    and w': "phase w' = (phase w)(t := Holding g')" "guard_index g' = guard_index g"
      "length (slots (tbl w')) = length (slots (tbl w))" "\<And>i. usable (slots (tbl w') ! i) = usable (slots (tbl w) ! i)"
    and other: "\<And>i. i \<noteq> guard_index g \<Longrightarrow> requests w' i = requests w i \<and> slot_seq w' i = slot_seq w i"
    and at: "requests w' (guard_index g) = seq_log (length (requests w' (guard_index g)))"
      "if request_outstanding g' then requests w' (guard_index g) \<noteq> [] \<and>
           slot_seq w' (guard_index g) = of_nat (length (requests w' (guard_index g)))
       else slot_seq w' (guard_index g) = of_nat (Suc (length (requests w' (guard_index g))))"
  shows "log_ok w'"
proof -
  have only: "armed (phase w u) = Some (guard_index g) \<Longrightarrow> u = t" for u
    using ow t armed_mutex [of "phase w u"] mutex_guard [of "phase w t" g] unfolding owned_def by fastforce
  have "(\<exists>u. armed (phase w' u) = Some i) = (if i = guard_index g then request_outstanding g'
      else \<exists>u. armed (phase w u) = Some i)" for i
  proof (cases "i = guard_index g")
    case True
    then show ?thesis using only w' t by (auto split: if_splits)
  next
    case False
    have "armed (phase w t) \<noteq> Some i" "armed (phase w' t) \<noteq> Some i" using False t w' by auto
    then have "(armed (phase w' u) = Some i) = (armed (phase w u) = Some i)" for u using w'(1) by (cases "u = t") auto
    then show ?thesis using False by simp
  qed
  then show ?thesis using lg w' other at unfolding log_ok_def by (auto split: if_splits)
qed

lemma slot_step_log:
  assumes "slot_step w w'" and ow: "owned w" and lg: "log_ok w"
  shows "log_ok w'"
proof -
  have ok: "phase_ok (tbl w) (phase w t)" for t using ow by (simp add: owned_def)
  have armed: "requests w i \<noteq> [] \<and> slot_seq w i = of_nat (length (requests w i))"
    if "phase w t = Holding g" "request_outstanding g" "i = guard_index g" for t g i
  proof -
    have "\<exists>t. armed (phase w t) = Some i" using that by (metis armed.simps(1))
    then show ?thesis using lg [unfolded log_ok_def, rule_format, of i] ok [of t] that by simp
  qed
  have unarmed: "slot_seq w i = of_nat (Suc (length (requests w i)))"
    if "phase w t = Holding g" "\<not> request_outstanding g" "i = guard_index g" for t g i
  proof -
    have "armed (phase w u) \<noteq> Some i" for u
      using ow that armed_mutex [of "phase w u" i] unfolding owned_def
      by (metis armed.simps(1) mutex_guard guard_of.simps(3) option.distinct(1))
    then show ?thesis using lg [unfolded log_ok_def, rule_format, of i] ok [of t] that by simp
  qed
  have log: "requests w i = seq_log (length (requests w i))" for i using lg by (simp add: log_ok_def)
  from assms(1) show ?thesis
  proof (cases rule: slot_step.cases)
  case (start t) then show ?thesis using lg ok [of t]
    by (intro log_step [OF lg, of w' t "phase w' t"]) (auto simp: enter_def slot_seq_def new_guard_def)
next
  case (cancel t) then show ?thesis using lg ok [of t]
    by (intro log_step [OF lg, of w' t "phase w' t"]) (auto simp: enter_def slot_seq_def new_guard_def)
next
  case (closed t) then show ?thesis using lg ok [of t]
    by (intro log_step [OF lg, of w' t "phase w' t"]) (auto simp: enter_def slot_seq_def new_guard_def)
next
  case (busy t i lim saw) then show ?thesis using lg ok [of t]
    by (intro log_step [OF lg, of w' t "phase w' t"]) (auto simp: enter_def slot_seq_def new_guard_def)
next
  case (give_up t i lim) then show ?thesis using lg ok [of t]
    by (intro log_step [OF lg, of w' t "phase w' t"]) (auto simp: enter_def slot_seq_def new_guard_def)
next
  case (park t i lim) then show ?thesis using lg ok [of t]
    by (intro log_step [OF lg, of w' t "phase w' t"]) (auto simp: enter_def slot_seq_def new_guard_def)
next
  case (wake t lim) then show ?thesis using lg ok [of t]
    by (intro log_step [OF lg, of w' t "phase w' t"]) (auto simp: enter_def slot_seq_def new_guard_def)
next
  case (granted t g h) then show ?thesis using lg ok [of t]
    by (intro log_step [OF lg, of w' t "phase w' t"]) (auto simp: enter_def slot_seq_def new_guard_def)
next
  case (blocked t g) then show ?thesis using lg ok [of t]
    by (intro log_step [OF lg, of w' t "phase w' t"]) (auto simp: enter_def slot_seq_def new_guard_def)
next
  case (recheck t g) then show ?thesis using lg ok [of t]
    by (intro log_step [OF lg, of w' t "phase w' t"]) (auto simp: enter_def slot_seq_def new_guard_def)
next
  case (notify t i retire again) then show ?thesis using lg ok [of t]
    by (intro log_step [OF lg, of w' t "phase w' t"]) (auto simp: enter_def slot_seq_def new_guard_def)
next
  case (finish t retire again) then show ?thesis using lg ok [of t]
    by (intro log_step [OF lg, of w' t "phase w' t"]) (auto simp: enter_def slot_seq_def new_guard_def)
next
  case (permit t) then show ?thesis using lg ok [of t]
    by (intro log_step [OF lg, of w' t "phase w' t"]) (auto simp: enter_def slot_seq_def new_guard_def)
next
  case (take t i lim saw) then show ?thesis using lg ok [of t]
    by (intro log_step [OF lg, of w' t "phase w' t"]) (auto simp: enter_def slot_seq_def new_guard_def)
next
  case (peek t i lim saw) then show ?thesis using lg ok [of t]
    by (intro log_step [OF lg, of w' t "phase w' t"]) (auto simp: enter_def slot_seq_def new_guard_def)
next
  case (unpeek t i lim saw) then show ?thesis using lg ok [of t]
    by (intro log_step [OF lg, of w' t "phase w' t"]) (auto simp: enter_def slot_seq_def new_guard_def)
next
  case (withdrawn t g g' tb) then show ?thesis by (intro log_drop [OF lg ow, of t g g' tb]) (auto simp: enter_def)
next
  case (dropped t g g' tb) then show ?thesis by (intro log_drop [OF lg ow, of t g g' tb]) (auto simp: enter_def)
next
  case (limits t g hi tgt)
  then show ?thesis using lg
    by (intro log_step [OF lg, of w' t "phase w' t"]) (auto simp: slot_seq_def update_limits_def Let_def)
next
  case (arm t g)
  then show ?thesis using unarmed [of t g "guard_index g"] log [of "guard_index g"]
    by (intro log_armed_step [OF lg ow, of t g _ "mark_request_outstanding g"])
      (auto simp: enter_def slot_seq_def mark_request_outstanding_def)
next
  case (not_sent t g)
  let ?n = "length (requests w (guard_index g))"
  obtain m where m: "?n = Suc m" using armed [of t g "guard_index g"] not_sent by (cases ?n) auto
  have "requests w (guard_index g) = seq_log m @ [of_nat (Suc m)]" using log [of "guard_index g"] m by simp
  then show ?thesis using not_sent armed [of t g "guard_index g"] m
    by (intro log_armed_step [OF lg ow, of t g _ "disarm_request g"])
      (auto simp: enter_def slot_seq_def disarm_request_def)
next
  case (confirm t g)
  then have "guard_index g < length (slots (tbl w))" using ok [of t] by simp
  then show ?thesis using confirm armed [of t g "guard_index g"] log [of "guard_index g"]
    by (intro log_armed_step [OF lg ow, of t g _ "disarm_request g"])
      (auto simp: enter_def slot_seq_def disarm_request_def advance_sequence_def Let_def nth_update_if)
qed
qed

subsection \<open>Wake-ups\<close>

text \<open>A task occupies a slot from the lock to the notification of its release.\<close>

fun occupies :: "Phase \<Rightarrow> usize option" where
  "occupies (Unlocked i retire again) = Some i"
| "occupies p = map_option guard_index (guard_of p)"

definition occupied :: "SlotWorld \<Rightarrow> usize \<Rightarrow> bool" where
  "occupied w i \<longleftrightarrow> (\<exists>t. occupies (phase w t) = Some i)"

fun scanned :: "Phase \<Rightarrow> usize \<Rightarrow> bool" where
  "scanned (Scanning j lim saw) i \<longleftrightarrow> i < j"
| "scanned (Peeking j lim saw) i \<longleftrightarrow> i < j"
| "scanned (Parked lim) i \<longleftrightarrow> i \<le> lim"
| "scanned p i \<longleftrightarrow> False"

fun limit_of :: "Phase \<Rightarrow> usize option" where
  "limit_of (Scanning j lim saw) = Some lim"
| "limit_of (Peeking j lim saw) = Some lim"
| "limit_of (Parked lim) = Some lim"
| "limit_of p = None"

definition waits_ok :: "SlotWorld \<Rightarrow> Phase \<Rightarrow> bool" where
  "waits_ok w p \<longleftrightarrow>
     (\<forall>lim. limit_of p = Some lim \<longrightarrow> lim = target_highest_slotid (tbl w)) \<and>
     (\<forall>i. scanned p i \<longrightarrow> usable (slots (tbl w) ! i) \<longrightarrow> occupied w i) \<and>
     (\<forall>g. p = CheckParked g \<longrightarrow> request_highest_slotid (tbl w) (guard_index g) = Blocked)"

definition wake_ok :: "SlotWorld \<Rightarrow> bool" where
  "wake_ok w \<longleftrightarrow> (\<forall>t. \<not> woken w t \<longrightarrow> waits_ok w (phase w t)) \<and>
     (\<forall>i < length (active (tbl w)). active (tbl w) ! i \<longrightarrow> occupied w i)"

lemma active_highest_greater:
  "e < active_highest_slotid tb \<longleftrightarrow> (\<exists>i < length (active tb). active tb ! i \<and> e < i)"
proof -
  have "e < (case filter (\<lambda>i. P i) (rev [0..<n]) of [] \<Rightarrow> 0 | i # _ \<Rightarrow> i) \<longleftrightarrow> (\<exists>i < n. P i \<and> e < i)" for P n
    by (induction n) (auto simp: less_Suc_eq split: list.splits)
  then show ?thesis by (simp add: active_highest_slotid_def)
qed

lemma request_highest_Blocked:
  "request_highest_slotid tb i = Blocked \<longleftrightarrow>
     i \<le> snd (get_slot_limits tb) \<and> i \<le> fst (get_slot_limits tb) \<and>
     (\<exists>j < length (active tb). active tb ! j \<and> fst (get_slot_limits tb) < j)"
  using active_highest_greater [where e = "fst (get_slot_limits tb)" and tb = tb]
  by (auto simp: request_highest_slotid_def Let_def case_prod_beta' split: if_splits)

lemma wake_step:
  assumes wk: "wake_ok w" and ph: "phase w' = (phase w)(t := p)"
    and wok: "\<And>u. u \<noteq> t \<Longrightarrow> woken w u \<Longrightarrow> woken w' u"
    and us: "\<And>i. usable (slots (tbl w') ! i) \<Longrightarrow> usable (slots (tbl w) ! i)"
    and lim: "get_slot_limits (tbl w') = get_slot_limits (tbl w)"
    and occ: "\<And>i. occupies (phase w t) = Some i \<Longrightarrow> occupies p = Some i"
    and act: "length (active (tbl w')) = length (active (tbl w))"
      "\<And>i. active (tbl w) ! i \<Longrightarrow> active (tbl w') ! i"
      "\<And>i. active (tbl w') ! i \<Longrightarrow> active (tbl w) ! i \<or> occupies p = Some i"
    and own: "\<not> woken w' t \<Longrightarrow> waits_ok w' p"
  shows "wake_ok w'"
proof -
  have occ': "occupied w i \<Longrightarrow> occupied w' i" for i
    unfolding occupied_def using ph occ by (metis fun_upd_apply)
  have "waits_ok w' (phase w' u)" if "\<not> woken w' u" for u
  proof (cases "u = t")
    case True then show ?thesis using own that ph by simp
  next
    case False
    then have "waits_ok w (phase w u)" using wk that wok by (auto simp: wake_ok_def)
    then show ?thesis
      using False ph us lim occ' act unfolding waits_ok_def target_highest_slotid_def request_highest_Blocked
      by (auto; metis)
  qed
  moreover have "occupied w' i" if "i < length (active (tbl w'))" "active (tbl w') ! i" for i
    using that act(1) act(3) [of i] wk occ' ph unfolding wake_ok_def occupied_def by (metis fun_upd_same)
  ultimately show ?thesis by (simp add: wake_ok_def)
qed

lemma wake_step_scan:
  assumes wk: "wake_ok w" and ph: "phase w' = (phase w)(t := p)" and wok: "woken w' = woken w"
    and us: "\<And>i. usable (slots (tbl w') ! i) = usable (slots (tbl w) ! i)"
    and lim: "get_slot_limits (tbl w') = get_slot_limits (tbl w)"
    and occ: "occupies (phase w t) = None" "guard_of p = None"
    and act: "active (tbl w') = active (tbl w)"
    and p: "limit_of p = limit_of (phase w t)"
      "\<And>i. scanned p i \<Longrightarrow> scanned (phase w t) i \<or> \<not> usable (slots (tbl w) ! i) \<or> occupied w i"
  shows "wake_ok w'"
proof -
  have occ': "occupied w i \<Longrightarrow> occupied w' i" for i
    unfolding occupied_def using ph occ(1) by (metis fun_upd_apply option.distinct(1))
  have "waits_ok w' p" if "\<not> woken w' t"
  proof -
    have "waits_ok w (phase w t)" using wk that wok by (simp add: wake_ok_def)
    moreover have "occupied w' i" if "scanned p i" "usable (slots (tbl w') ! i)" for i
      using p(2) [OF that(1)] that us occ' [of i] calculation by (auto simp: waits_ok_def)
    ultimately show ?thesis using p(1) lim occ(2) unfolding waits_ok_def target_highest_slotid_def by auto
  qed
  then show ?thesis using assms by (intro wake_step [OF wk ph]) auto
qed

lemma wake_drop:
  assumes wk: "wake_ok w" and ow: "owned w" and g: "guard_of (phase w t) = Some g" and d: "drop_guard g (tbl w) = (g', tb)"
    and w': "tbl w' = tb" "phase w' = (phase w)(t := Unlocked (guard_index g') (retire_permit g') again)" "woken w' = woken w"
  shows "wake_ok w'"
proof -
  have g': "usable (slots (tbl w) ! guard_index g)" "guard_index g < length (slots (tbl w))" "\<not> retire_permit g"
    using ow g by (cases "phase w t"; auto simp: owned_def dest: spec [of _ t])+
  note c = drop_guard_cases [OF d g']
  have "occupies (phase w t) = Some (guard_index g)" using g by (cases "phase w t") auto
  then show ?thesis
    by (intro wake_step [OF wk w'(2)]) (use w' c in \<open>auto simp: waits_ok_def\<close>)
qed

lemma wake_all:
  assumes "\<And>t. woken w t" and "\<And>i. i < length (active (tbl w)) \<Longrightarrow> active (tbl w) ! i \<Longrightarrow> occupied w i"
  shows "wake_ok w"
  using assms by (simp add: wake_ok_def)

lemmas step_defs = waits_ok_def occupied_def target_highest_slotid_def request_highest_Blocked try_slot_def
  mark_request_outstanding_def disarm_request_def advance_sequence_def Let_def

lemma locked_occupied:
  assumes "owned w" and "i < length (slots (tbl w))" and "locked (tbl w) ! i" and "usable (slots (tbl w) ! i)"
  shows "occupied w i"
proof -
  obtain t where t: "mutex_of (phase w t) = Some i" "phase_ok (tbl w) (phase w t)"
    using assms(1-3) by (auto simp: owned_def)
  then have "occupies (phase w t) = Some i" using assms(4) by (cases "phase w t") auto
  then show ?thesis by (auto simp: occupied_def)
qed

lemma slot_step_wake:
  assumes "slot_step w w'" and sh: "shape (tbl w)" and ow: "owned w" and wk: "wake_ok w"
  shows "wake_ok w'"
proof -
  have ok: "phase_ok (tbl w) (phase w t)" for t using ow by (simp add: owned_def)
  from assms(1) show ?thesis
  proof (cases rule: slot_step.cases)
  case (start t)
  then show ?thesis using wk [unfolded wake_ok_def] ok [of t]
    by (intro wake_step [OF wk, of w' t "phase w' t"])
      (auto simp: enter_def less_Suc_eq new_guard_def step_defs nth_update_if less_Suc_eq_le split: if_splits)
next
  case (cancel t)
  then show ?thesis using wk [unfolded wake_ok_def] ok [of t]
    by (intro wake_step [OF wk, of w' t "phase w' t"])
      (auto simp: enter_def less_Suc_eq new_guard_def step_defs nth_update_if less_Suc_eq_le split: if_splits)
next
  case (closed t)
  then show ?thesis using wk [unfolded wake_ok_def] ok [of t]
    by (intro wake_step [OF wk, of w' t "phase w' t"])
      (auto simp: enter_def less_Suc_eq new_guard_def step_defs nth_update_if less_Suc_eq_le split: if_splits)
next
  case (give_up t i lim)
  then show ?thesis using wk [unfolded wake_ok_def] ok [of t]
    by (intro wake_step [OF wk, of w' t "phase w' t"])
      (auto simp: enter_def less_Suc_eq new_guard_def step_defs nth_update_if less_Suc_eq_le split: if_splits)
next
  case (park t i lim)
  then show ?thesis using ok [of t]
    by (intro wake_step_scan [OF wk, of w' t "phase w' t"]) (auto simp: enter_def less_Suc_eq)
next
  case (wake t lim)
  then show ?thesis using wk [unfolded wake_ok_def] ok [of t]
    by (intro wake_step [OF wk, of w' t "phase w' t"])
      (auto simp: enter_def less_Suc_eq new_guard_def step_defs nth_update_if less_Suc_eq_le split: if_splits)
next
  case (granted t g h)
  then show ?thesis using wk [unfolded wake_ok_def] ok [of t]
    by (intro wake_step [OF wk, of w' t "phase w' t"])
      (auto simp: enter_def less_Suc_eq new_guard_def step_defs nth_update_if less_Suc_eq_le split: if_splits)
next
  case (blocked t g)
  then show ?thesis using wk [unfolded wake_ok_def] ok [of t]
    by (intro wake_step [OF wk, of w' t "phase w' t"])
      (auto simp: enter_def less_Suc_eq new_guard_def step_defs nth_update_if less_Suc_eq_le split: if_splits)
next
  case (recheck t g)
  then show ?thesis using wk [unfolded wake_ok_def] ok [of t]
    by (intro wake_step [OF wk, of w' t "phase w' t"])
      (auto simp: enter_def less_Suc_eq new_guard_def step_defs nth_update_if less_Suc_eq_le split: if_splits)
next
  case (arm t g)
  then show ?thesis using wk [unfolded wake_ok_def] ok [of t]
    by (intro wake_step [OF wk, of w' t "phase w' t"])
      (auto simp: enter_def less_Suc_eq new_guard_def step_defs nth_update_if less_Suc_eq_le split: if_splits)
next
  case (not_sent t g)
  then show ?thesis using wk [unfolded wake_ok_def] ok [of t]
    by (intro wake_step [OF wk, of w' t "phase w' t"])
      (auto simp: enter_def less_Suc_eq new_guard_def step_defs nth_update_if less_Suc_eq_le split: if_splits)
next
  case (confirm t g)
  then show ?thesis using wk [unfolded wake_ok_def] ok [of t]
    by (intro wake_step [OF wk, of w' t "phase w' t"])
      (auto simp: enter_def less_Suc_eq new_guard_def step_defs nth_update_if less_Suc_eq_le split: if_splits)
next
  case (finish t retire again)
  then show ?thesis using wk [unfolded wake_ok_def] ok [of t]
    by (intro wake_step [OF wk, of w' t "phase w' t"])
      (auto simp: enter_def less_Suc_eq new_guard_def step_defs nth_update_if less_Suc_eq_le split: if_splits)
next
  case (permit t)
  then show ?thesis using wk [unfolded wake_ok_def] ok [of t]
    by (intro wake_step [OF wk, of w' t "phase w' t"])
      (auto simp: enter_def less_Suc_eq new_guard_def step_defs nth_update_if less_Suc_eq_le split: if_splits)
next
  case (take t i lim saw)
  then show ?thesis using wk [unfolded wake_ok_def] ok [of t]
    by (intro wake_step [OF wk, of w' t "phase w' t"])
      (auto simp: enter_def less_Suc_eq new_guard_def step_defs nth_update_if less_Suc_eq_le split: if_splits)
next
  case (peek t i lim saw)
  then show ?thesis using ok [of t]
    by (intro wake_step_scan [OF wk, of w' t "phase w' t"]) (auto simp: enter_def less_Suc_eq)
next
  case (unpeek t i lim saw)
  then show ?thesis using ok [of t]
    by (intro wake_step_scan [OF wk, of w' t "phase w' t"]) (auto simp: enter_def less_Suc_eq)
next
  case (busy t i lim saw)
  then have "occupied w i" if "usable (slots (tbl w) ! i)"
    using that ok [of t] by (intro locked_occupied [OF ow]) (auto simp: try_slot_def split: if_splits)
  then show ?thesis using busy
    by (intro wake_step_scan [OF wk, of w' t "phase w' t"]) (auto simp: enter_def less_Suc_eq)
next
  case (withdrawn t g g' tb) then show ?thesis by (intro wake_drop [OF wk ow, of t g g' tb]) (auto simp: enter_def)
next
  case (dropped t g g' tb) then show ?thesis by (intro wake_drop [OF wk ow, of t g g' tb]) (auto simp: enter_def)
next
  case (limits t g hi tgt)
  then show ?thesis using wk by (intro wake_all) (auto simp: wake_ok_def occupied_def update_limits_def Let_def)
next
  case (notify t i retire again)
  then have w': "phase w' = (phase w)(t := Released retire again)" "woken w' = (\<lambda>_. True)"
    "active (tbl w') = (active (tbl w))[i := False]" by (simp_all add: enter_def)
  have "occupied w' j" if "j \<noteq> i" "occupied w j" for j
    using that notify(2) unfolding occupied_def w' by (metis occupies.simps(1) fun_upd_apply option.inject)
  then show ?thesis using wk w' by (intro wake_all) (auto simp: wake_ok_def nth_update_if split: if_splits)
qed
qed

subsection \<open>The invariant of the slot table\<close>

definition slot_inv :: "SlotWorld \<Rightarrow> bool" where
  "slot_inv w \<longleftrightarrow> shape (tbl w) \<and> owned w \<and> permits_ok w \<and> log_ok w \<and> wake_ok w"

lemma slot_init_inv: "slot_init n w \<Longrightarrow> slot_inv w"
proof -
  assume w: "slot_init n w"
  let ?c = "unat (max n 1)"
  have c: "0 < ?c" by (auto simp: unat_gt_0 max_def)
  have "filter usable (slots (slot_table_new n)) = slots (slot_table_new n)"
    by (simp add: slot_table_new_def Let_def)
  then show ?thesis
    using w c shape_new [of n]
    by (auto simp: slot_inv_def slot_init_def owned_def permits_ok_def log_ok_def wake_ok_def waits_ok_def
        slot_seq_def slot_table_new_def Let_def)
qed

interpretation slot_table: inductive_invariant "slot_init n" slot_step slot_inv for n
  by unfold_locales
    (auto simp: slot_inv_def intro: slot_step_shape slot_step_owned slot_step_permits slot_step_log slot_step_wake
      dest: slot_init_inv)

lemma retired_slot_quiet:
  assumes "slot_step w w'" and "slot_inv w" and i: "\<not> usable (slots (tbl w) ! i)"
  shows "\<not> usable (slots (tbl w') ! i) \<and> requests w' i = requests w i"
proof -
  have ok: "phase_ok (tbl w) (phase w t)" for t using assms(2) by (simp add: slot_inv_def owned_def)
  from assms(1) show ?thesis
  proof (cases rule: slot_step.cases)
    case (arm t g) then show ?thesis using ok [of t] i by (auto simp: enter_def)
  next
    case (not_sent t g) then show ?thesis using ok [of t] i by (auto simp: enter_def)
  next
    case (limits t g hi tgt) then show ?thesis using i by (auto simp: update_limits_def Let_def)
  next
    case (confirm t g) then show ?thesis using i by (auto simp: enter_def advance_sequence_def Let_def nth_update_if)
  next
    case (withdrawn t g g' tb) then show ?thesis using i ok [of t] drop_guard_cases(9) [of g "tbl w" g' tb i]
      by (auto simp: enter_def)
  next
    case (dropped t g g' tb) then show ?thesis using i ok [of t] drop_guard_cases(9) [of g "tbl w" g' tb i]
      by (auto simp: enter_def)
  qed (use i in \<open>simp_all add: enter_def\<close>)
qed

subsection \<open>Running the steps\<close>

text \<open>\<open>slot_exec\<close> runs the step of a task that its phase determines; \<open>act\<close> resolves the choices.\<close>

datatype SlotAction = Go | Arm | NotSent | Limits u32 u32 | Confirm | Release

definition slot_exec :: "SlotAction \<Rightarrow> nat \<Rightarrow> SlotWorld \<Rightarrow> SlotWorld option" where
  "slot_exec act t w = (let tb = tbl w in case phase w t of
     Idle \<Rightarrow> Some (enter t WantPermit w)
   | WantPermit \<Rightarrow>
       if available_closed tb then Some (enter t NoSlot w)
       else if available tb = 0 then None
       else Some (enter t (Scanning 0 (target_highest_slotid tb) False)
         (w\<lparr> tbl := tb\<lparr> available := available tb - 1 \<rparr>, woken := (woken w)(t := False) \<rparr>))
   | Scanning i lim saw \<Rightarrow>
       if i \<le> lim then (case try_slot tb i of
           SlotTaken \<Rightarrow> Some (enter t (Checking (new_guard i))
             (w\<lparr> tbl := tb\<lparr> locked := (locked tb)[i := True], active := (active tb)[i := True] \<rparr> \<rparr>))
         | SlotRetired \<Rightarrow> Some (enter t (Peeking i lim saw) (w\<lparr> tbl := tb\<lparr> locked := (locked tb)[i := True] \<rparr> \<rparr>))
         | SlotBusy \<Rightarrow> Some (enter t (Scanning (i + 1) lim True) w))
       else Some (enter t (if saw then Parked lim else NoSlot) (w\<lparr> tbl := tb\<lparr> available := available tb + 1 \<rparr> \<rparr>))
   | Peeking i lim saw \<Rightarrow>
       Some (enter t (Scanning (i + 1) lim saw) (w\<lparr> tbl := tb\<lparr> locked := (locked tb)[i := False] \<rparr> \<rparr>))
   | Parked lim \<Rightarrow> if woken w t then Some (enter t WantPermit w) else None
   | Checking g \<Rightarrow> (case request_highest_slotid tb (guard_index g) of
         Highest h \<Rightarrow> Some (enter t (Holding g) w)
       | Withdrawn \<Rightarrow> (case drop_guard g tb of (g', tb') \<Rightarrow>
           Some (enter t (Unlocked (guard_index g') (retire_permit g') True) (w\<lparr> tbl := tb' \<rparr>)))
       | Blocked \<Rightarrow> Some (enter t (CheckParked g) (w\<lparr> woken := (woken w)(t := False) \<rparr>)))
   | CheckParked g \<Rightarrow> if woken w t then Some (enter t (Checking g) w) else None
   | Holding g \<Rightarrow> (case act of
         Arm \<Rightarrow> if request_outstanding g then None else
           Some (enter t (Holding (mark_request_outstanding g))
             (w\<lparr> requests := (requests w)(guard_index g := requests w (guard_index g) @ [slot_seq w (guard_index g)]) \<rparr>))
       | NotSent \<Rightarrow> if request_outstanding g then
           Some (enter t (Holding (disarm_request g))
             (w\<lparr> requests := (requests w)(guard_index g := butlast (requests w (guard_index g))) \<rparr>)) else None
       | Limits hi tgt \<Rightarrow> if request_outstanding g then
           Some (w\<lparr> tbl := update_limits hi tgt tb, woken := (\<lambda>_. True) \<rparr>) else None
       | Confirm \<Rightarrow> if request_outstanding g then
           Some (enter t (Holding (disarm_request g)) (w\<lparr> tbl := advance_sequence g tb \<rparr>)) else None
       | Release \<Rightarrow> (case drop_guard g tb of (g', tb') \<Rightarrow>
           Some (enter t (Unlocked (guard_index g') (retire_permit g') False) (w\<lparr> tbl := tb' \<rparr>)))
       | Go \<Rightarrow> None)
   | Unlocked i retire again \<Rightarrow>
       Some (enter t (Released retire again)
         (w\<lparr> tbl := tb\<lparr> active := (active tb)[i := False] \<rparr>, woken := (\<lambda>_. True) \<rparr>))
   | Released retire again \<Rightarrow>
       Some (enter t (if again then WantPermit else Idle)
         (w\<lparr> tbl := tb\<lparr> available := available tb + (if retire then 0 else 1) \<rparr> \<rparr>))
   | NoSlot \<Rightarrow> None)"

lemma slot_exec_step: "slot_exec act t w = Some w' \<Longrightarrow> slot_step w w'"
  unfolding slot_exec_def Let_def
  by (auto simp: not_le split: Phase.splits if_splits TrySlot.splits HighestSlot.splits SlotAction.splits prod.splits
      intro: slot_step.intros slot_step.intros [simplified]
        slot_step.finish [of _ _ True True, simplified] slot_step.finish [of _ _ True False, simplified]
        slot_step.finish [of _ _ False True, simplified] slot_step.finish [of _ _ False False, simplified])

fun slot_run :: "(SlotAction \<times> nat) list \<Rightarrow> SlotWorld \<Rightarrow> SlotWorld option" where
  "slot_run [] w = Some w"
| "slot_run ((act, t) # acts) w = Option.bind (slot_exec act t w) (slot_run acts)"

lemma slot_run_reachable:
  "slot_run acts w = Some w' \<Longrightarrow> reachable (slot_init n) slot_step w \<Longrightarrow> reachable (slot_init n) slot_step w'"
  by (induction acts w rule: slot_run.induct) (auto split: Option.bind_splits intro: reach_step slot_exec_step)

definition slot_world :: "u32 \<Rightarrow> SlotWorld" where
  "slot_world n = \<lparr> tbl = slot_table_new n, phase = (\<lambda>_. Idle), woken = (\<lambda>_. False), requests = (\<lambda>_. []) \<rparr>"

lemma slot_world_reachable: "reachable (slot_init n) slot_step (slot_world n)"
  by (rule reach_init) (simp add: slot_init_def slot_world_def)

lemma slot_exec_other: "slot_exec act t w = Some w' \<Longrightarrow> u \<noteq> t \<Longrightarrow> phase w' u = phase w u"
  unfolding slot_exec_def Let_def
  by (auto simp: enter_def split: Phase.splits if_splits TrySlot.splits HighestSlot.splits SlotAction.splits prod.splits)

lemma slot_run_other: "slot_run acts w = Some w' \<Longrightarrow> t \<notin> snd ` set acts \<Longrightarrow> phase w' t = phase w t"
proof (induction acts w rule: slot_run.induct)
  case (2 act u acts w)
  then obtain v where "slot_exec act u w = Some v" "slot_run acts v = Some w'" by (auto split: Option.bind_splits)
  then show ?case using 2 slot_exec_other [of act u w v t] by auto
qed simp

subsection \<open>Two races\<close>

definition active_race :: "(SlotAction \<times> nat) list" where
  "active_race = map (\<lambda>a. (a, 1)) [Go, Go, Go, Go, Arm] @ map (\<lambda>a. (a, 0)) [Go, Go, Go, Go, Go] @
     map (\<lambda>a. (a, 2)) [Go, Go, Go] @ [(Release, 0)] @ map (\<lambda>a. (a, 2)) [Go, Go, Arm] @ [(Go, 0), (Go, 0)] @
     map (\<lambda>a. (a, 1)) [Limits 2 0, Confirm, Release, Go, Go] @ map (\<lambda>a. (a, 3)) [Go, Go, Go]"

text \<open>
  C38. A request in flight can go unreported: \<open>Drop for SlotRelease\<close> clears the activity flag of a
  slot after its mutex was unlocked, so a task that takes the slot in between loses its flag. There
  is a run in which a task has a request outstanding on slot 1 while another one, on slot 0, is
  told that 0 is the highest slot in use.
\<close>

theorem active_flag_lost:
  "\<exists>w g h. reachable (slot_init 3) slot_step w \<and>
     phase w 2 = Holding g \<and> request_outstanding g \<and> guard_index g = 1 \<and>
     phase w 3 = Checking h \<and> guard_index h = 0 \<and> request_highest_slotid (tbl w) 0 = Highest 0"
proof -
  let ?P = "\<lambda>w. (case phase w 2 of Holding g \<Rightarrow> request_outstanding g \<and> guard_index g = 1 | _ \<Rightarrow> False) \<and>
    (case phase w 3 of Checking h \<Rightarrow> guard_index h = 0 | _ \<Rightarrow> False) \<and>
    request_highest_slotid (tbl w) 0 = Highest 0"
  have "case slot_run active_race (slot_world 3) of Some w \<Rightarrow> ?P w | None \<Rightarrow> False" by code_simp
  then obtain w where "slot_run active_race (slot_world 3) = Some w" and "?P w" by (auto split: option.splits)
  then show ?thesis
    using slot_run_reachable [OF _ slot_world_reachable] by (auto split: Phase.splits)
qed

text \<open>
  A task that scans while another one briefly holds the mutex of a retired slot takes it for busy
  and parks; the other one never notifies. Once every eligible slot is retired and nobody is in
  the middle of a request, no step wakes a parked task any more.
\<close>

fun gives_up :: "usize \<Rightarrow> Phase \<Rightarrow> bool" where
  "gives_up target (Scanning i lim saw) \<longleftrightarrow> lim = target"
| "gives_up target (Peeking i lim saw) \<longleftrightarrow> lim = target"
| "gives_up target p \<longleftrightarrow> p \<in> {Idle, WantPermit, NoSlot} \<or> (\<exists>lim. p = Parked lim)"

definition abandoned :: "SlotWorld \<Rightarrow> bool" where
  "abandoned w \<longleftrightarrow> (\<forall>i \<le> target_highest_slotid (tbl w). \<not> usable (slots (tbl w) ! i)) \<and>
     (\<forall>t. gives_up (target_highest_slotid (tbl w)) (phase w t))"

lemma abandoned_step:
  assumes "slot_step w w'" and "abandoned w"
  shows "abandoned w' \<and> (woken w' t \<longrightarrow> woken w t)"
proof -
  have ph: "gives_up (target_highest_slotid (tbl w)) (phase w t)"
    and us: "i \<le> target_highest_slotid (tbl w) \<Longrightarrow> \<not> usable (slots (tbl w) ! i)" for t i
    using assms(2) by (simp_all add: abandoned_def)
  from assms(1) show ?thesis
  proof (cases rule: slot_step.cases)
    case (take t i lim saw)
    then show ?thesis using ph [of t] us [of i] by (auto simp: try_slot_def split: if_splits)
  next
    case (granted t g h) then show ?thesis using ph [of t] by simp
  next
    case (withdrawn t g g' tb) then show ?thesis using ph [of t] by simp
  next
    case (blocked t g) then show ?thesis using ph [of t] by simp
  next
    case (recheck t g) then show ?thesis using ph [of t] by simp
  next
    case (arm t g) then show ?thesis using ph [of t] by simp
  next
    case (not_sent t g) then show ?thesis using ph [of t] by simp
  next
    case (limits t g hi tgt) then show ?thesis using ph [of t] by simp
  next
    case (confirm t g) then show ?thesis using ph [of t] by simp
  next
    case (dropped t g g' tb) then show ?thesis using ph [of t] by auto
  next
    case (notify t i retire again) then show ?thesis using ph [of t] by simp
  next
    case (finish t retire again) then show ?thesis using ph [of t] by simp
  next
    case (peek t i lim saw)
    then show ?thesis using ph ph [of t] us by (simp add: abandoned_def enter_def target_highest_slotid_def)
  next
    case (unpeek t i lim saw)
    then show ?thesis using ph ph [of t] us by (simp add: abandoned_def enter_def target_highest_slotid_def)
  next
    case (busy t i lim saw)
    then show ?thesis using ph ph [of t] us by (simp add: abandoned_def enter_def target_highest_slotid_def)
  qed (use ph us in \<open>simp_all add: abandoned_def enter_def target_highest_slotid_def\<close>)
qed

interpretation deserted: inductive_invariant "\<lambda>w. abandoned w \<and> \<not> woken w t" slot_step "\<lambda>w. abandoned w \<and> \<not> woken w t" for t
  by unfold_locales (use abandoned_step in blast)+

definition stranding :: "(SlotAction \<times> nat) list" where
  "stranding = map (\<lambda>a. (a, 0)) [Go, Go, Go, Go, Arm, Limits 2 0, Release, Go, Go] @
     map (\<lambda>a. (a, 1)) [Go, Go, Go] @ map (\<lambda>a. (a, 2)) [Go, Go, Go] @
     map (\<lambda>a. (a, 1)) [Go, Go] @ [(Go, 2)]"

text \<open>
  C39. \<open>acquire\<close> can wait for ever. There is a run of three tasks on three slots after which every
  eligible slot is retired, one task is parked in \<open>acquire\<close>, and every other one is idle or has
  been told that all slots are unusable; and in no continuation of the run, whatever the tasks do, is the
  parked task woken.
\<close>

theorem acquire_stranded:
  "\<exists>w. reachable (slot_init 3) slot_step w \<and> phase w 2 = Parked 0 \<and>
     (\<forall>t. phase w t \<in> {Idle, NoSlot, Parked 0}) \<and>
     {w'. slot_step\<^sup>*\<^sup>* w w'} \<subseteq> {w'. \<not> woken w' 2}"
proof -
  let ?P = "\<lambda>w. phase w 0 = Idle \<and> phase w 1 = NoSlot \<and> phase w 2 = Parked 0 \<and> \<not> woken w 2 \<and>
    target_highest_slotid (tbl w) = 0 \<and> \<not> usable (slots (tbl w) ! 0)"
  have "case slot_run stranding (slot_world 3) of Some w \<Rightarrow> ?P w | None \<Rightarrow> False" by code_simp
  then obtain w where run: "slot_run stranding (slot_world 3) = Some w" and w: "?P w" by (auto split: option.splits)
  have "phase w t = Idle" if "t \<notin> {0, 1, 2}" for t
    using slot_run_other [OF run, of t] that by (auto simp: stranding_def slot_world_def)
  then have ph: "phase w t \<in> {Idle, NoSlot, Parked 0}" for t
    using w by (cases "t \<in> {0, 1, 2}") auto
  have "gives_up 0 (phase w t)" for t using ph [of t] by auto
  then have "abandoned w" using w by (simp add: abandoned_def)
  then show ?thesis
    using w ph deserted.run_inv [of w _ 2] slot_run_reachable [OF run slot_world_reachable] by blast
qed

subsection \<open>Properties\<close>

lemma last_seq_log: "xs \<noteq> [] \<Longrightarrow> xs = seq_log (length xs) \<Longrightarrow> last xs = of_nat (length xs)"
  by (metis last_snoc length_0_conv not0_implies_Suc seq_log_simps(3))

text \<open>
  C3. On every slot the requests that may have reached the server carry the sequence ids 1, 2, 3
  and so on, without a gap or a repetition, in every interleaving of acquisitions, replies,
  failures and cancellations; a slot has at most one holder; an outstanding request is the last
  one of its slot and carries its current id; and once a slot is retired, because the fate of its request is
  unknown, no further request is ever sent on it.
\<close>

theorem slot_requests_consecutive:
  assumes "reachable (slot_init n) slot_step w"
  shows "requests w i = map of_nat [1..<Suc (length (requests w i))] \<and>
    (phase w t = Holding g \<and> phase w u = Holding h \<and> guard_index g = guard_index h \<longrightarrow> t = u) \<and>
    (phase w t = Holding g \<and> request_outstanding g \<longrightarrow>
       requests w (guard_index g) \<noteq> [] \<and> last (requests w (guard_index g)) = slot_seq w (guard_index g)) \<and>
    (\<not> usable (slots (tbl w) ! i) \<and> slot_step\<^sup>*\<^sup>* w w' \<longrightarrow> requests w' i = requests w i)"
proof (intro conjI impI)
  have inv: "slot_inv w" using assms by (rule slot_table.reachable_inv)
  then have log: "requests w i = seq_log (length (requests w i))" for i by (simp add: slot_inv_def log_ok_def)
  show "requests w i = map of_nat [1..<Suc (length (requests w i))]" using log by (simp add: seq_log_def)
  show "t = u" if "phase w t = Holding g \<and> phase w u = Holding h \<and> guard_index g = guard_index h"
    using that inv by (auto simp: slot_inv_def owned_def)
  assume g: "phase w t = Holding g \<and> request_outstanding g"
  then have "phase_ok (tbl w) (Holding g)" using inv unfolding slot_inv_def owned_def by metis
  moreover have "\<exists>t. armed (phase w t) = Some (guard_index g)" using g by (auto intro: exI [of _ t])
  ultimately have ne: "requests w (guard_index g) \<noteq> []"
    and sq: "slot_seq w (guard_index g) = of_nat (length (requests w (guard_index g)))"
    using inv by (auto simp: slot_inv_def log_ok_def)
  show "requests w (guard_index g) \<noteq> []" by (rule ne)
  show "last (requests w (guard_index g)) = slot_seq w (guard_index g)"
    using sq last_seq_log [OF _ log] ne by metis
next
  assume i: "\<not> usable (slots (tbl w) ! i) \<and> slot_step\<^sup>*\<^sup>* w w'"
  have "slot_inv w" using assms by (rule slot_table.reachable_inv)
  from conjunct2 [OF i] have "\<not> usable (slots (tbl w') ! i) \<and> requests w' i = requests w i \<and> slot_inv w'"
  proof (induction rule: rtranclp_induct)
    case base show ?case using i \<open>slot_inv w\<close> by simp
  next
    case (step v v') then show ?case using retired_slot_quiet [of v v' i] slot_table.step_inv by auto
  qed
  then show "requests w' i = requests w i" by simp
qed

definition one_request :: "(SlotAction \<times> nat) list" where
  "one_request = map (\<lambda>a. (a, 0)) [Go, Go, Go, Go, Arm, Confirm, Arm]"

theorem slot_requests_consecutive_witness:
  "case slot_run one_request (slot_world 2) of
     Some w \<Rightarrow> reachable (slot_init 2) slot_step w \<and> length (requests w 0) = 2 \<and> requests w 0 = [1, 2]
   | None \<Rightarrow> False"
proof -
  have "case slot_run one_request (slot_world 2) of Some w \<Rightarrow> length (requests w 0) = 2 | None \<Rightarrow> False" by code_simp
  then obtain w where run: "slot_run one_request (slot_world 2) = Some w" and l: "length (requests w 0) = 2"
    by (auto split: option.splits)
  have r: "reachable (slot_init 2) slot_step w" using slot_run_reachable [OF run slot_world_reachable] .
  show ?thesis
    using run l r slot_requests_consecutive [OF r, of 0] by (simp add: upt_rec)
qed

text \<open>
  C20. Permits are neither lost nor duplicated: the free permits and those held by tasks are as many
  as the live slots and the permits about to be forgotten with a retired slot; the live counter is
  the number of usable slots; and the semaphore is closed exactly when none is left, so that \<open>acquire\<close>
  then fails instead of waiting.
\<close>

theorem slot_permits_accounted:
  assumes "reachable (slot_init n) slot_step w"
  shows "available (tbl w) + card {t. holds_permit (phase w t)} =
      live_slots (tbl w) + card {t. forgets_permit (phase w t)} \<and>
    live_slots (tbl w) = length (filter usable (slots (tbl w))) \<and>
    (available_closed (tbl w) \<longleftrightarrow> (\<forall>s \<in> set (slots (tbl w)). \<not> usable s))"
proof -
  have "permits_ok w" using slot_table.reachable_inv [OF assms] by (simp add: slot_inv_def)
  then show ?thesis by (auto simp: permits_ok_def filter_empty_conv)
qed

theorem slot_permits_accounted_witness:
  "available (tbl (slot_world 2)) + card {t. holds_permit (phase (slot_world 2) t)} =
     live_slots (tbl (slot_world 2)) + card {t. forgets_permit (phase (slot_world 2) t)} \<and>
   live_slots (tbl (slot_world 2)) = 2"
  using slot_permits_accounted [OF slot_world_reachable [of 2]]
  by (simp add: slot_world_def slot_table_new_def)


definition queue_for_slot :: "(SlotAction \<times> nat) list" where
  "queue_for_slot = map (\<lambda>a. (a, 0)) [Go, Go, Go, Go, Arm, Limits 1 0] @ map (\<lambda>a. (a, 1)) [Go, Go, Go, Go]"


text \<open>
  The slot limits survive their packing in one word, are clamped to the slots of the table with
  the target below the enforced limit, and the highest slot announced with a request is at least the
  slot of the request, the target, and every slot flagged active, and within the enforced limit.
\<close>

lemma slot_limits_bounded:
  assumes "reachable (slot_init n) slot_step w"
  shows "get_slot_limits (update_limits hi tgt (tbl w)) =
      (min (unat hi) (length (slots (tbl w)) - 1), min (min (unat tgt) (unat hi)) (length (slots (tbl w)) - 1)) \<and>
    (request_highest_slotid (tbl w) i = Highest h \<longrightarrow>
      i \<le> unat h \<and> target_highest_slotid (tbl w) \<le> unat h \<and> unat h \<le> fst (get_slot_limits (tbl w)) \<and>
      unat h < length (slots (tbl w)) \<and> (\<forall>j < length (active (tbl w)). active (tbl w) ! j \<longrightarrow> j \<le> unat h))"
proof -
  have sh: "shape (tbl w)" using slot_table.reachable_inv [OF assms] by (simp add: slot_inv_def)
  then have n: "length (slots (tbl w)) - 1 < 2 ^ 32" by (auto simp: shape_def)
  have "get_slot_limits (update_limits hi tgt (tbl w)) =
      (min (unat hi) (length (slots (tbl w)) - 1), min (min (unat tgt) (unat hi)) (length (slots (tbl w)) - 1))"
    using n by (simp add: update_limits_def Let_def)
  moreover {
    assume h: "request_highest_slotid (tbl w) i = Highest h"
    let ?m = "max (active_highest_slotid (tbl w)) (target_highest_slotid (tbl w))"
    from h have i: "i \<le> target_highest_slotid (tbl w)" and a: "active_highest_slotid (tbl w) \<le> fst (get_slot_limits (tbl w))"
      and hm: "h = of_nat ?m"
      by (auto simp: request_highest_slotid_def target_highest_slotid_def Let_def case_prod_beta' split: if_splits)
    have m: "?m \<le> fst (get_slot_limits (tbl w))" "?m < length (slots (tbl w))" "?m < 2 ^ 32"
      using a sh by (auto simp: shape_def target_highest_slotid_def)
    then have u: "unat h = ?m" by (simp add: hm unat_of_nat)
    have "j \<le> active_highest_slotid (tbl w)" if "j < length (active (tbl w))" "active (tbl w) ! j" for j
      using active_highest_greater [of "active_highest_slotid (tbl w)" "tbl w"] that not_le by blast
    then have "i \<le> unat h \<and> target_highest_slotid (tbl w) \<le> unat h \<and> unat h \<le> fst (get_slot_limits (tbl w)) \<and>
      unat h < length (slots (tbl w)) \<and> (\<forall>j < length (active (tbl w)). active (tbl w) ! j \<longrightarrow> j \<le> unat h)"
      using i m u by (auto intro: le_max_iff_disj [THEN iffD2]) }
  ultimately show ?thesis by blast
qed

end
