(* ===== verification/Session.thy ===== *)
theory Session
  imports Replies Slots Paths
begin

text \<open>
  The NFSv4.1 session (\<open>src/nfs4/session.rs\<close>, \<open>ClientOwner\<close> in \<open>src/nfs4.rs\<close> and the set-up calls in
  \<open>src/nfs4/codec.rs\<close>): one definition per method, on the state \<open>Io\<close> of one task.

  \<open>Io\<close> holds the session, whose atomics and slot table are shared with the other tasks, and what the
  code calls but does not contain: \<open>transport\<close> is \<open>RpcClient::call_with_timeout\<close> with the server behind
  it (the answer to the last of all the payloads handed to it so far), \<open>acquired\<close> the outcome of
  \<open>SlotTable::acquire_for_request\<close>, \<open>others\<close> what the other tasks do to the shared state while this
  one is suspended, \<open>fresh_verifier\<close> the random part of a new ULID. \<open>issued\<close> and \<open>slept\<close> record the
  requests and the delays in order.
\<close>

subsection \<open>Session state\<close>

abbreviation (input) OPEN_OWNER_PREFIX :: string where "OPEN_OWNER_PREFIX \<equiv> ''nfs-crust-open-''"
abbreviation (input) MAX_DEFERRED_CLOSE_BATCH :: usize where "MAX_DEFERRED_CLOSE_BATCH \<equiv> 16"

record ClientOwner =
  owner_verifier :: u64
  ownerid :: string
  owner_counter :: u64

record SessionShared =
  sh_slots :: SlotTable
  sh_owner :: ClientOwner
  fused_put_supported :: bool
  sh_reclaim_complete :: bool
  fatal_sequence_flags :: u32

record NfsSession =
  ns_rpc :: RpcClientAuth
  ns_max_response_bytes :: usize
  export_root :: FileHandle
  ns_clientid :: u64
  ns_sessionid :: bytes
  client_verifier :: u64
  ns_config :: NfsConfig
  shared :: SessionShared

record Request =
  req_sequence :: "SequenceArgs option"
  req_ops :: "NfsOp list"
  req_payload :: RpcPayload

record Io =
  inner :: NfsSession
  transport :: "RpcPayload list \<Rightarrow> bytes result"
  acquired :: "nat \<Rightarrow> SlotTable \<Rightarrow> (SlotGuard \<times> u32) result \<times> SlotTable"
  others :: "nat \<Rightarrow> SessionShared \<Rightarrow> SessionShared"
  fresh_verifier :: "nat \<Rightarrow> u64"
  awaits :: nat
  issued :: "Request list"
  slept :: "duration list"

type_synonym 'a io = "(Io, Error, 'a) stm"

definition on_shared :: "(SessionShared \<Rightarrow> SessionShared) \<Rightarrow> Io \<Rightarrow> Io" where
  "on_shared f io = io\<lparr> inner := (inner io)\<lparr> shared := f (shared (inner io)) \<rparr> \<rparr>"

text \<open>The task is suspended: the others run.\<close>

definition suspended :: "Io \<Rightarrow> Io" where
  "suspended io = (on_shared (others io (awaits io)) io)\<lparr> awaits := awaits io + 1 \<rparr>"

definition on_slots :: "(SlotTable \<Rightarrow> SlotTable) \<Rightarrow> Io \<Rightarrow> Io" where
  "on_slots f = on_shared (\<lambda>s. s\<lparr> sh_slots := f (sh_slots s) \<rparr>)"

definition issue :: "Request \<Rightarrow> Io \<Rightarrow> bytes result \<times> Io" where
  "issue request io =
    (let io = io\<lparr> issued := issued io @ [request] \<rparr> in
     (transport io (map req_payload (issued io)), suspended io))"

subsection \<open>Client owner\<close>

fun decimal :: "nat \<Rightarrow> string" where
  "decimal n = (if n < 10 then [char_of (48 + n)] else decimal (n div 10) @ [char_of (48 + n mod 10)])"

declare decimal.simps [simp del]

definition next_open_owner :: "ClientOwner \<Rightarrow> string \<times> ClientOwner" where
  "next_open_owner owner =
    (let id = owner_counter owner in
     (OPEN_OWNER_PREFIX @ decimal (unat id), owner\<lparr> owner_counter := id + 1 \<rparr>))"

definition next_owner :: "string io" where
  "next_owner io =
    (case next_open_owner (sh_owner (shared (inner io))) of (owner, counter) \<Rightarrow>
       (Ok owner, on_shared (\<lambda>s. s\<lparr> sh_owner := counter \<rparr>) io))"

subsection \<open>Sending one compound\<close>

definition ensure_sequence_status_usable :: "NfsSession \<Rightarrow> unit result" where
  "ensure_sequence_status_usable s =
    validate_sequence_status_flags (fatal_sequence_flags (shared s)) (sh_reclaim_complete (shared s))"

definition validate_compound_request :: "string \<Rightarrow> NfsOp list \<Rightarrow> NfsSession \<Rightarrow> unit result" where
  "validate_compound_request tag ops s =
    validate_compound_request_limits ops (max_compound_ops (ns_config s)) (max_request_size (ns_config s))
      (encoded_call_len (ns_rpc s) (compound_with_sequence_encoded_len tag ops))"

definition compound_request_fits :: "string \<Rightarrow> NfsOp list \<Rightarrow> NfsSession \<Rightarrow> bool" where
  "compound_request_fits tag ops s = is_ok (validate_compound_request tag ops s)"

text \<open>The slot guard goes out of scope: \<open>Drop for SlotGuard\<close> and \<open>Drop for SlotRelease\<close>.\<close>

definition release_slot :: "SlotGuard \<Rightarrow> SlotTable \<Rightarrow> SlotTable" where
  "release_slot g tb =
    (case drop_guard g tb of (g, tb) \<Rightarrow>
       tb\<lparr> active := (active tb)[guard_index g := False],
           available := available tb + (if retire_permit g then 0 else 1) \<rparr>)"

definition latch_status :: "SequenceResult \<Rightarrow> Io \<Rightarrow> Io" where
  "latch_status sequence io =
    (let s = inner io; sh = shared s; flags = seq_status_flags sequence in
     case validate_sequence_status_flags flags (sh_reclaim_complete sh) of
       Err e \<Rightarrow>
         (case latch_fatal_sequence_flags (fresh_verifier io (awaits io)) (fatal_sequence_flags sh)
            (owner_verifier (sh_owner sh)) (client_verifier s) flags of
          (rotated, latched, verifier) \<Rightarrow>
            on_shared (\<lambda>sh. sh\<lparr> fatal_sequence_flags := latched,
              sh_owner := (sh_owner sh)\<lparr> owner_verifier := verifier \<rparr> \<rparr>) io)
     | _ \<Rightarrow> io)"

definition receive_on_slot :: "SlotState \<Rightarrow> SlotGuard \<Rightarrow> bytes result \<Rightarrow> bytes io" where
  "receive_on_slot slot g r io = (case r of
     Err e \<Rightarrow>
       (let g = (if is_request_not_sent e then disarm_request g else g) in
        (Err e, on_slots (release_slot g) io))
   | Panic \<Rightarrow> (Panic, on_slots (release_slot g) io)
   | Ok response \<Rightarrow>
       (case decode_sequence_result response (ns_sessionid (inner io)) (slot_sequenceid slot) (slot_id slot) of
          Err e \<Rightarrow> (Err e, on_slots (release_slot g) io)
        | Panic \<Rightarrow> (Panic, on_slots (release_slot g) io)
        | Ok result \<Rightarrow>
          (let io = on_slots (update_limits (seq_highest_slotid result) (seq_target_highest_slotid result)) io;
               io = on_slots (advance_sequence g) io;
               g = disarm_request g;
               io = latch_status result io in
           (Ok response, on_slots (release_slot g) io))))"

definition send_on_slot :: "string \<Rightarrow> NfsOp list \<Rightarrow> SlotGuard \<Rightarrow> u32 \<Rightarrow> bytes io" where
  "send_on_slot tag ops g highest io =
    (let s = inner io; slot = slots (sh_slots (shared s)) ! guard_index g in
     case map_err request_not_sent (ensure_sequence_status_usable s) of
       Err e \<Rightarrow> (Err e, on_slots (release_slot g) io)
     | Panic \<Rightarrow> (Panic, on_slots (release_slot g) io)
     | Ok _ \<Rightarrow>
       (let sequence = \<lparr> sessionid = ns_sessionid s, sequenceid = slot_sequenceid slot, slotid = slot_id slot,
                         highest_slotid = highest, cachethis = False \<rparr> in
        case encode_compound_with_sequence tag sequence ops of
          None \<Rightarrow> (Panic, on_slots (release_slot g) io)
        | Some p \<Rightarrow>
          (let g = mark_request_outstanding g;
               (r, io) = issue \<lparr> req_sequence = Some sequence, req_ops = ops, req_payload = p \<rparr> io in
           receive_on_slot slot g r io)))"

definition acquire_for_request :: "(SlotGuard \<times> u32) io" where
  "acquire_for_request io =
    (let io = suspended io in
     case acquired io (awaits io) (sh_slots (shared (inner io))) of (r, tb) \<Rightarrow> (r, on_slots (\<lambda>_. tb) io))"

definition compound_raw_once :: "string \<Rightarrow> NfsOp list \<Rightarrow> bytes io" where
  "compound_raw_once tag ops io =
    (case map_err request_not_sent (validate_compound_request tag ops (inner io)) of
       Err e \<Rightarrow> (Err e, io)
     | Panic \<Rightarrow> (Panic, io)
     | Ok _ \<Rightarrow>
       (case map_err request_not_sent (ensure_sequence_status_usable (inner io)) of
          Err e \<Rightarrow> (Err e, io)
        | Panic \<Rightarrow> (Panic, io)
        | Ok _ \<Rightarrow>
          (case acquire_for_request io of
             (Err e, io) \<Rightarrow> (Err (request_not_sent e), io)
           | (Panic, io) \<Rightarrow> (Panic, io)
           | (Ok (g, highest), io) \<Rightarrow> send_on_slot tag ops g highest io)))"

subsection \<open>What an operation keeps, and what the server answered\<close>

definition keeps :: "Io \<Rightarrow> Io \<Rightarrow> bool" where
  "keeps io io' \<longleftrightarrow> (\<exists>sh. inner io' = (inner io)\<lparr> shared := sh \<rparr>) \<and> transport io' = transport io \<and>
     acquired io' = acquired io \<and> others io' = others io \<and> fresh_verifier io' = fresh_verifier io \<and>
     prefix (issued io) (issued io') \<and> prefix (slept io) (slept io')"

definition answer_of :: "Io \<Rightarrow> nat \<Rightarrow> bytes result" where
  "answer_of io k = transport io (map req_payload (take (Suc k) (issued io)))"

lemma keeps_refl [simp]: "keeps io io"
  by (auto simp: keeps_def intro: exI [of _ "shared (inner io)"])

lemma keeps_trans: "keeps a b \<Longrightarrow> keeps b c \<Longrightarrow> keeps a c"
  by (auto simp: keeps_def)

lemma keeps_on_shared [simp]: "keeps io (on_shared f io)"
  by (auto simp: keeps_def on_shared_def)

lemma keeps_suspended [simp]: "keeps io (suspended io)"
  by (auto simp: keeps_def suspended_def on_shared_def)

lemma on_shared_sel [simp]:
  "issued (on_shared f io) = issued io" "slept (on_shared f io) = slept io" "transport (on_shared f io) = transport io"
  "issued (suspended io) = issued io" "slept (suspended io) = slept io" "transport (suspended io) = transport io"
  "issued (on_slots h io) = issued io" "slept (on_slots h io) = slept io" "transport (on_slots h io) = transport io"
  "issued (latch_status r io) = issued io" "slept (latch_status r io) = slept io" "transport (latch_status r io) = transport io"
  by (simp_all add: on_shared_def suspended_def on_slots_def latch_status_def Let_def split: outcome.splits prod.splits)

lemma keeps_on_slots [simp]: "keeps io (on_slots f io)"
  by (simp add: on_slots_def)

lemma keeps_latch_status [simp]: "keeps io (latch_status r io)"
  by (simp add: latch_status_def Let_def split: outcome.splits prod.splits)

lemma keeps_config: "keeps io io' \<Longrightarrow> ns_config (inner io') = ns_config (inner io)"
  by (auto simp: keeps_def)

lemma keeps_response: "keeps io io' \<Longrightarrow> k < length (issued io) \<Longrightarrow> answer_of io' k = answer_of io k"
  by (auto simp: keeps_def answer_of_def prefix_def)

text \<open>
  \<open>sends ops io r io'\<close>: at most one request was issued, with the operations \<open>ops\<close>, and bytes are
  returned only if they are the answer to it.
\<close>

definition sends :: "NfsOp list \<Rightarrow> Io \<Rightarrow> bytes result \<Rightarrow> Io \<Rightarrow> bool" where
  "sends ops io r io' \<longleftrightarrow> keeps io io' \<and> slept io' = slept io \<and>
     (issued io' = issued io \<and> (\<forall>bs. r \<noteq> Ok bs) \<or>
      (\<exists>req. issued io' = issued io @ [req] \<and> req_ops req = ops \<and>
         (\<forall>bs. r = Ok bs \<longrightarrow> answer_of io' (length (issued io)) = Ok bs)))"

lemma keeps_issue: "issue req io = (r, io') \<Longrightarrow> keeps io io'"
  by (auto simp: issue_def Let_def keeps_def suspended_def on_shared_def)

lemma issue_run:
  assumes "issue req io = (r, io')"
  shows "issued io' = issued io @ [req]" and "slept io' = slept io" and "transport io' = transport io"
    and "transport io (map req_payload (issued io')) = r"
  using assms by (auto simp: issue_def Let_def)

lemma keeps_issue_slots: "issue req io = (r, io') \<Longrightarrow> keeps io (on_slots f io')"
  by (meson keeps_issue keeps_on_slots keeps_trans)

lemma receive_on_slot_keeps:
  assumes "receive_on_slot slot g r io = (x, io')"
  shows "keeps io io' \<and> issued io' = issued io \<and> slept io' = slept io \<and> (\<forall>bs. x = Ok bs \<longrightarrow> r = Ok bs)"
proof -
  have "keeps io (on_slots a (latch_status res (on_slots b (on_slots c io))))" for a b c res
    by (meson keeps_latch_status keeps_on_slots keeps_trans)
  then show ?thesis using assms by (auto simp: receive_on_slot_def Let_def split: outcome.splits)
qed

lemma send_on_slot_sends:
  assumes run: "send_on_slot tag ops g highest io = (r, io')"
  shows "sends ops io r io'"
proof -
  have unsent: "sends ops io x (on_slots f io)" if "\<forall>bs. x \<noteq> Ok bs" for f x
    using that by (simp add: sends_def)
  have sent: "sends ops io x io2"
    if "issue req io = (y, io1)" "req_ops req = ops" "receive_on_slot slot g' y io1 = (x, io2)" for x y req io1 io2 slot g'
    using that issue_run [OF that(1)] keeps_trans [OF keeps_issue [OF that(1)]] receive_on_slot_keeps [OF that(3)]
    by (auto simp: sends_def answer_of_def keeps_def)
  show ?thesis
    using run unsent by (auto simp: send_on_slot_def Let_def split: outcome.splits option.splits prod.splits intro: sent)
qed

lemma keeps_acquire: "acquire_for_request io = (r, io') \<Longrightarrow> keeps io io' \<and> issued io' = issued io \<and> slept io' = slept io"
  by (auto simp: acquire_for_request_def Let_def split: prod.splits intro: keeps_trans [OF keeps_suspended keeps_on_slots])

lemma compound_raw_once_sends:
  assumes "compound_raw_once tag ops io = (r, io')"
  shows "sends ops io r io'"
proof -
  have acq: "sends ops io x io1" if "acquire_for_request io = (y, io1)" "\<forall>bs. x \<noteq> Ok bs" for x y io1
    using keeps_acquire [OF that(1)] that(2) by (simp add: sends_def)
  have sent: "sends ops io x io2" if "acquire_for_request io = (y, io1)" "send_on_slot tag ops g highest io1 = (x, io2)"
    for x y io1 io2 g highest
    using keeps_acquire [OF that(1)] send_on_slot_sends [OF that(2)] keeps_trans [of io io1 io2] by (auto simp: sends_def)
  have "sends ops io x io" if "\<forall>bs. x \<noteq> Ok bs" for x using that by (simp add: sends_def)
  then show ?thesis
    using assms acq sent
    by (simp add: compound_raw_once_def split: outcome.splits prod.splits) blast+
qed

subsection \<open>Transient retries\<close>

text \<open>\<open>Duration::MAX\<close> in nanoseconds.\<close>

abbreviation (input) DURATION_MAX :: duration where "DURATION_MAX \<equiv> 2 ^ 64 * 1000000000 - 1"

definition claim_transient_retry :: "u32 \<Rightarrow> u32 \<Rightarrow> u32 option \<times> u32" where
  "claim_transient_retry attempts retry_limit =
    (if attempts \<ge> retry_limit then (None, attempts) else (Some (attempts + 1), attempts + 1))"

definition transient_retry_delay :: "duration \<Rightarrow> u32 \<Rightarrow> duration" where
  "transient_retry_delay base attempt =
    (if base * unat attempt \<le> DURATION_MAX then base * unat attempt else DURATION_MAX)"

definition sleep_before_transient_retry :: "u32 \<Rightarrow> Io \<Rightarrow> Io" where
  "sleep_before_transient_retry attempts io =
    (let delay = transient_retry_delay (transient_retry_base (ns_config (inner io))) attempts in
     suspended (io\<lparr> slept := slept io @ [delay] \<rparr>))"

definition retry_transient_compound_error :: "CompoundDecodeError \<Rightarrow> u32 \<Rightarrow> Io \<Rightarrow> bool \<times> u32 \<times> Io" where
  "retry_transient_compound_error err attempts io = (case transient_status err of
     None \<Rightarrow> (False, attempts, io)
   | Some status \<Rightarrow>
       (case claim_transient_retry attempts (transient_retries (ns_config (inner io))) of
          (None, attempts) \<Rightarrow> (False, attempts, io)
        | (Some attempt, attempts) \<Rightarrow> (True, attempts, sleep_before_transient_retry attempt io)))"

lemma retry_transient_cases:
  assumes "retry_transient_compound_error err attempts io = (b, a, io')"
  shows "if b then transient_status err \<noteq> None \<and> attempts < transient_retries (ns_config (inner io)) \<and>
             a = attempts + 1 \<and> unat a = unat attempts + 1 \<and> keeps io io' \<and> issued io' = issued io \<and>
             slept io' = slept io @ [transient_retry_delay (transient_retry_base (ns_config (inner io))) a]
         else a = attempts \<and> io' = io"
proof -
  have inc: "unat (attempts + 1) = unat attempts + 1" if "attempts < lim" for lim :: u32
  proof -
    have "1 + attempts \<noteq> 0"
    proof
      assume "1 + attempts = 0"
      then have "attempts = - 1" by (metis add.commute eq_neg_iff_add_eq_0)
      then show False using that by simp
    qed
    then show ?thesis using unatSuc [of attempts] by (simp add: add.commute)
  qed
  have k: "keeps io (suspended (io\<lparr> slept := slept io @ [d] \<rparr>))" for d
    by (auto simp: keeps_def suspended_def on_shared_def)
  show ?thesis
    using assms inc k
    by (auto simp: retry_transient_compound_error_def claim_transient_retry_def sleep_before_transient_retry_def
        Let_def not_le split: option.splits if_splits)
qed

lemma retry_decreases:
  assumes "compound_raw_once tag ops io = (r, io1)"
    and "retry_transient_compound_error err attempts io1 = (True, a, io2)"
  shows "unat (transient_retries (ns_config (inner io2))) - unat a <
    unat (transient_retries (ns_config (inner io))) - unat attempts"
proof -
  have "keeps io io1" using compound_raw_once_sends [OF assms(1)] by (simp add: sends_def)
  then show ?thesis
    using retry_transient_cases [OF assms(2)] keeps_config [of io io1] keeps_config [of io1 io2]
    by (auto simp: word_less_nat_alt)
qed

function compound_decode_detailed ::
  "string \<Rightarrow> NfsOp list \<Rightarrow> (bytes \<Rightarrow> ('a, CompoundDecodeError) outcome) \<Rightarrow> bool \<Rightarrow> u32 \<Rightarrow> Io \<Rightarrow>
     ('a, CompoundDecodeError) outcome \<times> u32 \<times> Io" where
  "compound_decode_detailed tag ops decode retry_transients attempts io =
    (case compound_raw_once tag ops io of
       (Err e, io) \<Rightarrow> (Err (cde_from e), attempts, io)
     | (Panic, io) \<Rightarrow> (Panic, attempts, io)
     | (Ok bs, io) \<Rightarrow>
       (case decode bs of
          Ok result \<Rightarrow> (Ok result, attempts, io)
        | Panic \<Rightarrow> (Panic, attempts, io)
        | Err err \<Rightarrow>
          if retry_transients \<and> transient_compound_retry_is_safe ops err then
            (case retry_transient_compound_error err attempts io of
               (True, attempts, io) \<Rightarrow> compound_decode_detailed tag ops decode retry_transients attempts io
             | (False, attempts, io) \<Rightarrow> (Err err, attempts, io))
          else (Err err, attempts, io)))"
  by pat_completeness auto
termination
  by (relation "measure (\<lambda>(tag, ops, decode, retry, attempts, io).
      unat (transient_retries (ns_config (inner io))) - unat attempts)")
    (auto split: prod.splits intro: retry_decreases [OF sym])

declare compound_decode_detailed.simps [simp del]

definition compound_decode :: "string \<Rightarrow> NfsOp list \<Rightarrow> (bytes \<Rightarrow> ('a, CompoundDecodeError) outcome) \<Rightarrow> 'a io" where
  "compound_decode tag ops decode io =
    (case compound_decode_detailed tag ops decode True 0 io of (r, attempts, io) \<Rightarrow> (map_err err_error r, io))"

definition compound_decode_no_transient_retry ::
  "string \<Rightarrow> NfsOp list \<Rightarrow> (bytes \<Rightarrow> ('a, CompoundDecodeError) outcome) \<Rightarrow> 'a io" where
  "compound_decode_no_transient_retry tag ops decode io =
    (case compound_decode_detailed tag ops decode False 0 io of (r, attempts, io) \<Rightarrow> (map_err err_error r, io))"

subsection \<open>Operations\<close>

definition session_of :: "NfsSession io" where
  "session_of io = (Ok (inner io), io)"

definition path_ops :: "NfsSession \<Rightarrow> string list \<Rightarrow> NfsOp list" where
  "path_ops s components = export_path_ops (export_root s) components"

definition open_file :: "string list \<Rightarrow> string \<Rightarrow> OpenedFile OpenOutcome io" where
  "open_file parent name =
    and_then next_owner (\<lambda>owner.
    and_then session_of (\<lambda>s.
    and_then (compound_decode ''open''
      (path_ops s parent @
       [NfsOp.Open 0 (ns_clientid s) (as_bytes owner) name (file_mode (ns_config s)), NfsOp.GetFh])
      (\<lambda>bs. decode_open_file_compound bs (length parent))) (\<lambda>outcome.
    case outcome of
      AlreadyExists \<Rightarrow> ok AlreadyExists
    | Opened (stateid, h) \<Rightarrow> ok (Opened \<lparr> fh = h, opened_stateid = stateid, close_seqid = 1 \<rparr>))))"

definition close_ops :: "OpenedFile \<Rightarrow> NfsOp list" where
  "close_ops opened = [NfsOp.PutFh (fh opened), NfsOp.Close (close_seqid opened) (opened_stateid opened)]"

text \<open>\<open>close_file\<close> and \<open>close_publish\<close> return the state they leave in \<open>opened\<close>.\<close>

definition close_file :: "OpenedFile \<Rightarrow> OpenedFile io" where
  "close_file opened =
    and_then (compound_decode ''close'' (close_ops opened) (\<lambda>bs. decode_close_compound bs FileClose None)) (\<lambda>_.
    ok (opened\<lparr> close_seqid := close_seqid opened + 1 \<rparr>))"

definition max_files_by_ops :: "NfsSession \<Rightarrow> usize" where
  "max_files_by_ops s =
    min (max (saturating_sub (unat (max_compound_ops (ns_config s))) 1 div 2) 1) MAX_DEFERRED_CLOSE_BATCH"

fun fit_batch :: "NfsSession \<Rightarrow> OpenedFile list \<Rightarrow> usize \<Rightarrow> usize" where
  "fit_batch s opened n =
    (if n \<le> 1 \<or> compound_request_fits ''close-batch'' (concat (map close_ops (take n opened))) s then n
     else fit_batch s opened (n - 1))"

declare fit_batch.simps [simp del]

lemma fit_batch_bounds: "0 < n \<Longrightarrow> 0 < fit_batch s opened n \<and> fit_batch s opened n \<le> n"
proof (induction s opened n rule: fit_batch.induct)
  case (1 s opened n)
  then show ?case by (subst (1 2) fit_batch.simps) auto
qed

lemma close_count_bounds:
  "opened \<noteq> [] \<Longrightarrow> 0 < fit_batch s opened (min (max_files_by_ops s) (length opened)) \<and>
     fit_batch s opened (min (max_files_by_ops s) (length opened)) \<le> min MAX_DEFERRED_CLOSE_BATCH (length opened)"
  using fit_batch_bounds [of "min (max_files_by_ops s) (length opened)" s opened]
  by (auto simp: max_files_by_ops_def)

function close_batch :: "OpenedFile list \<Rightarrow> unit io" where
  "close_batch opened io =
    (if opened = [] then (Ok (), io)
     else
       (let close_count = fit_batch (inner io) opened (min (max_files_by_ops (inner io)) (length opened));
            ops = concat (map close_ops (take close_count opened)) in
        case compound_decode_no_transient_retry ''close-batch'' ops
               (\<lambda>bs. decode_close_batch_compound bs close_count) io of
          (Ok _, io) \<Rightarrow> close_batch (drop close_count opened) io
        | (Err e, io) \<Rightarrow> (Err e, io)
        | (Panic, io) \<Rightarrow> (Panic, io)))"
  by pat_completeness auto
termination
  by (relation "measure (\<lambda>(opened, io). length opened)") (use close_count_bounds in auto)

declare close_batch.simps [simp del]

definition publish_after_close_ops :: "NfsSession \<Rightarrow> FileHandle \<Rightarrow> string list \<Rightarrow> string \<Rightarrow> string \<Rightarrow> bool \<Rightarrow> NfsOp list" where
  "publish_after_close_ops s source_fh parent from_name to_name create_new =
    (if create_new
     then extend_export_path_ops [NfsOp.PutFh source_fh, NfsOp.SaveFh] (export_root s) parent @
       [NfsOp.Link to_name, NfsOp.Remove from_name]
     else extend_export_path_ops [] (export_root s) parent @ [NfsOp.SaveFh, NfsOp.Rename from_name to_name])"

definition publish_after_close ::
  "FileHandle \<Rightarrow> string list \<Rightarrow> string \<Rightarrow> string \<Rightarrow> bool \<Rightarrow> u32 \<Rightarrow> unit io" where
  "publish_after_close source_fh parent from_name to_name create_new transient_attempts io =
    (let ops = publish_after_close_ops (inner io) source_fh parent from_name to_name create_new;
         tag = (if create_new then ''publish-link-remove'' else ''publish-rename'') in
     case compound_decode_detailed tag ops
            (\<lambda>bs. if create_new then decode_link_remove_publish_compound bs (length parent)
                  else decode_rename_publish_compound bs (length parent)) True transient_attempts io of
       (r, _, io) \<Rightarrow> (map_err err_error r, io))"

definition close_publish_ops ::
  "NfsSession \<Rightarrow> OpenedFile \<Rightarrow> string list \<Rightarrow> string \<Rightarrow> string \<Rightarrow> u64 \<Rightarrow> bytes option \<Rightarrow> bool \<Rightarrow> NfsOp list" where
  "close_publish_ops s opened parent from_name to_name len unstable_verifier create_new =
    (let ops = [NfsOp.PutFh (fh opened)] @
           (if unstable_verifier \<noteq> None then [NfsOp.Commit 0 (commit_count len)] else []) @
           [NfsOp.Verify len, NfsOp.Close (close_seqid opened) (opened_stateid opened)] in
     if create_new
     then extend_export_path_ops (ops @ [NfsOp.SaveFh]) (export_root s) parent @
       [NfsOp.Link to_name, NfsOp.Remove from_name]
     else extend_export_path_ops ops (export_root s) parent @ [NfsOp.SaveFh, NfsOp.Rename from_name to_name])"

definition close_publish_shape :: "string list \<Rightarrow> bool \<Rightarrow> CloseShape" where
  "close_publish_shape parent create_new =
    (if create_new then LinkRemoveClose (length parent) else RenameClose (length parent))"

definition session_close_publish ::
  "OpenedFile \<Rightarrow> string list \<Rightarrow> string \<Rightarrow> string \<Rightarrow> u64 \<Rightarrow> bytes option \<Rightarrow> bool \<Rightarrow> OpenedFile io" where
  "session_close_publish opened parent from_name to_name len unstable_verifier create_new io =
    (let ops = close_publish_ops (inner io) opened parent from_name to_name len unstable_verifier create_new;
         tag = (if create_new then ''close-link-remove'' else ''close-rename'');
         closed = opened\<lparr> close_seqid := close_seqid opened + 1 \<rparr> in
     case compound_decode_detailed tag ops
            (\<lambda>bs. decode_close_compound bs (close_publish_shape parent create_new) unstable_verifier) True 0 io of
       (Ok _, _, io) \<Rightarrow> (Ok closed, io)
     | (Panic, _, io) \<Rightarrow> (Panic, io)
     | (Err err, transient_attempts, io) \<Rightarrow>
         if completed_operation err ops OpCode.Close \<and> \<not> completed_operation err ops OpCode.Link \<and>
            \<not> completed_operation err ops OpCode.Rename \<and> transient_status err \<noteq> None
         then (case retry_transient_compound_error err transient_attempts io of
             (False, _, io) \<Rightarrow> (Err (err_error err), io)
           | (True, transient_attempts, io) \<Rightarrow>
               and_then (publish_after_close (fh opened) parent from_name to_name create_new transient_attempts)
                 (\<lambda>_. ok closed) io)
         else (Err (err_error err), io))"

definition compound_getfh :: "string \<Rightarrow> NfsOp list \<Rightarrow> OpCode \<Rightarrow> usize \<Rightarrow> FileHandle io" where
  "compound_getfh tag ops start_op lookup_count =
    compound_decode tag ops (\<lambda>bs. decode_getfh_compound bs start_op lookup_count)"

definition lookup_file_handle :: "string list \<Rightarrow> FileHandle io" where
  "lookup_file_handle components =
    and_then session_of (\<lambda>s.
    compound_getfh ''lookup-file'' (path_ops s components @ [NfsOp.GetFh]) OpCode.PutFh (length components))"

definition lookup_file_handle_attrs :: "string list \<Rightarrow> AttrRequest \<Rightarrow> (FileHandle \<times> FileAttrs) io" where
  "lookup_file_handle_attrs components attr_request =
    and_then session_of (\<lambda>s.
    compound_decode ''lookup-file-attrs''
      (path_ops s components @ [NfsOp.GetFh, NfsOp.GetAttr (attr_request_bitmap attr_request)])
      (\<lambda>bs. decode_getfh_attrs_compound bs (length components) attr_request))"

definition read_anonymous :: "FileHandle \<Rightarrow> u64 \<Rightarrow> u32 \<Rightarrow> ReadData io" where
  "read_anonymous h offset count =
    compound_decode ''read-anon'' [NfsOp.PutFh h, NfsOp.Read stateid_anonymous offset count] decode_read_compound"

definition read_path_anonymous :: "string list \<Rightarrow> u64 \<Rightarrow> u32 \<Rightarrow> ReadData io" where
  "read_path_anonymous components offset count =
    and_then session_of (\<lambda>s.
    compound_decode ''read-path-anon''
      (path_ops s components @ [NfsOp.Read stateid_anonymous offset count])
      (\<lambda>bs. decode_read_path_compound bs (length components)))"

definition read_path_anonymous_with_handle :: "string list \<Rightarrow> u64 \<Rightarrow> u32 \<Rightarrow> (FileHandle \<times> ReadData) io" where
  "read_path_anonymous_with_handle components offset count =
    and_then session_of (\<lambda>s.
    compound_decode ''read-path-handle''
      (path_ops s components @ [NfsOp.GetFh, NfsOp.Read stateid_anonymous offset count])
      (\<lambda>bs. decode_read_path_handle_compound bs (length components)))"

definition read_path_anonymous_with_size :: "string list \<Rightarrow> u32 \<Rightarrow> (FileHandle \<times> u64 \<times> ReadData) io" where
  "read_path_anonymous_with_size components count =
    and_then session_of (\<lambda>s.
    compound_decode ''read-path-size''
      (path_ops s components @
       [NfsOp.GetFh, NfsOp.GetAttr bitmap_size_attr, NfsOp.Read stateid_anonymous 0 count])
      (\<lambda>bs. decode_read_path_size_compound bs (length components)))"

definition session_write :: "OpenedFile \<Rightarrow> u64 \<Rightarrow> bytes \<Rightarrow> WriteData io" where
  "session_write opened offset data =
    compound_decode ''write'' [NfsOp.PutFh (fh opened), NfsOp.Write (opened_stateid opened) offset data]
      decode_write_compound"

definition write_and_commit :: "OpenedFile \<Rightarrow> u64 \<Rightarrow> bytes \<Rightarrow> (WriteData \<times> bytes) io" where
  "write_and_commit opened offset data =
    compound_decode ''write-commit'' (write_and_commit_ops opened offset data) decode_write_commit_compound"

definition session_remove :: "string list \<Rightarrow> string \<Rightarrow> RemoveOutcome io" where
  "session_remove parent name =
    and_then session_of (\<lambda>s.
    compound_decode ''remove'' (path_ops s parent @ [NfsOp.Remove name])
      (\<lambda>bs. decode_remove_compound bs (length parent)))"

definition remove_at :: "FileHandle \<Rightarrow> string \<Rightarrow> RemoveOutcome io" where
  "remove_at dir name =
    compound_decode ''remove-at'' [NfsOp.PutFh dir, NfsOp.Remove name] (\<lambda>bs. decode_remove_compound bs 0)"

definition resolve_export_root :: "string list \<Rightarrow> FileHandle io" where
  "resolve_export_root components =
    compound_getfh ''resolve-export'' (root_path_ops components @ [NfsOp.GetFh]) OpCode.PutRootFh (length components)"

definition read_dir_page :: "FileHandle \<Rightarrow> u64 \<Rightarrow> bytes \<Rightarrow> usize option \<Rightarrow> DirPage io" where
  "read_dir_page dir cookie verifier max_entries_hint =
    and_then session_of (\<lambda>s.
    compound_decode ''readdir''
      [NfsOp.PutFh dir, readdir_op (ns_config s) cookie verifier max_entries_hint]
      (\<lambda>bs. decode_readdir_compound bs max_entries_hint))"

definition read_dir_path_page :: "string list \<Rightarrow> u64 \<Rightarrow> bytes \<Rightarrow> usize option \<Rightarrow> (FileHandle \<times> DirPage) io" where
  "read_dir_path_page components cookie verifier max_entries_hint =
    and_then session_of (\<lambda>s.
    compound_decode ''readdir-path''
      (path_ops s components @ [NfsOp.GetFh, readdir_op (ns_config s) cookie verifier max_entries_hint])
      (\<lambda>bs. decode_readdir_path_compound bs max_entries_hint (length components)))"

definition read_dir_path_page_without_handle :: "string list \<Rightarrow> u64 \<Rightarrow> bytes \<Rightarrow> usize option \<Rightarrow> DirPage io" where
  "read_dir_path_page_without_handle components cookie verifier max_entries_hint =
    and_then session_of (\<lambda>s.
    compound_decode ''readdir-path''
      (path_ops s components @ [readdir_op (ns_config s) cookie verifier max_entries_hint])
      (\<lambda>bs. decode_readdir_path_without_handle_compound bs max_entries_hint (length components)))"

definition compound_create_dir :: "string \<Rightarrow> NfsOp list \<Rightarrow> usize \<Rightarrow> unit io" where
  "compound_create_dir tag ops parent_lookup_count =
    and_then (compound_decode tag ops (\<lambda>bs. decode_create_dir_compound bs parent_lookup_count)) (\<lambda>_. ok ())"

definition compound_create_dir_handle :: "string \<Rightarrow> NfsOp list \<Rightarrow> usize \<Rightarrow> CreateDirHandleOutcome io" where
  "compound_create_dir_handle tag ops parent_lookup_count =
    compound_decode tag ops (\<lambda>bs. decode_create_dir_handle_compound bs parent_lookup_count)"

definition create_dir :: "string list \<Rightarrow> string \<Rightarrow> unit io" where
  "create_dir parent name =
    and_then session_of (\<lambda>s.
    compound_create_dir ''mkdir'' (path_ops s parent @ [NfsOp.CreateDir name (dir_mode (ns_config s))])
      (length parent))"

definition create_dir_with_handle :: "string list \<Rightarrow> string \<Rightarrow> CreateDirHandleOutcome io" where
  "create_dir_with_handle parent name =
    and_then session_of (\<lambda>s.
    compound_create_dir_handle ''mkdir-handle''
      (path_ops s parent @ [NfsOp.CreateDir name (dir_mode (ns_config s)), NfsOp.GetFh]) (length parent))"

definition create_dir_at_handle :: "FileHandle \<Rightarrow> string \<Rightarrow> unit io" where
  "create_dir_at_handle parent_fh name =
    and_then session_of (\<lambda>s.
    compound_create_dir ''mkdir'' [NfsOp.PutFh parent_fh, NfsOp.CreateDir name (dir_mode (ns_config s))] 0)"

definition create_child_dir_with_handle :: "FileHandle \<Rightarrow> string \<Rightarrow> CreateDirHandleOutcome io" where
  "create_child_dir_with_handle parent_fh name =
    and_then session_of (\<lambda>s.
    compound_create_dir_handle ''mkdir-handle''
      [NfsOp.PutFh parent_fh, NfsOp.CreateDir name (dir_mode (ns_config s)), NfsOp.GetFh] 0)"

definition lookup_child_handle :: "FileHandle \<Rightarrow> string \<Rightarrow> FileHandle io" where
  "lookup_child_handle parent_fh name =
    compound_getfh ''lookup-child'' [NfsOp.PutFh parent_fh, NfsOp.Lookup name, NfsOp.GetFh] OpCode.PutFh 1"

definition ensure_child_dir_handle :: "FileHandle \<Rightarrow> string \<Rightarrow> FileHandle io" where
  "ensure_child_dir_handle parent_fh name =
    and_then (create_child_dir_with_handle parent_fh name) (\<lambda>outcome. case outcome of
      CreatedHandle h \<Rightarrow> ok h
    | HandleExists \<Rightarrow> lookup_child_handle parent_fh name)"

text \<open>The loop of \<open>create_parent_dirs\<close> from \<open>depth\<close>, with the handle of the parent if it is known.\<close>

function create_parent_dirs_from :: "string list \<Rightarrow> usize \<Rightarrow> FileHandle option \<Rightarrow> unit io" where
  "create_parent_dirs_from parent depth parent_fh =
    (if length parent \<le> depth then ok ()
     else
       (let name = parent ! depth; needs_child_handle = depth + 1 < length parent in
        case (parent_fh, needs_child_handle) of
          (Some h, True) \<Rightarrow>
            and_then (ensure_child_dir_handle h name) (\<lambda>h.
            create_parent_dirs_from parent (depth + 1) (Some h))
        | (Some h, False) \<Rightarrow>
            and_then (create_dir_at_handle h name) (\<lambda>_.
            create_parent_dirs_from parent (depth + 1) parent_fh)
        | (None, True) \<Rightarrow>
            and_then (create_dir_with_handle (take depth parent) name) (\<lambda>outcome. case outcome of
              CreatedHandle h \<Rightarrow> create_parent_dirs_from parent (depth + 1) (Some h)
            | HandleExists \<Rightarrow> create_parent_dirs_from parent (depth + 1) None)
        | (None, False) \<Rightarrow>
            and_then (create_dir (take depth parent) name) (\<lambda>_.
            create_parent_dirs_from parent (depth + 1) None)))"
  by pat_completeness auto
termination
  by (relation "measure (\<lambda>(parent, depth, parent_fh). length parent - depth)") simp_all

declare create_parent_dirs_from.simps [simp del]

definition create_parent_dirs :: "string list \<Rightarrow> unit io" where
  "create_parent_dirs parent = create_parent_dirs_from parent 0 None"

definition session_reclaim_complete :: "unit io" where
  "session_reclaim_complete =
    compound_decode ''reclaim-complete'' [NfsOp.ReclaimComplete False]
      (\<lambda>bs. decode_no_result_compound bs OpCode.ReclaimComplete)"

subsection \<open>Fused PUT\<close>

definition fused_put_viable :: "usize \<Rightarrow> NfsSession \<Rightarrow> bool" where
  "fused_put_viable len s \<longleftrightarrow>
     fused_put_size_viable len (write_chunk_size (ns_config s)) \<and> fused_put_supported (shared s)"

definition note_fused_put_failure :: "Error \<Rightarrow> Io \<Rightarrow> Io" where
  "note_fused_put_failure err io =
    (let unsupported = (case err of Unsupported _ \<Rightarrow> True | _ \<Rightarrow>
       (case nfs_status_code err of
          None \<Rightarrow> False
        | Some code \<Rightarrow>
            if code = status_NOTSUPP \<or> code = status_OP_ILLEGAL then True
            else if code = status_INVAL \<or> code = status_BAD_STATEID
            then is_nfs_operation err OpCode.Write \<or> is_nfs_operation err OpCode.Commit \<or>
                 is_nfs_operation err OpCode.Verify
            else False)) in
     if unsupported then on_shared (\<lambda>s. s\<lparr> fused_put_supported := False \<rparr>) io else io)"

definition fused_put_ops ::
  "NfsSession \<Rightarrow> string \<Rightarrow> string list \<Rightarrow> string \<Rightarrow> string \<Rightarrow> bytes \<Rightarrow> bool \<Rightarrow> NfsOp list" where
  "fused_put_ops s owner parent temp_name dest_name data create_new =
    (let len = of_nat (length data) :: u64;
         count = commit_count len;
         ops = extend_export_path_ops [] (export_root s) parent @
           (if \<not> create_new then [NfsOp.SaveFh] else []) @
           [NfsOp.Open 0 (ns_clientid s) (as_bytes owner) temp_name (file_mode (ns_config s)),
            NfsOp.GetFh,
            NfsOp.Write stateid_current 0 data,
            NfsOp.Commit 0 count,
            NfsOp.Verify len] in
     if create_new
     then extend_export_path_ops (ops @ [NfsOp.SaveFh]) (export_root s) parent @
       [NfsOp.Link dest_name, NfsOp.Remove temp_name]
     else ops @ [NfsOp.RestoreFh, NfsOp.Rename temp_name dest_name])"

definition try_put_fused ::
  "string list \<Rightarrow> string \<Rightarrow> string \<Rightarrow> bytes \<Rightarrow> bool \<Rightarrow> (u64 \<times> OpenedFile) OpenOutcome option io" where
  "try_put_fused parent temp_name dest_name data create_new io =
    (if \<not> fused_put_viable (length data) (inner io) then (Ok None, io)
     else
     and_then next_owner (\<lambda>owner io.
       (let ops = fused_put_ops (inner io) owner parent temp_name dest_name data create_new in
        if \<not> compound_request_fits ''put-fused'' ops (inner io) then (Ok None, io)
        else
        case compound_decode_detailed ''put-fused'' ops
               (\<lambda>bs. decode_fused_put_compound bs (length parent) create_new) False 0 io of
          (Err err, _, io) \<Rightarrow> (Err (err_error err), note_fused_put_failure (err_error err) io)
        | (Panic, _, io) \<Rightarrow> (Panic, io)
        | (Ok AlreadyExists, _, io) \<Rightarrow> (Ok (Some AlreadyExists), io)
        | (Ok (Opened (stateid, h, w)), _, io) \<Rightarrow>
            if (ucast (write_count w) :: u64) \<noteq> of_nat (length data)
            then (Err (Protocol ''fused put wrote {} of {} bytes but passed size verification''), io)
            else (Ok (Some (Opened (ucast (write_count w),
                   \<lparr> fh = h, opened_stateid = stateid, close_seqid = 1 \<rparr>))), io))) io)"

subsection \<open>Deferred closes\<close>

text \<open>
  One turn of the worker: the batch it drained is closed in compounds, and file by file when that
  fails; failures are logged only. \<open>drained n queue\<close> is the batch when \<open>n\<close> more states were queued
  at the time of the drain. A turn of the worker is given by that number and by whether the session
  still exists.
\<close>

primrec close_each :: "OpenedFile list \<Rightarrow> unit io" where
  "close_each [] = ok ()"
| "close_each (opened # rest) io = (case close_file opened io of
     (Panic, io) \<Rightarrow> (Panic, io)
   | (r, io) \<Rightarrow> close_each rest io)"

definition close_deferred :: "OpenedFile list \<Rightarrow> unit io" where
  "close_deferred batch io = (case close_batch batch io of
     (Err e, io) \<Rightarrow> close_each batch io
   | (r, io) \<Rightarrow> (r, io))"

definition drained :: "usize \<Rightarrow> OpenedFile list \<Rightarrow> OpenedFile list" where
  "drained n queue = take (min (1 + n) MAX_DEFERRED_CLOSE_BATCH) queue"

fun run_deferred_close_worker :: "(usize \<times> bool) list \<Rightarrow> OpenedFile list \<Rightarrow> unit io" where
  "run_deferred_close_worker [] queue = ok ()"
| "run_deferred_close_worker ((n, alive) # turns) queue =
    (if queue = [] \<or> \<not> alive then ok ()
     else and_then (close_deferred (drained n queue)) (\<lambda>_.
       run_deferred_close_worker turns (drop (length (drained n queue)) queue)))"

subsection \<open>Connecting\<close>

definition setup_call :: "string \<Rightarrow> NfsOp list \<Rightarrow> bytes io" where
  "setup_call tag ops io = (case encode_compound tag ops of
     None \<Rightarrow> (Panic, io)
   | Some bs \<Rightarrow> issue \<lparr> req_sequence = None, req_ops = ops, req_payload = payload_from_bytes bs \<rparr> io)"

definition exchange_id :: "ClientOwner \<Rightarrow> u64 \<Rightarrow> ExchangeIdResult io" where
  "exchange_id owner verifier =
    and_then (setup_call ''exchange-id'' [NfsOp.ExchangeId (be_bytes 8 verifier) (as_bytes (ownerid owner))]) (\<lambda>bs.
    lift (decode_exchange_id_compound bs))"

definition create_session :: "RpcClientAuth \<Rightarrow> u64 \<Rightarrow> u32 \<Rightarrow> NfsConfig \<Rightarrow> CreateSessionResult io" where
  "create_session rpc clientid sequenceid' config =
    and_then (setup_call ''create-session'' [NfsOp.CreateSession clientid sequenceid' config]) (\<lambda>bs.
    (let minimum_request_size = encoded_call_len rpc (compound_with_sequence_encoded_len [] []) in
     lift (decode_create_session_compound bs sequenceid' minimum_request_size)))"

definition new_session ::
  "RpcClientAuth \<Rightarrow> NfsConfig \<Rightarrow> ClientOwner \<Rightarrow> ExchangeIdResult \<Rightarrow> CreateSessionResult \<Rightarrow> NfsSession" where
  "new_session rpc config owner exchange created =
    (let attrs = fore_attrs created;
         slot_count = max (min (maxrequests attrs) (session_slots config)) 1 in
     \<lparr> ns_rpc = rpc,
       ns_max_response_bytes = min (unat (max_response_size config)) (unat (ca_max_response_size attrs)),
       export_root = [],
       ns_clientid = xid_clientid exchange,
       ns_sessionid = cs_sessionid created,
       client_verifier = owner_verifier owner,
       ns_config = negotiated_config config attrs,
       shared = \<lparr> sh_slots = slot_table_new slot_count, sh_owner = owner, fused_put_supported = True,
                  sh_reclaim_complete = False, fatal_sequence_flags = 0 \<rparr> \<rparr>)"

text \<open>\<open>connect\<close> once the transport is up; \<open>inner\<close> is the session it builds.\<close>

definition session_connect :: "RpcClientAuth \<Rightarrow> NfsConfig \<Rightarrow> ClientOwner \<Rightarrow> unit io" where
  "session_connect rpc config owner =
    and_then (exchange_id owner (owner_verifier owner)) (\<lambda>exchange.
    and_then (create_session rpc (xid_clientid exchange) (xid_sequenceid exchange) config) (\<lambda>created.
    and_then (\<lambda>io. (Ok (), io\<lparr> inner := new_session rpc config owner exchange created \<rparr>)) (\<lambda>_.
    and_then (\<lambda>io. case session_reclaim_complete io of
        (Err e, io) \<Rightarrow> (if is_nfs_status e status_COMPLETE_ALREADY then Ok () else Err e, io)
      | (r, io) \<Rightarrow> (r, io)) (\<lambda>_.
    and_then (\<lambda>io. (Ok (), on_shared (\<lambda>s. s\<lparr> sh_reclaim_complete := True \<rparr>) io)) (\<lambda>_.
    and_then session_of (\<lambda>s.
    and_then (lift (parse_export (export_path (ns_config s)))) (\<lambda>components.
    and_then (resolve_export_root components) (\<lambda>root.
    \<lambda>io. (Ok (), io\<lparr> inner := (inner io)\<lparr> export_root := root \<rparr> \<rparr>)))))))))"

definition session_slot_count :: "NfsSession \<Rightarrow> usize" where
  "session_slot_count s = effective_len (sh_slots (shared s))"

subsection \<open>The contract of the retry loop\<close>

text \<open>
  \<open>conversed ops decode io r io'\<close>: every request issued has the operations \<open>ops\<close>; a request was
  issued again only after an answer that the decoder reported as a transient failure and safe to
  replay; a result, and an error with a reply index, is what the decoder made of the last answer.
\<close>

definition conversed ::
  "NfsOp list \<Rightarrow> (bytes \<Rightarrow> ('a, CompoundDecodeError) outcome) \<Rightarrow> Io \<Rightarrow> ('a, CompoundDecodeError) outcome \<Rightarrow> Io \<Rightarrow> bool" where
  "conversed ops decode io r io' \<longleftrightarrow> keeps io io' \<and>
     (\<forall>k. length (issued io) \<le> k \<and> k < length (issued io') \<longrightarrow> req_ops (issued io' ! k) = ops) \<and>
     (\<forall>k. length (issued io) \<le> k \<and> Suc k < length (issued io') \<longrightarrow>
        (\<exists>bs e. answer_of io' k = Ok bs \<and> decode bs = Err e \<and> transient_status e \<noteq> None \<and>
           transient_compound_retry_is_safe ops e)) \<and>
     (\<forall>v. r = Ok v \<longrightarrow> length (issued io) < length (issued io') \<and>
        (\<exists>bs. answer_of io' (length (issued io') - 1) = Ok bs \<and> decode bs = Ok v)) \<and>
     (\<forall>e i. r = Err e \<and> reply_index e = Some i \<longrightarrow> length (issued io) < length (issued io') \<and>
        (\<exists>bs. answer_of io' (length (issued io') - 1) = Ok bs \<and> decode bs = Err e))"

lemma keeps_issued_length: "keeps io io' \<Longrightarrow> length (issued io) \<le> length (issued io')"
  by (auto simp: keeps_def prefix_length_le)

lemma conversed_unsent:
  assumes "keeps io io'" and "issued io' = issued io" and "\<forall>v. r \<noteq> Ok v" and "\<forall>e. r = Err e \<longrightarrow> reply_index e = None"
  shows "conversed ops decode io r io'"
  using assms by (auto simp: conversed_def)

lemma conversed_sent:
  assumes "keeps io io'" and "issued io' = issued io @ [req]" and "req_ops req = ops"
    and "(\<forall>v. r \<noteq> Ok v) \<and> (\<forall>e. r = Err e \<longrightarrow> reply_index e = None) \<or>
         (\<exists>bs. answer_of io' (length (issued io)) = Ok bs \<and> r = decode bs)"
  shows "conversed ops decode io r io'"
  using assms by (auto simp: conversed_def nth_append less_Suc_eq_le dest: le_antisym)

lemma conversed_again:
  assumes "keeps io io1" and "issued io1 = issued io @ [req]" and "req_ops req = ops"
    and "answer_of io1 (length (issued io)) = Ok bs" and "decode bs = Err e" and "transient_status e \<noteq> None"
    and "transient_compound_retry_is_safe ops e" and rest: "conversed ops decode io1 r io'"
  shows "conversed ops decode io r io'"
proof -
  let ?n = "length (issued io)"
  have k1: "keeps io1 io'" using rest by (simp add: conversed_def)
  have n: "length (issued io1) = Suc ?n" using assms(2) by simp
  have first: "answer_of io' ?n = Ok bs" using keeps_response [OF k1, of ?n] assms(4) n by simp
  have pre: "prefix (issued io1) (issued io')" using k1 by (simp add: keeps_def)
  then have "issued io' ! ?n = req" using assms(2) by (auto simp: prefix_def nth_append)
  then have all: "req_ops (issued io' ! k) = ops" if "?n \<le> k" "k < length (issued io')" for k
    using that rest assms(3) n by (cases "k = ?n") (auto simp: conversed_def)
  have again: "\<exists>bs e. answer_of io' k = Ok bs \<and> decode bs = Err e \<and> transient_status e \<noteq> None \<and>
      transient_compound_retry_is_safe ops e" if "?n \<le> k" "Suc k < length (issued io')" for k
    using that rest first assms(5-7) n by (cases "k = ?n") (auto simp: conversed_def)
  have out: "(\<forall>v. r = Ok v \<longrightarrow> ?n < length (issued io') \<and>
        (\<exists>bs. answer_of io' (length (issued io') - 1) = Ok bs \<and> decode bs = Ok v)) \<and>
     (\<forall>e i. r = Err e \<and> reply_index e = Some i \<longrightarrow> ?n < length (issued io') \<and>
        (\<exists>bs. answer_of io' (length (issued io') - 1) = Ok bs \<and> decode bs = Err e))"
    using rest n unfolding conversed_def by (metis Suc_lessD)
  show ?thesis
    unfolding conversed_def
    by (intro conjI keeps_trans [OF assms(1) k1] conjunct1 [OF out] conjunct2 [OF out] allI impI; elim conjE)
      (rule all again; assumption)+
qed

lemma cde_from_index [simp]: "reply_index (cde_from e) = None"
  by (simp add: cde_from_def)

lemma sends_keeps: "sends ops io r io' \<Longrightarrow> keeps io io'"
  by (simp add: sends_def)

lemma sends_length: "sends ops io r io' \<Longrightarrow> length (issued io') \<le> length (issued io) + 1"
  by (auto simp: sends_def)

lemma sends_conversed:
  assumes "sends ops io x io'" and "(\<forall>v. r \<noteq> Ok v) \<and> (\<forall>e. r = Err e \<longrightarrow> reply_index e = None) \<or> (\<exists>bs. x = Ok bs \<and> r = decode bs)"
  shows "conversed ops decode io r io'"
proof -
  consider "issued io' = issued io" "\<forall>bs. x \<noteq> Ok bs"
    | req where "issued io' = issued io @ [req]" "req_ops req = ops" "\<forall>bs. x = Ok bs \<longrightarrow> answer_of io' (length (issued io)) = Ok bs"
    using assms(1) unfolding sends_def by blast
  then show ?thesis
  proof cases
    case 1 then show ?thesis using assms(2) conversed_unsent [OF sends_keeps [OF assms(1)]] by blast
  next
    case 2 then show ?thesis using assms(2) conversed_sent [OF sends_keeps [OF assms(1)] 2(1,2)] by blast
  qed
qed

abbreviation (input) retry_limit_of :: "Io \<Rightarrow> nat" where
  "retry_limit_of io \<equiv> unat (transient_retries (ns_config (inner io)))"

abbreviation (input) retry_delay_of :: "Io \<Rightarrow> nat \<Rightarrow> duration" where
  "retry_delay_of io k \<equiv> transient_retry_delay (transient_retry_base (ns_config (inner io))) (of_nat k)"

lemma compound_decode_detailed_conversed:
  assumes "compound_decode_detailed tag ops decode retry a io = (r, a', io')"
  shows "conversed ops decode io r io' \<and> unat a \<le> unat a' \<and> unat a' \<le> max (unat a) (retry_limit_of io) \<and>
    length (issued io') \<le> length (issued io) + 1 + (unat a' - unat a) \<and>
    slept io' = slept io @ map (retry_delay_of io) [Suc (unat a)..<Suc (unat a')] \<and> (\<not> retry \<longrightarrow> a' = a)"
  using assms
proof (induction tag ops decode retry a io arbitrary: r a' io' rule: compound_decode_detailed.induct)
  case (1 tag ops decode retry a io)
  obtain x io1 where raw: "compound_raw_once tag ops io = (x, io1)" by fastforce
  note s = compound_raw_once_sends [OF raw]
  have sl: "slept io1 = slept io" using s by (simp add: sends_def)
  have stop: ?case if "a' = a" "io' = io1"
      "(\<forall>v. r \<noteq> Ok v) \<and> (\<forall>e. r = Err e \<longrightarrow> reply_index e = None) \<or> (\<exists>bs. x = Ok bs \<and> r = decode bs)"
    using that sends_conversed [OF s that(3)] sends_length [OF s] sl by simp
  show ?case
  proof (cases x)
    case (Ok bs)
    show ?thesis
    proof (cases "\<exists>e a1 io2. decode bs = Err e \<and> retry \<and> transient_compound_retry_is_safe ops e \<and>
        retry_transient_compound_error e a io1 = (True, a1, io2)")
      case False
      then have "a' = a \<and> io' = io1 \<and> r = decode bs"
        using 1(2) Ok raw
        by (subst (asm) compound_decode_detailed.simps)
          (auto split: outcome.splits if_splits prod.splits bool.splits dest!: retry_transient_cases)
      then show ?thesis using stop Ok by blast
    next
      case True
      then obtain e a1 io2 where e: "decode bs = Err e" "retry" "transient_compound_retry_is_safe ops e"
        "retry_transient_compound_error e a io1 = (True, a1, io2)" by blast
      note step = retry_transient_cases [OF e(4)]
      have rec: "compound_decode_detailed tag ops decode retry a1 io2 = (r, a', io')"
        using 1(2) Ok raw e by (subst (asm) compound_decode_detailed.simps) simp
      obtain req where req: "issued io1 = issued io @ [req]" "req_ops req = ops"
        "answer_of io1 (length (issued io)) = Ok bs"
        using s Ok by (auto simp: sends_def)
      have iss: "issued io2 = issued io @ [req]" "keeps io io2" "transport io2 = transport io1"
        using step req keeps_trans [OF sends_keeps [OF s], of io2] by (simp_all add: keeps_def)
      have ans: "answer_of io2 (length (issued io)) = Ok bs"
        using req(3) iss req(1) by (simp add: answer_of_def)
      have cfg: "ns_config (inner io2) = ns_config (inner io)" using keeps_config [OF iss(2)] .
      have cfg1: "ns_config (inner io1) = ns_config (inner io)" using keeps_config [OF sends_keeps [OF s]] .
      have a1: "unat a1 = Suc (unat a)" "unat a < retry_limit_of io"
        using step cfg1 by (auto simp: word_less_nat_alt)
      have IH: "conversed ops decode io2 r io' \<and> unat a1 \<le> unat a' \<and> unat a' \<le> max (unat a1) (retry_limit_of io2) \<and>
          length (issued io') \<le> length (issued io2) + 1 + (unat a' - unat a1) \<and>
          slept io' = slept io2 @ map (retry_delay_of io2) [Suc (unat a1)..<Suc (unat a')] \<and> (\<not> retry \<longrightarrow> a' = a1)"
        using 1(1) [OF raw [symmetric] Ok e(1) conjI [OF e(2,3)] e(4) [symmetric] refl refl rec] .
      have "slept io2 = slept io @ [retry_delay_of io (unat a1)]" using step sl cfg1 by simp
      moreover have upt: "[Suc (unat a)..<Suc (unat a')] = unat a1 # [Suc (unat a1)..<Suc (unat a')]"
        using a1 IH by (simp add: upt_conv_Cons del: upt_Suc)
      ultimately have "slept io' = slept io @ map (retry_delay_of io) [Suc (unat a)..<Suc (unat a')]"
        using IH cfg upt by (simp del: upt_Suc)
      moreover have "conversed ops decode io r io'"
        using conversed_again [where decode = decode, OF iss(2,1) req(2) ans e(1) _ e(3)] step IH by simp
      ultimately show ?thesis using IH a1 cfg iss e(2) by auto
    qed
  next
    case (Err e)
    then have "r = Err (cde_from e) \<and> a' = a \<and> io' = io1"
      using 1(2) raw by (subst (asm) compound_decode_detailed.simps) simp
    then show ?thesis using stop by simp
  next
    case Panic
    then have "r = Panic \<and> a' = a \<and> io' = io1"
      using 1(2) raw by (subst (asm) compound_decode_detailed.simps) simp
    then show ?thesis using stop by simp
  qed
qed

subsection \<open>Acknowledged operations\<close>

text \<open>The last request had the operations \<open>ops\<close>, and the server answered each of them, in order, with OK.\<close>

definition acknowledged :: "Io \<Rightarrow> NfsOp list \<Rightarrow> bool" where
  "acknowledged io ops \<longleftrightarrow> issued io \<noteq> [] \<and> req_ops (last (issued io)) = ops \<and>
     (\<exists>bs. answer_of io (length (issued io) - 1) = Ok bs \<and> answered bs (OpCode.Sequence # map opcode ops))"

lemma conversed_Ok:
  assumes "conversed ops decode io (Ok v) io'"
  obtains bs where "issued io' \<noteq> []" and "req_ops (last (issued io')) = ops"
    and "answer_of io' (length (issued io') - 1) = Ok bs" and "decode bs = Ok v"
proof -
  from assms obtain bs where bs: "length (issued io) < length (issued io')"
    "answer_of io' (length (issued io') - 1) = Ok bs" "decode bs = Ok v"
    unfolding conversed_def by blast
  then have ne: "issued io' \<noteq> []" by auto
  have "req_ops (issued io' ! (length (issued io') - 1)) = ops"
    using assms bs(1) unfolding conversed_def by (metis Suc_pred' diff_less less_Suc_eq_le less_nat_zero_code neq0_conv zero_less_one)
  then show thesis using that [OF ne _ bs(2,3)] ne by (simp add: last_conv_nth)
qed

lemma conversed_acknowledged:
  assumes "conversed ops decode io (Ok v) io'" and "\<And>bs. decodes (decode bs) bs (OpCode.Sequence # map opcode ops) F" and "F v"
  shows "acknowledged io' ops"
proof -
  obtain bs where "issued io' \<noteq> []" "req_ops (last (issued io')) = ops"
    "answer_of io' (length (issued io') - 1) = Ok bs" "decode bs = Ok v"
    using conversed_Ok [OF assms(1)] .
  moreover have "answered bs (OpCode.Sequence # map opcode ops)"
    using assms(2) [of bs] assms(3) \<open>decode bs = Ok v\<close> by (simp add: decodes_def)
  ultimately show ?thesis unfolding acknowledged_def by blast
qed

lemma compound_decode_conversed:
  assumes "compound_decode tag ops decode io = (r, io')"
  obtains x where "conversed ops decode io x io'" and "r = map_err err_error x"
    and "length (issued io') \<le> length (issued io) + 1 + retry_limit_of io"
proof -
  obtain x a where run: "compound_decode_detailed tag ops decode True 0 io = (x, a, io')" "r = map_err err_error x"
    using assms by (auto simp: compound_decode_def split: prod.splits)
  show thesis
    using that [OF _ run(2)] compound_decode_detailed_conversed [OF run(1)] by auto
qed

lemma compound_decode_no_retry_conversed:
  assumes "compound_decode_no_transient_retry tag ops decode io = (r, io')"
  obtains x where "conversed ops decode io x io'" and "r = map_err err_error x"
    and "length (issued io') \<le> length (issued io) + 1" and "slept io' = slept io"
proof -
  obtain x a where run: "compound_decode_detailed tag ops decode False 0 io = (x, a, io')" "r = map_err err_error x"
    using assms by (auto simp: compound_decode_no_transient_retry_def split: prod.splits)
  show thesis
    using that [OF _ run(2)] compound_decode_detailed_conversed [OF run(1)] by auto
qed

lemma compound_decode_keeps: "compound_decode tag ops decode io = (r, io') \<Longrightarrow> keeps io io'"
  by (erule compound_decode_conversed) (simp add: conversed_def)

lemma compound_decode_acknowledged:
  assumes "compound_decode tag ops decode io = (Ok v, io')"
    and "\<And>bs. decodes (decode bs) bs (OpCode.Sequence # map opcode ops) F" and "F v"
  shows "acknowledged io' ops"
proof -
  obtain x where "conversed ops decode io x io'" "Ok v = map_err err_error x"
    using compound_decode_conversed [OF assms(1)] by metis
  then show ?thesis using conversed_acknowledged [OF _ assms(2,3)] by (cases x) auto
qed

lemma inner_on_shared [simp]:
  "ns_rpc (inner (on_shared f io)) = ns_rpc (inner io)" "export_root (inner (on_shared f io)) = export_root (inner io)"
  "ns_clientid (inner (on_shared f io)) = ns_clientid (inner io)" "ns_config (inner (on_shared f io)) = ns_config (inner io)"
  by (simp_all add: on_shared_def)

lemma opcode_path_ops [simp]: "map opcode (path_ops s components) = OpCode.PutFh # replicate (length components) OpCode.Lookup"
  by (simp add: path_ops_def export_path_ops_def extend_export_path_ops_def map_replicate_const comp_def)

lemma opcode_root_path_ops [simp]:
  "map opcode (root_path_ops components) = OpCode.PutRootFh # replicate (length components) OpCode.Lookup"
  by (simp add: root_path_ops_def map_replicate_const comp_def)

lemma opcode_extend_export_path_ops [simp]:
  "map opcode (extend_export_path_ops ops root components) =
     map opcode ops @ OpCode.PutFh # replicate (length components) OpCode.Lookup"
  by (simp add: extend_export_path_ops_def map_replicate_const comp_def)

lemma opcode_readdir_op [simp]: "opcode (readdir_op config cookie verifier hint) = OpCode.ReadDir"
  by (simp add: readdir_op_def split: prod.splits)

lemma opcode_write_and_commit_ops [simp]:
  "map opcode (write_and_commit_ops opened offset data) = [OpCode.PutFh, OpCode.Write, OpCode.Commit]"
  by (simp add: write_and_commit_ops_def Let_def)

lemma opcode_fused_put_ops:
  "map opcode (fused_put_ops s owner parent temp dest data create_new) =
    OpCode.PutFh # replicate (length parent) OpCode.Lookup @ (if \<not> create_new then [OpCode.SaveFh] else []) @
    [OpCode.Open, OpCode.GetFh, OpCode.Write, OpCode.Commit, OpCode.Verify] @
    (if create_new then [OpCode.SaveFh, OpCode.PutFh] @ replicate (length parent) OpCode.Lookup @ [OpCode.Link, OpCode.Remove]
     else [OpCode.RestoreFh, OpCode.Rename])"
  by (simp add: fused_put_ops_def Let_def)

lemma opcode_close_publish_ops:
  "OpCode.Sequence # map opcode (close_publish_ops s opened parent a b len v create_new) =
    close_replies (close_publish_shape parent create_new) v"
  by (simp add: close_publish_ops_def close_publish_shape_def Let_def)

text \<open>The reply list of each decoder, as the operations of its request.\<close>

lemmas decodes_ops =
  decodes_read [simplified] decodes_read_path [simplified] decodes_read_path_handle [simplified]
  decodes_read_path_size [simplified] decodes_getfh [simplified] decodes_getfh_attrs [simplified]
  decodes_getfh [where n = 1, simplified]
  decodes_no_result [simplified] decodes_open_file [simplified] decodes_rename_publish [simplified]
  decodes_link_remove_publish [simplified] decodes_write [simplified] decodes_write_commit [simplified]
  decodes_readdir [simplified] decodes_readdir_path [simplified] decodes_readdir_path_without_handle [simplified]
  decodes_create_dir_handle [simplified] decodes_create_dir_handle [where n = 0, simplified]
  decodes_remove [simplified] decodes_remove [where n = 0, simplified]
  decodes_create_dir [simplified] decodes_create_dir [where n = 0, simplified]

lemmas acknowledged_all = compound_decode_acknowledged [where F = "\<lambda>_. True"]

lemmas run_session = and_then_Ok session_of_def

lemma open_file_acknowledged:
  assumes "open_file parent name io = (Ok (Opened f), io')"
  shows "\<exists>owner. acknowledged io' (path_ops (inner io) parent @
     [NfsOp.Open 0 (ns_clientid (inner io)) (as_bytes owner) name (file_mode (ns_config (inner io))), NfsOp.GetFh])"
proof -
  obtain owner shared' y where run: "compound_decode ''open'' (path_ops (inner io) parent @
     [NfsOp.Open 0 (ns_clientid (inner io)) (as_bytes owner) name (file_mode (ns_config (inner io))), NfsOp.GetFh])
     (\<lambda>bs. decode_open_file_compound bs (length parent)) (on_shared shared' io) = (Ok y, io')" "y \<noteq> AlreadyExists"
    using assms
    by (clarsimp simp: open_file_def run_session next_owner_def path_ops_def split: prod.splits)
      (fastforce split: OpenOutcome.splits)
  have "acknowledged io' (path_ops (inner io) parent @
     [NfsOp.Open 0 (ns_clientid (inner io)) (as_bytes owner) name (file_mode (ns_config (inner io))), NfsOp.GetFh])"
    by (rule compound_decode_acknowledged [where F = "\<lambda>y. y \<noteq> AlreadyExists", OF run(1) _ run(2)]) (simp add: decodes_ops)
  then show ?thesis by blast
qed

lemma close_file_acknowledged:
  assumes "close_file opened io = (Ok f, io')"
  shows "acknowledged io' (close_ops opened)"
proof -
  have "compound_decode ''close'' (close_ops opened) (\<lambda>bs. decode_close_compound bs FileClose None) io = (Ok (), io')"
    using assms by (auto simp: close_file_def and_then_Ok)
  then show ?thesis
    by (rule compound_decode_acknowledged) (use decodes_close [of _ FileClose None] in \<open>simp_all add: close_ops_def\<close>)
qed

lemma read_acknowledged:
  "read_anonymous h offset count io = (Ok d, io') \<Longrightarrow>
     acknowledged io' [NfsOp.PutFh h, NfsOp.Read stateid_anonymous offset count]"
  "read_path_anonymous components offset count io = (Ok d, io') \<Longrightarrow>
     acknowledged io' (path_ops (inner io) components @ [NfsOp.Read stateid_anonymous offset count])"
  "read_path_anonymous_with_handle components offset count io = (Ok hr, io') \<Longrightarrow>
     acknowledged io' (path_ops (inner io) components @ [NfsOp.GetFh, NfsOp.Read stateid_anonymous offset count])"
  "read_path_anonymous_with_size components count io = (Ok hsr, io') \<Longrightarrow>
     acknowledged io' (path_ops (inner io) components @
       [NfsOp.GetFh, NfsOp.GetAttr bitmap_size_attr, NfsOp.Read stateid_anonymous 0 count])"
  unfolding read_anonymous_def read_path_anonymous_def read_path_anonymous_with_handle_def
    read_path_anonymous_with_size_def
  by (auto simp: run_session decodes_ops elim!: acknowledged_all)

lemma lookup_acknowledged:
  "lookup_file_handle components io = (Ok h, io') \<Longrightarrow> acknowledged io' (path_ops (inner io) components @ [NfsOp.GetFh])"
  "lookup_file_handle_attrs components req io = (Ok ha, io') \<Longrightarrow>
     acknowledged io' (path_ops (inner io) components @ [NfsOp.GetFh, NfsOp.GetAttr (attr_request_bitmap req)])"
  "resolve_export_root components io = (Ok h, io') \<Longrightarrow> acknowledged io' (root_path_ops components @ [NfsOp.GetFh])"
  "lookup_child_handle parent_fh name io = (Ok h, io') \<Longrightarrow>
     acknowledged io' [NfsOp.PutFh parent_fh, NfsOp.Lookup name, NfsOp.GetFh]"
  unfolding lookup_file_handle_def lookup_file_handle_attrs_def resolve_export_root_def lookup_child_handle_def compound_getfh_def
  by (auto simp: run_session decodes_ops elim!: acknowledged_all)

lemma write_acknowledged:
  "session_write opened offset data io = (Ok w, io') \<Longrightarrow>
     acknowledged io' [NfsOp.PutFh (fh opened), NfsOp.Write (opened_stateid opened) offset data]"
  "write_and_commit opened offset data io = (Ok wv, io') \<Longrightarrow> acknowledged io' (write_and_commit_ops opened offset data)"
  unfolding session_write_def write_and_commit_def
  by (auto elim!: acknowledged_all simp: decodes_ops)

lemma readdir_acknowledged:
  "read_dir_page dir cookie verifier hint io = (Ok p, io') \<Longrightarrow>
     acknowledged io' [NfsOp.PutFh dir, readdir_op (ns_config (inner io)) cookie verifier hint]"
  "read_dir_path_page components cookie verifier hint io = (Ok hp, io') \<Longrightarrow>
     acknowledged io' (path_ops (inner io) components @ [NfsOp.GetFh, readdir_op (ns_config (inner io)) cookie verifier hint])"
  "read_dir_path_page_without_handle components cookie verifier hint io = (Ok p, io') \<Longrightarrow>
     acknowledged io' (path_ops (inner io) components @ [readdir_op (ns_config (inner io)) cookie verifier hint])"
  unfolding read_dir_page_def read_dir_path_page_def read_dir_path_page_without_handle_def
  by (auto simp: run_session decodes_ops elim!: acknowledged_all)

lemma remove_acknowledged:
  "session_remove parent name io = (Ok Removed, io') \<Longrightarrow>
     acknowledged io' (path_ops (inner io) parent @ [NfsOp.Remove name])"
  "remove_at dir name io = (Ok Removed, io') \<Longrightarrow> acknowledged io' [NfsOp.PutFh dir, NfsOp.Remove name]"
  unfolding session_remove_def remove_at_def
  by (auto simp: run_session decodes_ops elim!: compound_decode_acknowledged [where F = "\<lambda>y. y = Removed"])

lemma reclaim_acknowledged:
  "session_reclaim_complete io = (Ok (), io') \<Longrightarrow> acknowledged io' [NfsOp.ReclaimComplete False]"
  unfolding session_reclaim_complete_def by (auto simp: decodes_ops elim!: acknowledged_all)

subsection \<open>Publishing\<close>

lemma conversed_Err:
  assumes "conversed ops decode io (Err e) io'" and "\<And>bs. decodes (decode bs) bs (OpCode.Sequence # map opcode ops) F"
    and "reply_index e = Some i" and "err_status e = Some st"
  obtains k bs where "k < length (issued io')" and "req_ops (issued io' ! k) = ops" and "answer_of io' k = Ok bs"
    and "stopped_at bs (OpCode.Sequence # map opcode ops) i st"
proof -
  from assms(1,3) obtain bs where bs: "length (issued io) < length (issued io')"
    "answer_of io' (length (issued io') - 1) = Ok bs" "decode bs = Err e"
    unfolding conversed_def by blast
  have "stopped_at bs (OpCode.Sequence # map opcode ops) i st"
    using assms(2) [of bs] bs(3) assms(3,4) by (simp add: decodes_def)
  moreover have "req_ops (issued io' ! (length (issued io') - 1)) = ops"
    using assms(1) bs(1) unfolding conversed_def by (metis Suc_pred' diff_less less_Suc_eq_le less_nat_zero_code neq0_conv zero_less_one)
  ultimately show thesis using that [of "length (issued io') - 1" bs] bs by simp
qed

lemma keeps_nth: "keeps io io' \<Longrightarrow> k < length (issued io) \<Longrightarrow> k < length (issued io') \<and> issued io' ! k = issued io ! k"
  by (auto simp: keeps_def prefix_def nth_append)

lemma keeps_inner: "keeps io io' \<Longrightarrow> export_root (inner io') = export_root (inner io)"
  by (auto simp: keeps_def)

lemma keeps_publish_ops:
  "keeps io io' \<Longrightarrow> publish_after_close_ops (inner io') = publish_after_close_ops (inner io)"
  by (intro ext) (auto simp: publish_after_close_ops_def keeps_inner)

lemma publish_after_close_acknowledged:
  assumes "publish_after_close h parent from_name to_name create_new a io = (Ok (), io')"
  shows "acknowledged io' (publish_after_close_ops (inner io) h parent from_name to_name create_new)" and "keeps io io'"
proof -
  let ?ops = "publish_after_close_ops (inner io) h parent from_name to_name create_new"
  let ?decode = "\<lambda>bs. if create_new then decode_link_remove_publish_compound bs (length parent)
    else decode_rename_publish_compound bs (length parent)"
  obtain tag x b where run: "compound_decode_detailed tag ?ops ?decode True a io = (x, b, io')" "map_err err_error x = Ok ()"
    using assms by (auto simp: publish_after_close_def Let_def split: prod.splits)
  then have conv: "conversed ?ops ?decode io (Ok ()) io'"
    using compound_decode_detailed_conversed [OF run(1)] by simp
  show "acknowledged io' ?ops"
    by (rule conversed_acknowledged [where F = "\<lambda>_. True", OF conv])
      (simp_all add: publish_after_close_ops_def decodes_ops)
  show "keeps io io'" using conv by (simp add: conversed_def)
qed

lemma completed_index: "completed_operation e ops op \<Longrightarrow> \<exists>i. reply_index e = Some i \<and> op \<in> opcode ` set (take (i - 1) ops)"
  by (cases "reply_index e") (auto simp: completed_operation_def completed_user_ops_def saturating_sub_def list_ex_iff)

lemma transient_statusD: "transient_status e = Some st \<Longrightarrow> err_status e = Some st \<and> st \<in> {status_DELAY, status_GRACE}"
  by (auto simp: transient_status_def split: option.splits if_splits)

text \<open>
  C2. A file is published by \<open>close_publish\<close> only in one of two ways. Either the server answered
  the whole compound, COMMIT of unstable data, size VERIFY, CLOSE and RENAME or LINK and REMOVE,
  with OK; or it answered everything up to and including the CLOSE with OK, failed a later
  operation with DELAY or GRACE, and then answered a publish compound for the same file and names
  with OK.
\<close>

theorem close_publish_acknowledged:
  assumes "session_close_publish opened parent from_name to_name len v create_new io = (Ok f, io')"
  shows "f = opened\<lparr> close_seqid := close_seqid opened + 1 \<rparr> \<and>
    (acknowledged io' (close_publish_ops (inner io) opened parent from_name to_name len v create_new) \<or>
     acknowledged io' (publish_after_close_ops (inner io) (fh opened) parent from_name to_name create_new) \<and>
     (\<exists>k bs i st. k < length (issued io') \<and>
        req_ops (issued io' ! k) = close_publish_ops (inner io) opened parent from_name to_name len v create_new \<and>
        answer_of io' k = Ok bs \<and>
        stopped_at bs (close_replies (close_publish_shape parent create_new) v) i st \<and>
        st \<in> {status_DELAY, status_GRACE} \<and>
        OpCode.Close \<in> opcode ` set (take (i - 1) (req_ops (issued io' ! k)))))"
proof -
  let ?ops = "close_publish_ops (inner io) opened parent from_name to_name len v create_new"
  let ?decode = "\<lambda>bs. decode_close_compound bs (close_publish_shape parent create_new) v"
  have dec: "decodes (?decode bs) bs (OpCode.Sequence # map opcode ?ops) (\<lambda>_. True)" for bs
    unfolding opcode_close_publish_ops by (rule decodes_close)
  define tag where "tag = (if create_new then ''close-link-remove'' else ''close-rename'')"
  obtain x a io1 where run: "compound_decode_detailed tag ?ops ?decode True 0 io = (x, a, io1)" by (metis prod_cases3)
  then have conv: "conversed ?ops ?decode io x io1" using compound_decode_detailed_conversed by blast
  show ?thesis
  proof (cases x)
    case (Ok u)
    then have "f = opened\<lparr> close_seqid := close_seqid opened + 1 \<rparr>" "io1 = io'"
      using assms run by (simp_all add: session_close_publish_def tag_def)
    then show ?thesis using conversed_acknowledged [where F = "\<lambda>_. True", OF conv [unfolded Ok] dec] by simp
  next
    case (Err e)
    obtain a2 io2 where e: "completed_operation e ?ops OpCode.Close" "transient_status e \<noteq> None"
      "retry_transient_compound_error e a io1 = (True, a2, io2)"
      and f: "f = opened\<lparr> close_seqid := close_seqid opened + 1 \<rparr>"
      and pub: "publish_after_close (fh opened) parent from_name to_name create_new a2 io2 = (Ok (), io')"
      using assms run Err
      by (auto simp: session_close_publish_def tag_def Let_def and_then_Ok split: if_splits prod.splits bool.splits)
    obtain st where st: "transient_status e = Some st" using e(2) by blast
    obtain i where i: "reply_index e = Some i" "OpCode.Close \<in> opcode ` set (take (i - 1) ?ops)"
      using completed_index [OF e(1)] by blast
    obtain k bs where k: "k < length (issued io1)" "req_ops (issued io1 ! k) = ?ops" "answer_of io1 k = Ok bs"
      "stopped_at bs (OpCode.Sequence # map opcode ?ops) i st"
      using conversed_Err [OF conv [unfolded Err] dec i(1)] transient_statusD [OF st] by blast
    have k12: "keeps io1 io2" using retry_transient_cases [OF e(3)] by simp
    then have keep: "keeps io1 io'" using keeps_trans publish_after_close_acknowledged(2) [OF pub] by blast
    have io: "keeps io io2" using conv k12 keeps_trans unfolding conversed_def by blast
    have "acknowledged io' (publish_after_close_ops (inner io) (fh opened) parent from_name to_name create_new)"
      using publish_after_close_acknowledged(1) [OF pub] unfolding keeps_publish_ops [OF io] .
    moreover have "k < length (issued io') \<and> issued io' ! k = issued io1 ! k \<and> answer_of io' k = Ok bs"
      using keeps_nth [OF keep k(1)] keeps_response [OF keep k(1)] k(3) by simp
    ultimately show ?thesis
      using f k(2,4) i(2) transient_statusD [OF st] unfolding opcode_close_publish_ops by metis
  next
    case Panic
    then show ?thesis using assms run by (simp add: session_close_publish_def tag_def)
  qed
qed

subsection \<open>A session on a scripted server\<close>

text \<open>One slot, and a server that answers every request with the bytes \<open>bs\<close>.\<close>

definition demo :: "bytes \<Rightarrow> Io" where
  "demo bs = \<lparr> inner = \<lparr> ns_rpc = \<lparr> auth_body = [], auth_padding_len = 0, call_header_template = replicate 32 0 \<rparr>,
       ns_max_response_bytes = 0, export_root = [], ns_clientid = 0, ns_sessionid = replicate 16 0, client_verifier = 0,
       ns_config = nfs_config_new [],
       shared = \<lparr> sh_slots = slot_table_new 1, sh_owner = \<lparr> owner_verifier = 0, ownerid = [], owner_counter = 1 \<rparr>,
         fused_put_supported = True, sh_reclaim_complete = True, fatal_sequence_flags = 0 \<rparr> \<rparr>,
     transport = (\<lambda>_. Ok bs), acquired = (\<lambda>_ tb. (Ok (new_guard 0, 0), tb)), others = (\<lambda>_ s. s),
     fresh_verifier = (\<lambda>_. 0), awaits = 0, issued = [], slept = [] \<rparr>"

abbreviation (input) demo_sequence :: SequenceArgs where
  "demo_sequence \<equiv> \<lparr> sessionid = replicate 16 0, sequenceid = 1, slotid = 0, highest_slotid = 0, cachethis = False \<rparr>"

abbreviation (input) demo_reply :: "op_reply list \<Rightarrow> bytes" where
  "demo_reply rs \<equiv> compound_reply status_OK []
     ((op_u32 OpCode.Sequence, status_OK, sequence_body (replicate 16 0) 1 0 0 0 0) # rs)"

text \<open>Requests small enough for the limits of the demonstration session.\<close>

definition sendable :: "string \<Rightarrow> NfsOp list \<Rightarrow> bool" where
  "sendable tag ops \<longleftrightarrow> (\<exists>bs. encode_compound_inner tag (Some demo_sequence) ops = Some bs \<and> length bs \<le> 10000) \<and>
     length ops \<le> 100 \<and> (\<forall>op \<in> set ops. op_wf op)"

lemmas sendable_eqs = sendable_def encode_compound_inner_def encode_sequence_op_def put_string_eq put_opaque_eq
  u32_max_def fh_encode_def stateid_encode_def setattrs_encode_def setattrs_bitmap_words_def xdr_padding_mod

lemma sendable_encode: "sendable tag ops \<Longrightarrow> encode_compound_with_sequence tag demo_sequence ops \<noteq> None"
  using scatter_gather_segments by (fastforce simp: sendable_def)

lemma sendable_validate:
  assumes "sendable tag ops"
  shows "validate_compound_request tag ops (inner (demo x)) = Ok ()"
proof -
  obtain bs where bs: "encode_compound_inner tag (Some demo_sequence) ops = Some bs" "length bs \<le> 10000"
    using assms by (auto simp: sendable_def)
  let ?n = "compound_with_sequence_encoded_len tag ops"
  have "length bs = xdr_string_len tag + 44 + sum_list (map op_encoded_len ops)"
    using compound_inner_length [OF bs(1)] assms by (simp add: sendable_def)
  then have "?n \<le> 10000" using bs(2) by (simp add: compound_with_sequence_encoded_len_eq)
  moreover have "xdr_padding ?n \<le> 3" by (simp add: xdr_padding_mod)
  ultimately have "40 + ?n + xdr_padding ?n \<le> 16777216" by linarith
  then have "encoded_call_len (ns_rpc (inner (demo x))) ?n \<le> 16777216"
    by (simp add: encoded_call_len_eq demo_def min_le_iff_disj)
  moreover have "saturating_add (length ops) 1 \<le> 101" using assms by (auto simp: sendable_def saturating_add_def)
  ultimately show ?thesis
    by (simp add: validate_compound_request_def validate_compound_request_limits_def Let_def demo_def nfs_config_new_def)
qed

lemma demo_raw_once:
  assumes "sendable tag ops" and "length rs < u32_max"
  shows "\<exists>io'. compound_raw_once tag ops (demo (demo_reply rs)) = (Ok (demo_reply rs), io')"
proof -
  obtain p where "encode_compound_with_sequence tag demo_sequence ops = Some p" using sendable_encode [OF assms(1)] by blast
  moreover have "decode_sequence_result (demo_reply rs) (replicate 16 0) 1 0 =
      Ok \<lparr> seq_highest_slotid = 0, seq_target_highest_slotid = 0, seq_status_flags = 0 \<rparr>"
    using decode_sequence_result_wire [of "[]" rs "replicate 16 0"] assms(2) by simp
  ultimately show ?thesis
    using sendable_validate [OF assms(1), of "demo_reply rs"]
    by (simp add: compound_raw_once_def demo_def ensure_sequence_status_usable_def validate_sequence_status_flags_def
        acquire_for_request_def suspended_def on_shared_def on_slots_def send_on_slot_def Let_def slot_table_new_def new_guard_def
        issue_def receive_on_slot_def)
qed

lemma demo_detailed:
  assumes "sendable tag ops" and "length rs < u32_max" and "decode (demo_reply rs) = Ok v"
  shows "\<exists>io'. compound_decode_detailed tag ops decode retry 0 (demo (demo_reply rs)) = (Ok v, 0, io')"
proof -
  obtain io' where "compound_raw_once tag ops (demo (demo_reply rs)) = (Ok (demo_reply rs), io')"
    using demo_raw_once [OF assms(1,2)] by blast
  then show ?thesis using assms(3) by (subst compound_decode_detailed.simps) simp
qed

definition demo_file :: OpenedFile where
  "demo_file = \<lparr> fh = [1], opened_stateid = \<lparr> seqid = 1, other = replicate 12 5 \<rparr>, close_seqid = 1 \<rparr>"

abbreviation (input) change_info :: bytes where "change_info \<equiv> be_bytes 4 (0 :: u32) @ replicate 16 0"

abbreviation (input) close_publish_script :: "op_reply list" where
  "close_publish_script \<equiv> [(op_u32 OpCode.PutFh, status_OK, []), (op_u32 OpCode.Verify, status_OK, []),
      (op_u32 OpCode.Close, status_OK, replicate 16 0), (op_u32 OpCode.PutFh, status_OK, []),
      (op_u32 OpCode.SaveFh, status_OK, []), (op_u32 OpCode.Rename, status_OK, change_info @ change_info)]"

lemma demo_close_publish:
  "\<exists>f io'. session_close_publish demo_file [] ''t'' ''f'' 3 None False (demo (demo_reply close_publish_script)) = (Ok f, io')"
proof -
  let ?ops = "close_publish_ops (inner (demo (demo_reply close_publish_script))) demo_file [] ''t'' ''f'' 3 None False"
  have "?ops = [NfsOp.PutFh [1], NfsOp.Verify 3, NfsOp.Close 1 \<lparr> seqid = 1, other = replicate 12 5 \<rparr>,
      NfsOp.PutFh [], NfsOp.SaveFh, NfsOp.Rename ''t'' ''f'']"
    by (simp add: close_publish_ops_def demo_file_def demo_def extend_export_path_ops_def Let_def)
  then have send: "sendable ''close-rename'' ?ops" by (simp add: sendable_eqs)
  have p: "k < c \<Longrightarrow> rename_publish (walk_state (reply_wire (op_u32 OpCode.Rename, status_OK, change_info @ change_info)) st c e k) =
      (Ok True, walk_state [] st c e (Suc k))" for st c e k
    using rename_publish_wire [of _ k c "replicate 16 0" "replicate 16 0" False False "[]"] by simp
  have skip: "skip_stateid (replicate 16 0 @ d) = (Ok (), d)" for d by (simp add: skip_stateid_def dec_eqs)
  have dec: "decode_close_compound (demo_reply close_publish_script) (close_publish_shape [] False) None = Ok ()"
    by (simp add: p decode_close_compound_def close_publish_shape_def shape_reply_count_def with_replies_wire u32_max_def and_then_def
        close_commit_def close_publish_def walk_sequence_wire advance_wire lookups_wire [where n = 0, simplified]
        on_dec_wire [where m = skip_stateid, OF skip] walk_finish_def sequence_body_def del: op_u32.simps append_assoc)
  obtain io' where "compound_decode_detailed ''close-rename'' ?ops (\<lambda>bs. decode_close_compound bs (close_publish_shape [] False) None)
      True 0 (demo (demo_reply close_publish_script)) = (Ok (), 0, io')"
    using demo_detailed [where decode = "\<lambda>bs. decode_close_compound bs (close_publish_shape [] False) None", OF send _ dec]
    by (auto simp: u32_max_def)
  then show ?thesis by (simp add: session_close_publish_def)
qed

theorem close_publish_acknowledged_witness:
  "\<exists>f io'. session_close_publish demo_file [] ''t'' ''f'' 3 None False (demo (demo_reply close_publish_script)) = (Ok f, io') \<and>
     close_seqid f = 2 \<and> issued io' \<noteq> []"
proof -
  obtain f io' where run: "session_close_publish demo_file [] ''t'' ''f'' 3 None False (demo (demo_reply close_publish_script)) = (Ok f, io')"
    using demo_close_publish by blast
  have "close_seqid f = 2 \<and> issued io' \<noteq> []"
    using close_publish_acknowledged [OF run] by (auto simp: demo_file_def acknowledged_def)
  then show ?thesis using run by blast
qed

subsection \<open>Safe and bounded retries\<close>

lemma not_replayable_opcode: "not_replayable op \<longleftrightarrow> opcode op \<in> {OpCode.Open, OpCode.Close, OpCode.Link, OpCode.Rename}"
  by (cases op) (simp_all add: not_replayable_def)

text \<open>
  C5. A compound is sent again only when that is safe. Every resend follows an answer in which the
  server stopped at some operation with DELAY or GRACE, after answering the operations before it
  with OK, none of which is an OPEN, CLOSE, LINK or RENAME; and the number of resends is at most
  the configured number of transient retries.
\<close>

theorem transient_retry_safe:
  assumes "compound_decode tag ops decode io = (r, io')"
    and "\<And>bs. decodes (decode bs) bs (OpCode.Sequence # map opcode ops) F"
  shows "length (issued io') \<le> length (issued io) + 1 + unat (transient_retries (ns_config (inner io))) \<and>
    (\<forall>k. length (issued io) \<le> k \<and> Suc k < length (issued io') \<longrightarrow>
      (\<exists>bs i st. answer_of io' k = Ok bs \<and> stopped_at bs (OpCode.Sequence # map opcode ops) i st \<and>
         st \<in> {status_DELAY, status_GRACE} \<and>
         opcode ` set (take (i - 1) ops) \<inter> {OpCode.Open, OpCode.Close, OpCode.Link, OpCode.Rename} = {}))"
proof (intro conjI allI impI)
  obtain x where conv: "conversed ops decode io x io'"
    and bound: "length (issued io') \<le> length (issued io) + 1 + retry_limit_of io"
    using compound_decode_conversed [OF assms(1)] by blast
  show "length (issued io') \<le> length (issued io) + 1 + unat (transient_retries (ns_config (inner io)))" by (rule bound)
  fix k assume "length (issued io) \<le> k \<and> Suc k < length (issued io')"
  then obtain bs e where e: "answer_of io' k = Ok bs" "decode bs = Err e" "transient_status e \<noteq> None"
    "transient_compound_retry_is_safe ops e"
    using conv unfolding conversed_def by blast
  then obtain st i where st: "transient_status e = Some st" and i: "reply_index e = Some i"
    by (auto simp: transient_compound_retry_is_safe_def split: option.splits)
  have "stopped_at bs (OpCode.Sequence # map opcode ops) i st"
    using assms(2) [of bs] e(2) i transient_statusD [OF st] by (simp add: decodes_def)
  moreover have "opcode ` set (take (i - 1) ops) \<inter> {OpCode.Open, OpCode.Close, OpCode.Link, OpCode.Rename} = {}"
    using e(4) i by (auto simp: transient_compound_retry_is_safe_def saturating_sub_def list_ex_iff not_replayable_opcode)
  ultimately show "\<exists>bs i st. answer_of io' k = Ok bs \<and> stopped_at bs (OpCode.Sequence # map opcode ops) i st \<and>
      st \<in> {status_DELAY, status_GRACE} \<and>
      opcode ` set (take (i - 1) ops) \<inter> {OpCode.Open, OpCode.Close, OpCode.Link, OpCode.Rename} = {}"
    using e(1) transient_statusD [OF st] by blast
qed

theorem transient_retry_safe_witness:
  "length (issued (snd (compound_decode ''close'' (close_ops demo_file) (\<lambda>bs. decode_close_compound bs FileClose None) (demo [])))) \<le> 6"
proof -
  have "decodes (decode_close_compound bs FileClose None) bs (OpCode.Sequence # map opcode (close_ops demo_file)) (\<lambda>_. True)" for bs
    using decodes_close [of bs FileClose None] by (simp add: close_ops_def)
  moreover have "issued (demo []) = []" "transient_retries (ns_config (inner (demo []))) = 5"
    by (simp_all add: demo_def nfs_config_new_def)
  ultimately show ?thesis
    using transient_retry_safe [of "''close''" "close_ops demo_file" _ "demo []", OF surjective_pairing] by fastforce
qed

subsection \<open>Slot discipline\<close>

lemma release_steps:
  assumes "phase w t = Holding g"
  shows "\<exists>w'. slot_step\<^sup>*\<^sup>* w w' \<and> tbl w' = release_slot g (tbl w) \<and> phase w' t = Idle"
proof -
  obtain g' tb where d: "drop_guard g (tbl w) = (g', tb)" by fastforce
  let ?w1 = "enter t (Unlocked (guard_index g') (retire_permit g') False) (w\<lparr> tbl := tb \<rparr>)"
  let ?w2 = "enter t (Released (retire_permit g') False)
    (?w1\<lparr> tbl := (tbl ?w1)\<lparr> active := (active (tbl ?w1))[guard_index g' := False] \<rparr>, woken := (\<lambda>_. True) \<rparr>)"
  let ?w3 = "enter t Idle (?w2\<lparr> tbl := (tbl ?w2)\<lparr> available := available (tbl ?w2) + (if retire_permit g' then 0 else 1) \<rparr> \<rparr>)"
  have 1: "slot_step w ?w1" using d assms by (intro slot_step.dropped) auto
  have 2: "slot_step ?w1 ?w2" by (rule slot_step.notify) (simp add: enter_def)
  have 3: "slot_step ?w2 ?w3" using slot_step.finish [of ?w2 t "retire_permit g'" False] by (simp add: enter_def)
  have "slot_step\<^sup>*\<^sup>* w ?w3" using 1 2 3 by (meson converse_rtranclp_into_rtranclp rtranclp.rtrancl_refl)
  moreover have "tbl ?w3 = release_slot g (tbl w)" using d by (simp add: enter_def release_slot_def)
  moreover have "phase ?w3 t = Idle" by (simp add: enter_def)
  ultimately show ?thesis by blast
qed

lemma sh_slots_on_slots [simp]:
  "sh_slots (shared (inner (on_slots f io))) = f (sh_slots (shared (inner io)))"
  "sh_slots (shared (inner (latch_status r io))) = sh_slots (shared (inner io))"
  by (simp_all add: on_slots_def on_shared_def latch_status_def Let_def split: outcome.splits prod.splits)

text \<open>The other tasks only take steps of the slot table, and none for task \<open>t\<close>.\<close>

definition well_behaved :: "Io \<Rightarrow> nat \<Rightarrow> bool" where
  "well_behaved io t \<longleftrightarrow> (\<forall>n s w. tbl w = sh_slots s \<longrightarrow>
     (\<exists>w'. slot_step\<^sup>*\<^sup>* w w' \<and> phase w' t = phase w t \<and> tbl w' = sh_slots (others io n s)))"

text \<open>What a guard leaves of its slot: the mutual exclusion of the slot keeps the other tasks off it.\<close>

definition private_slot :: "Io \<Rightarrow> usize \<Rightarrow> bool" where
  "private_slot io i \<longleftrightarrow> (\<forall>n s. slots (sh_slots (others io n s)) ! i = slots (sh_slots s) ! i \<and>
     length (slots (sh_slots (others io n s))) = length (slots (sh_slots s)))"

abbreviation (input) slot_at :: "Io \<Rightarrow> usize \<Rightarrow> SlotState" where
  "slot_at io i \<equiv> slots (sh_slots (shared (inner io))) ! i"

lemma slots_release:
  assumes "guard_index g < length (slots tb)"
  shows "slots (release_slot g tb) ! guard_index g =
    (if request_outstanding g then (slots tb ! guard_index g)\<lparr> usable := False \<rparr> else slots tb ! guard_index g)"
  using assms by (auto simp: release_slot_def drop_guard_def mark_unusable_def Let_def nth_update_if split: prod.splits if_splits)

lemma slots_update_limits [simp]: "slots (update_limits hi tgt tb) = slots tb"
  by (simp add: update_limits_def Let_def)

lemma slots_advance:
  "guard_index g < length (slots tb) \<Longrightarrow> slots (advance_sequence g tb) ! guard_index g =
     (slots tb ! guard_index g)\<lparr> slot_sequenceid := slot_sequenceid (slots tb ! guard_index g) + 1 \<rparr>"
  "length (slots (advance_sequence g tb)) = length (slots tb)"
  by (simp_all add: advance_sequence_def Let_def)

lemma receive_outcome:
  assumes "receive_on_slot slot g r io = (x, io')" and i: "guard_index g < length (slots (sh_slots (shared (inner io))))"
    and "request_outstanding g"
  shows "slot_at io' (guard_index g) = (case r of
      Ok bs \<Rightarrow> (if \<exists>v. x = Ok v then (slot_at io (guard_index g))\<lparr> slot_sequenceid := slot_sequenceid (slot_at io (guard_index g)) + 1 \<rparr>
        else (slot_at io (guard_index g))\<lparr> usable := False \<rparr>)
    | Err e \<Rightarrow> (if is_request_not_sent e then slot_at io (guard_index g) else (slot_at io (guard_index g))\<lparr> usable := False \<rparr>)
    | Panic \<Rightarrow> (slot_at io (guard_index g))\<lparr> usable := False \<rparr>)"
proof -
  have dis: "guard_index (disarm_request g) = guard_index g" "\<not> request_outstanding (disarm_request g)"
    by (simp_all add: disarm_request_def)
  note rel = slots_release [of g, OF i] slots_release [of "disarm_request g", unfolded dis(1), OF i]
    slots_release [of "disarm_request g", unfolded dis(1)]
  show ?thesis
    using assms(1,3) i rel dis
    by (auto simp: receive_on_slot_def Let_def slots_advance split: outcome.splits if_splits)
qed

lemma receive_steps:
  assumes ph: "phase w t = Holding g" and out: "request_outstanding g" and tb: "tbl w = sh_slots (shared (inner io))"
    and run: "receive_on_slot slot g r io = (x, io')"
  shows "\<exists>w'. slot_step\<^sup>*\<^sup>* w w' \<and> tbl w' = sh_slots (shared (inner io')) \<and> phase w' t = Idle"
proof -
  have rel: "\<exists>w'. slot_step\<^sup>*\<^sup>* w w' \<and> tbl w' = release_slot g (tbl w) \<and> phase w' t = Idle" by (rule release_steps [OF ph])
  consider (not_sent) "sh_slots (shared (inner io')) = release_slot (disarm_request g) (tbl w)"
    | (lost) "sh_slots (shared (inner io')) = release_slot g (tbl w)"
    | (confirmed) hi tgt where "sh_slots (shared (inner io')) =
        release_slot (disarm_request g) (advance_sequence g (update_limits hi tgt (tbl w)))"
    using run tb by (auto simp: receive_on_slot_def Let_def split: outcome.splits if_splits)
  then show ?thesis
  proof cases
    case not_sent
    let ?w = "enter t (Holding (disarm_request g))
      (w\<lparr> requests := (requests w)(guard_index g := butlast (requests w (guard_index g))) \<rparr>)"
    have "slot_step w ?w" using ph out by (rule slot_step.not_sent)
    moreover have "phase ?w t = Holding (disarm_request g)" "tbl ?w = tbl w" by (simp_all add: enter_def)
    ultimately show ?thesis
      using release_steps [of ?w t "disarm_request g"] not_sent by (metis converse_rtranclp_into_rtranclp)
  next
    case lost then show ?thesis using rel by simp
  next
    case (confirmed hi tgt)
    let ?w1 = "w\<lparr> tbl := update_limits hi tgt (tbl w), woken := (\<lambda>_. True) \<rparr>"
    let ?w2 = "enter t (Holding (disarm_request g)) (?w1\<lparr> tbl := advance_sequence g (tbl ?w1) \<rparr>)"
    have 1: "slot_step w ?w1" using ph out by (rule slot_step.limits)
    have 2: "slot_step ?w1 ?w2" using ph out by (intro slot_step.confirm) auto
    have "phase ?w2 t = Holding (disarm_request g)" "tbl ?w2 = advance_sequence g (update_limits hi tgt (tbl w))"
      by (simp_all add: enter_def)
    then show ?thesis
      using release_steps [of ?w2 t "disarm_request g"] confirmed 1 2 by (metis converse_rtranclp_into_rtranclp)
  qed
qed

lemma send_on_slot_cases:
  assumes "send_on_slot tag ops g highest io = (r, io')"
  obtains (unsent) "sh_slots (shared (inner io')) = release_slot g (sh_slots (shared (inner io)))" "issued io' = issued io"
  | (sent) req x io1 slot where "issue req io = (x, io1)" "receive_on_slot slot (mark_request_outstanding g) x io1 = (r, io')"
  using assms by (auto simp: send_on_slot_def Let_def split: outcome.splits option.splits prod.splits)

lemma issue_shared: "issue req io = (x, io1) \<Longrightarrow> shared (inner io1) = others io (awaits io) (shared (inner io))"
  by (auto simp: issue_def Let_def suspended_def on_shared_def)



subsection \<open>Fused PUT\<close>

lemma fused_put_ops_cong:
  "export_root s = export_root s' \<Longrightarrow> ns_clientid s = ns_clientid s' \<Longrightarrow> ns_config s = ns_config s' \<Longrightarrow>
     fused_put_ops s = fused_put_ops s'"
  by (intro ext) (simp add: fused_put_ops_def Let_def)

lemma decodes_fused_ops:
  "decodes (decode_fused_put_compound bs (length parent) create_new) bs
    (OpCode.Sequence # map opcode (fused_put_ops s owner parent temp dest data create_new)) (\<lambda>y. y \<noteq> AlreadyExists)"
  using decodes_fused_put [of bs "length parent" create_new] by (cases create_new) (simp_all add: opcode_fused_put_ops)

lemma note_fused_put_failure_keeps:
  "keeps io (note_fused_put_failure e io)" "issued (note_fused_put_failure e io) = issued io"
  "slept (note_fused_put_failure e io) = slept io"
  by (simp_all add: note_fused_put_failure_def Let_def)

lemma next_owner_run:
  obtains owner io' where "next_owner io = (Ok owner, io')" and "keeps io io'" and "issued io' = issued io"
    and "slept io' = slept io" and "fused_put_ops (inner io') = fused_put_ops (inner io)"
proof -
  obtain owner c where "next_open_owner (sh_owner (shared (inner io))) = (owner, c)" by fastforce
  then show thesis
    by (intro that [of owner "on_shared (\<lambda>s. s\<lparr> sh_owner := c \<rparr>) io"] fused_put_ops_cong) (simp_all add: next_owner_def)
qed

text \<open>
  C9. A fused PUT issues at most one request and never sleeps: it is not replayed. \<open>Ok(None)\<close>
  means that nothing was sent; a reported publish of \<open>n\<close> bytes means that the server answered the whole
  compound, from the guarded OPEN of the temporary name to the RENAME or LINK and REMOVE, with OK, and
  that \<open>n\<close> is the length of the body; and every failure of the transport or of an operation is returned as
  an error.
\<close>

theorem try_put_fused_atomic:
  assumes "try_put_fused parent temp_name dest_name data create_new io = (r, io')"
  shows "length (issued io') \<le> length (issued io) + 1 \<and> slept io' = slept io \<and>
    (r = Ok None \<longrightarrow> issued io' = issued io) \<and>
    (\<forall>n f. r = Ok (Some (Opened (n, f))) \<longrightarrow> n = of_nat (length data) \<and> close_seqid f = 1 \<and>
      (\<exists>owner. acknowledged io' (fused_put_ops (inner io) owner parent temp_name dest_name data create_new)))"
proof (cases "fused_put_viable (length data) (inner io)")
  case False
  then show ?thesis using assms by (auto simp: try_put_fused_def)
next
  case True
  obtain owner io1 where own: "next_owner io = (Ok owner, io1)" "issued io1 = issued io" "slept io1 = slept io"
    "fused_put_ops (inner io1) = fused_put_ops (inner io)" using next_owner_run [of io] by metis
  let ?ops = "fused_put_ops (inner io) owner parent temp_name dest_name data create_new"
  let ?decode = "\<lambda>bs. decode_fused_put_compound bs (length parent) create_new"
  obtain x a io2 where run: "compound_decode_detailed ''put-fused'' ?ops ?decode False 0 io1 = (x, a, io2)" by (metis prod_cases3)
  note conv = compound_decode_detailed_conversed [OF run]
  have len: "length (issued io2) \<le> length (issued io) + 1" "slept io2 = slept io" using conv own by auto
  show ?thesis
  proof (cases "compound_request_fits ''put-fused'' ?ops (inner io1)")
    case False
    then show ?thesis using assms True own by (auto simp: try_put_fused_def and_then_def Let_def)
  next
    case fits: True
    have body: "(r, io') = (case (x, a, io2) of
          (Err err, _, io) \<Rightarrow> (Err (err_error err), note_fused_put_failure (err_error err) io)
        | (Panic, _, io) \<Rightarrow> (Panic, io)
        | (Ok AlreadyExists, _, io) \<Rightarrow> (Ok (Some AlreadyExists), io)
        | (Ok (Opened (stateid, h, w)), _, io) \<Rightarrow>
            if (ucast (write_count w) :: u64) \<noteq> of_nat (length data)
            then (Err (Protocol ''fused put wrote {} of {} bytes but passed size verification''), io)
            else (Ok (Some (Opened (ucast (write_count w),
                   \<lparr> fh = h, opened_stateid = stateid, close_seqid = 1 \<rparr>))), io))"
      using assms True fits own run by (simp add: try_put_fused_def and_then_def Let_def)
    have ack: "acknowledged io2 ?ops" if "x = Ok (Opened y)" for y
      using conv that
      by (intro conversed_acknowledged [where F = "\<lambda>y. y \<noteq> AlreadyExists", OF _ decodes_fused_ops]) auto
    show ?thesis
      using body len ack by (auto simp: note_fused_put_failure_keeps split: outcome.splits OpenOutcome.splits if_splits)
  qed
qed

theorem try_put_fused_atomic_witness:
  "length (issued (snd (try_put_fused [''d''] ''t'' ''f'' [1, 2, 3] False (demo [])))) \<le> 1"
proof -
  have "issued (demo []) = []" by (simp add: demo_def)
  then show ?thesis
    using try_put_fused_atomic [of "[''d'']" "''t''" "''f''" "[1, 2, 3]" False "demo []", OF surjective_pairing] by simp
qed

subsection \<open>Batched closes\<close>

lemma opcode_close_ops: "map opcode (concat (map close_ops fs)) = concat (replicate (length fs) [OpCode.PutFh, OpCode.Close])"
  by (induction fs) (simp_all add: close_ops_def)

lemma compound_no_retry_step:
  assumes "compound_decode_no_transient_retry tag ops decode io = (r, io1)"
    and "\<And>bs. decodes (decode bs) bs (OpCode.Sequence # map opcode ops) F" and "\<And>v. F v"
  shows "keeps io io1 \<and> (issued io1 = issued io \<and> (\<forall>v. r \<noteq> Ok v) \<or>
    (\<exists>req. issued io1 = issued io @ [req] \<and> req_ops req = ops \<and> (\<forall>v. r = Ok v \<longrightarrow> acknowledged io1 ops)))"
proof -
  obtain x where x: "conversed ops decode io x io1" "r = map_err err_error x" "length (issued io1) \<le> length (issued io) + 1"
    using compound_decode_no_retry_conversed [OF assms(1)] by metis
  have k: "keeps io io1" using x(1) by (simp add: conversed_def)
  then obtain zs where zs: "issued io1 = issued io @ zs" by (auto simp: keeps_def prefix_def)
  have ok: "acknowledged io1 ops" if "r = Ok v" for v
    using x that conversed_acknowledged [OF _ assms(2,3)] by (cases x) auto
  show ?thesis
  proof (cases zs)
    case Nil
    then have "\<forall>v. x \<noteq> Ok v" using x(1) zs by (auto simp: conversed_def)
    then show ?thesis using k zs Nil x(2) by (cases x) auto
  next
    case (Cons req ys)
    then have "ys = []" using x(3) zs by simp
    moreover have "req_ops req = ops" using x(1) zs Cons by (auto simp: conversed_def nth_append)
    ultimately show ?thesis using k zs Cons ok by auto
  qed
qed

text \<open>The requests issued between two states, and the answers to them.\<close>

definition new_requests :: "Io \<Rightarrow> Io \<Rightarrow> Request list" where
  "new_requests io io' = drop (length (issued io)) (issued io')"

definition all_acknowledged :: "Io \<Rightarrow> Io \<Rightarrow> bool" where
  "all_acknowledged io io' \<longleftrightarrow> (\<forall>k. length (issued io) \<le> k \<and> k < length (issued io') \<longrightarrow>
     (\<exists>bs. answer_of io' k = Ok bs \<and> answered bs (OpCode.Sequence # map opcode (req_ops (issued io' ! k)))))"

lemma new_requests_trans:
  assumes "issued io1 = issued io @ [req]" and "keeps io1 io'"
  shows "new_requests io io' = req # new_requests io1 io'"
proof -
  obtain zs where "issued io' = issued io1 @ zs" using assms(2) by (auto simp: keeps_def prefix_def)
  then show ?thesis using assms(1) by (simp add: new_requests_def)
qed

lemma all_acknowledged_trans:
  assumes "issued io1 = issued io @ [req]" and "req_ops req = ops" and "acknowledged io1 ops" and "keeps io1 io'"
    and "all_acknowledged io1 io'"
  shows "all_acknowledged io io'"
  unfolding all_acknowledged_def
proof (intro allI impI)
  fix k assume k: "length (issued io) \<le> k \<and> k < length (issued io')"
  show "\<exists>bs. answer_of io' k = Ok bs \<and> answered bs (OpCode.Sequence # map opcode (req_ops (issued io' ! k)))"
  proof (cases "k = length (issued io)")
    case True
    then show ?thesis
      using assms keeps_response [OF assms(4), of k] keeps_nth [OF assms(4), of k] by (auto simp: acknowledged_def)
  next
    case False
    then show ?thesis using assms(1,5) k by (simp add: all_acknowledged_def)
  qed
qed

lemma close_batch_spec:
  assumes "close_batch opened io = (r, io')"
  shows "keeps io io' \<and> prefix (concat (map req_ops (new_requests io io'))) (concat (map close_ops opened)) \<and>
    (\<forall>req \<in> set (new_requests io io'). length (req_ops req) \<le> 2 * MAX_DEFERRED_CLOSE_BATCH) \<and>
    (r = Ok () \<longrightarrow> concat (map req_ops (new_requests io io')) = concat (map close_ops opened) \<and> all_acknowledged io io')"
  using assms
proof (induction opened io arbitrary: r io' rule: close_batch.induct)
  case (1 opened io)
  show ?case
  proof (cases "opened = []")
    case True
    then show ?thesis using 1(2) by (subst (asm) close_batch.simps) (auto simp: new_requests_def all_acknowledged_def)
  next
    case False
    define n where "n = fit_batch (inner io) opened (min (max_files_by_ops (inner io)) (length opened))"
    have n: "0 < n" "n \<le> MAX_DEFERRED_CLOSE_BATCH" "n \<le> length opened"
      using close_count_bounds [OF False, of "inner io"] by (simp_all add: n_def)
    let ?ops = "concat (map close_ops (take n opened))"
    obtain x io1 where run: "compound_decode_no_transient_retry ''close-batch'' ?ops
        (\<lambda>bs. decode_close_batch_compound bs n) io = (x, io1)" by fastforce
    have dec: "decodes (decode_close_batch_compound bs n) bs (OpCode.Sequence # map opcode ?ops) (\<lambda>_. True)" for bs
      using decodes_close_batch [of bs n] n unfolding opcode_close_ops by (simp add: min_absorb2)
    note step = compound_no_retry_step [OF run dec TrueI]
    have len: "length ?ops \<le> 2 * MAX_DEFERRED_CLOSE_BATCH"
    proof -
      have "length (concat (map close_ops fs)) = 2 * length fs" for fs by (induction fs) (simp_all add: close_ops_def)
      then show ?thesis using n by simp
    qed
    have whole: "concat (map close_ops opened) = ?ops @ concat (map close_ops (drop n opened))"
      by (metis append_take_drop_id concat_append map_append)
    show ?thesis
    proof (cases x)
      case (Ok u)
      then obtain req where req: "issued io1 = issued io @ [req]" "req_ops req = ?ops" "acknowledged io1 ?ops" "keeps io io1"
        using step by auto
      have rec: "close_batch (drop n opened) io1 = (r, io')"
        using 1(2) False run Ok by (subst (asm) close_batch.simps) (simp add: n_def Let_def)
      have IH: "keeps io1 io' \<and> prefix (concat (map req_ops (new_requests io1 io'))) (concat (map close_ops (drop n opened))) \<and>
          (\<forall>req \<in> set (new_requests io1 io'). length (req_ops req) \<le> 2 * MAX_DEFERRED_CLOSE_BATCH) \<and>
          (r = Ok () \<longrightarrow> concat (map req_ops (new_requests io1 io')) = concat (map close_ops (drop n opened)) \<and>
             all_acknowledged io1 io')"
        using 1(1) [OF False n_def refl run [symmetric] Ok rec] .
      then show ?thesis
        using whole req len new_requests_trans [OF req(1)] all_acknowledged_trans [OF req(1,2,3)] keeps_trans [OF req(4)]
        by auto
    next
      case (Err e)
      then have "r = Err e \<and> io' = io1"
        using 1(2) False run by (subst (asm) close_batch.simps) (simp add: n_def Let_def)
      then show ?thesis using step whole len by (auto simp: new_requests_def)
    next
      case Panic
      then have "r = Panic \<and> io' = io1"
        using 1(2) False run by (subst (asm) close_batch.simps) (simp add: n_def Let_def)
      then show ?thesis using step whole len by (auto simp: new_requests_def)
    qed
  qed
qed

text \<open>
  C10. Deferred closes are batched without loss: when \<open>close_batch\<close> succeeds, the requests it issued
  hold one PUTFH and CLOSE for every state, in order and exactly once, at most 16 states per
  compound, and the server answered every one of them with OK; when it fails, what was sent is a
  prefix of that.
\<close>

theorem close_batch_complete:
  assumes "close_batch opened io = (r, io')"
  shows "prefix (concat (map req_ops (new_requests io io'))) (concat (map close_ops opened)) \<and>
    (\<forall>req \<in> set (new_requests io io'). length (req_ops req) \<le> 32) \<and>
    (r = Ok () \<longrightarrow> concat (map req_ops (new_requests io io')) = concat (map close_ops opened) \<and> all_acknowledged io io')"
  using close_batch_spec [OF assms] by simp

theorem close_batch_complete_witness:
  "prefix (concat (map req_ops (new_requests (demo []) (snd (close_batch [demo_file] (demo []))))))
     (concat (map close_ops [demo_file]))"
  using close_batch_complete [of "[demo_file]" "demo []", OF surjective_pairing] by blast

subsection \<open>Requests and replies agree\<close>



subsection \<open>Connecting\<close>

lemma decode_setup_compound_decoded:
  assumes "decode_setup_compound bs op decode = Ok y"
  shows "\<exists>d d'. decode d = (Ok y, d')"
proof -
  obtain r r' where "and_then (walk_result op decode) (\<lambda>r. and_then walk_finish (\<lambda>_.
      require_result ''compound response did not include {shape} result'' r)) r = (Ok y, r')"
    using assms unfolding decode_setup_compound_def with_replies_def
    by (auto simp: then_outcome_Ok) (metis prod.collapse)
  then obtain s where "walk_result op decode r = (Ok (Some y), s)"
    by (auto simp: and_then_Ok require_result_def)
  then obtain s1 where "on_dec decode s1 = (Ok y, s)"
    by (auto simp: walk_result_def and_then_Ok split: if_splits)
  then show ?thesis
    by (auto simp: on_dec_def into_cde_def split: prod.splits)
qed

lemma channel_payload_bound: "unat (channel_payload_size n) = max (unat n - 1024) 1"
proof -
  have "unat (u32_saturating_sub n 1024) = unat n - 1024"
    by (auto simp: u32_saturating_sub_def unat_sub word_le_nat_alt)
  then show ?thesis by (auto simp: channel_payload_size_def max_def word_le_nat_alt)
qed

lemma unat_min_u32: "unat (min a (b :: u32)) = min (unat a) (unat b)"
  by (auto simp: min_def word_le_nat_alt)

lemma negotiated_config_bounds:
  "unat (max_request_size (negotiated_config config attrs)) =
     min (unat (max_request_size config)) (unat (ca_max_request_size attrs))"
  "unat (max_response_size (negotiated_config config attrs)) =
     min (unat (max_response_size config)) (unat (ca_max_response_size attrs))"
  "unat (write_chunk_size (negotiated_config config attrs)) \<le>
     max (unat (max_request_size (negotiated_config config attrs)) - 1024) 1"
  "unat (read_chunk_size (negotiated_config config attrs)) \<le>
     max (unat (max_response_size (negotiated_config config attrs)) - 1024) 1"
  "read_granularity (negotiated_config config attrs) \<le> read_chunk_size (negotiated_config config attrs)"
  "max_compound_ops (negotiated_config config attrs) = maxoperations attrs"
  "export_path (negotiated_config config attrs) = export_path config"
  by (simp_all add: negotiated_config_def Let_def unat_min_u32 channel_payload_bound min_le_iff_disj)

lemma setup_call_run:
  assumes "setup_call tag ops io = (Ok bs, io')"
  obtains req where "issued io' = issued io @ [req]" and "req_ops req = ops" and "transport io' = transport io"
    and "answer_of io' (length (issued io)) = Ok bs"
proof -
  obtain p where p: "issue \<lparr> req_sequence = None, req_ops = ops, req_payload = p \<rparr> io = (Ok bs, io')"
    using assms by (auto simp: setup_call_def split: option.splits)
  show thesis using that issue_run [OF p] by (simp add: answer_of_def)
qed



text \<open>A server for the four requests of a connection, on a session with one slot.\<close>

definition channel_wire :: bytes where
  "channel_wire = concat (map (be_bytes 4) [0, 65536, 65536, 65536, 64, 1, 0 :: u32])"

definition exchange_body :: bytes where
  "exchange_body = be_bytes 8 (7 :: u64) @ be_bytes 4 (1 :: u32) @ be_bytes 4 (0 :: u32) @ be_bytes 4 (0 :: u32) @
     be_bytes 8 (0 :: u64) @ opaque_wire [] @ opaque_wire [] @ be_bytes 4 (0 :: u32)"

definition session_body :: bytes where
  "session_body = replicate 16 3 @ be_bytes 4 (1 :: u32) @ be_bytes 4 (0 :: u32) @ channel_wire @ channel_wire"

lemma exchange_body_decodes: "decode_exchange_id (exchange_body @ rest) = (Ok \<lparr> xid_clientid = 7, xid_sequenceid = 1 \<rparr>, rest)"
proof -
  have "opaque_wire [] = be_bytes 4 (0 :: u32)" by (simp add: opaque_wire_def pad_def xdr_padding_mod)
  then show ?thesis
    by (simp add: exchange_body_def decode_exchange_id_def decode_state_protect_def skip_impl_id_array_def and_then_def
        dec_eqs remaining_def u32_max_def xdr_padding_mod)
qed

lemma channel_wire_decodes: "decode_channel_attrs (channel_wire @ rest) =
    (Ok \<lparr> ca_max_request_size = 65536, ca_max_response_size = 65536, maxoperations = 64, maxrequests = 1 \<rparr>, rest)"
  by (simp add: channel_wire_def decode_channel_attrs_def nonzero_channel_limit_def and_then_def dec_eqs remaining_def
      skip_bytes_after_require_def buf_advance_def)

lemma session_body_decodes:
  assumes "minimum \<le> 65536"
  shows "decode_create_session 1 minimum (session_body @ rest) = (Ok \<lparr> cs_sessionid = replicate 16 3, fore_attrs =
    \<lparr> ca_max_request_size = 65536, ca_max_response_size = 65536, maxoperations = 64, maxrequests = 1 \<rparr> \<rparr>, rest)"
  using assms
  by (simp add: session_body_def decode_create_session_def and_then_def dec_eqs channel_wire_decodes
      validate_fore_channel_minimums_def)

lemma setup_decodes:
  assumes "decode (body @ []) = (Ok v, [])"
  shows "decode_setup_compound (compound_reply status_OK [] [(op_u32 op, status_OK, body)]) op decode = Ok v"
  using assms walk_result_wire [where decode = decode and body = body and rest = "[]" and op = op and a = "op_u32 op"]
  by (simp add: decode_setup_compound_def with_replies_wire u32_max_def and_then_def walk_finish_def require_result_def
      del: op_u32.simps)

text \<open>A request that is confirmed, on a session that no other task uses.\<close>

lemma raw_once_confirmed:
  assumes "validate_compound_request tag ops (inner io) = Ok ()" and "fatal_sequence_flags (shared (inner io)) = 0"
    and "others io = (\<lambda>_ s. s)" and "acquired io = (\<lambda>_ tb. (Ok (new_guard 0, 0), tb))"
    and slot: "slot_at io 0 = slot" "0 < length (slots (sh_slots (shared (inner io))))"
    and enc: "encode_compound_with_sequence tag \<lparr> sessionid = ns_sessionid (inner io), sequenceid = slot_sequenceid slot,
      slotid = slot_id slot, highest_slotid = 0, cachethis = False \<rparr> ops = Some p"
    and tr: "transport io (map req_payload (issued io) @ [p]) = Ok bs"
    and dec: "decode_sequence_result bs (ns_sessionid (inner io)) (slot_sequenceid slot) (slot_id slot) = Ok res"
    and "seq_status_flags res = 0"
  shows "\<exists>io'. compound_raw_once tag ops io = (Ok bs, io') \<and> keeps io io' \<and> length (issued io') = Suc (length (issued io)) \<and>
    fatal_sequence_flags (shared (inner io')) = 0 \<and> slot_at io' 0 = slot\<lparr> slot_sequenceid := slot_sequenceid slot + 1 \<rparr> \<and>
    0 < length (slots (sh_slots (shared (inner io'))))"
proof -
  have ok: "validate_sequence_status_flags 0 rc = Ok ()" for rc by (simp add: validate_sequence_status_flags_def)
  let ?g = "mark_request_outstanding (new_guard 0)"
  let ?seq = "\<lparr> sessionid = ns_sessionid (inner io), sequenceid = slot_sequenceid slot,
      slotid = slot_id slot, highest_slotid = 0, cachethis = False \<rparr>"
  obtain io1 where acq: "acquire_for_request io = (Ok (new_guard 0, 0), io1)"
    and io1: "inner io1 = inner io" "transport io1 = transport io" "others io1 = others io" "issued io1 = issued io"
    using assms(3,4) by (simp add: acquire_for_request_def suspended_def on_shared_def on_slots_def Let_def)
  obtain io2 where iss: "issue \<lparr> req_sequence = Some ?seq, req_ops = ops, req_payload = p \<rparr> io1 = (Ok bs, io2)"
    and io2: "inner io2 = inner io"
    using tr io1 assms(3) by (simp add: issue_def Let_def suspended_def on_shared_def)
  obtain io' where rcv: "receive_on_slot slot ?g (Ok bs) io2 = (Ok bs, io')"
    using dec io2 by (simp add: receive_on_slot_def Let_def)
  have send: "send_on_slot tag ops (new_guard 0) 0 io1 = (Ok bs, io')"
    using io1 slot enc iss rcv ok assms(2)
    by (simp add: send_on_slot_def Let_def ensure_sequence_status_usable_def new_guard_def)
  have run: "compound_raw_once tag ops io = (Ok bs, io')"
    using assms(1,2) ok acq send by (simp add: compound_raw_once_def ensure_sequence_status_usable_def)
  have flags: "fatal_sequence_flags (shared (inner io')) = 0" "length (slots (sh_slots (shared (inner io')))) = length (slots (sh_slots (shared (inner io))))"
    using rcv dec io2 ok assms(2,10)
    by (auto simp: receive_on_slot_def Let_def on_slots_def on_shared_def latch_status_def release_slot_def drop_guard_def
        disarm_request_def slots_advance split: prod.splits)
  have "slot_at io' 0 = slot\<lparr> slot_sequenceid := slot_sequenceid slot + 1 \<rparr>"
    using receive_outcome [OF rcv] io2 slot by (simp add: mark_request_outstanding_def new_guard_def)
  then show ?thesis
    using run compound_raw_once_sends [OF run] flags slot(2) by (auto simp: sends_def)
qed


definition connect_script :: "bytes list" where
  "connect_script =
    [compound_reply status_OK [] [(op_u32 OpCode.ExchangeId, status_OK, exchange_body)],
     compound_reply status_OK [] [(op_u32 OpCode.CreateSession, status_OK, session_body)],
     compound_reply status_OK [] [(op_u32 OpCode.Sequence, status_OK, sequence_body (replicate 16 3) 1 0 0 0 0),
       (op_u32 OpCode.ReclaimComplete, status_OK, [])],
     compound_reply status_OK [] [(op_u32 OpCode.Sequence, status_OK, sequence_body (replicate 16 3) 2 0 0 0 0),
       (op_u32 OpCode.PutRootFh, status_OK, []), (op_u32 OpCode.GetFh, status_OK, opaque_wire [9])]]"

definition connect_io :: Io where
  "connect_io = (demo [])\<lparr> transport := (\<lambda>ps. Ok (connect_script ! (length ps - 1))) \<rparr>"

definition connect_owner :: ClientOwner where
  "connect_owner = \<lparr> owner_verifier = 5, ownerid = ''me'', owner_counter = 1 \<rparr>"

abbreviation (input) connect_rpc :: RpcClientAuth where
  "connect_rpc \<equiv> \<lparr> auth_body = [], auth_padding_len = 0, call_header_template = replicate 32 0 \<rparr>"

lemma connect_exchange:
  "\<exists>io1. exchange_id connect_owner 5 connect_io = (Ok \<lparr> xid_clientid = 7, xid_sequenceid = 1 \<rparr>, io1) \<and>
     length (issued io1) = 1 \<and> keeps connect_io io1"
proof -
  obtain bs where bs: "encode_compound ''exchange-id'' [NfsOp.ExchangeId (be_bytes 8 (5 :: u64)) (as_bytes ''me'')] = Some bs"
    by (simp add: encode_compound_def encode_compound_inner_def put_string_eq put_opaque_eq u32_max_def)
  obtain io1 where iss: "issue \<lparr> req_sequence = None, req_ops = [NfsOp.ExchangeId (be_bytes 8 (5 :: u64)) (as_bytes ''me'')],
      req_payload = payload_from_bytes bs \<rparr> connect_io = (Ok (connect_script ! 0), io1)" "length (issued io1) = 1"
    by (simp add: issue_def Let_def connect_io_def demo_def)
  have "decode_exchange_id_compound (connect_script ! 0) = Ok \<lparr> xid_clientid = 7, xid_sequenceid = 1 \<rparr>"
    unfolding decode_exchange_id_compound_def connect_script_def
    by (simp del: op_u32.simps) (intro setup_decodes exchange_body_decodes)
  then show ?thesis
    using bs iss keeps_issue [OF iss(1)]
    by (simp add: exchange_id_def setup_call_def and_then_def connect_owner_def)
qed

lemma connect_create:
  assumes "keeps connect_io io1" and "length (issued io1) = 1"
  shows "\<exists>io2. create_session connect_rpc 7 1 (nfs_config_new []) io1 = (Ok \<lparr> cs_sessionid = replicate 16 3, fore_attrs =
      \<lparr> ca_max_request_size = 65536, ca_max_response_size = 65536, maxoperations = 64, maxrequests = 1 \<rparr> \<rparr>, io2) \<and>
     length (issued io2) = 2 \<and> keeps connect_io io2"
proof -
  let ?ops = "[NfsOp.CreateSession 7 1 (nfs_config_new [])]"
  obtain bs where bs: "encode_compound ''create-session'' ?ops = Some bs"
    by (simp add: encode_compound_def encode_compound_inner_def put_string_eq u32_max_def encode_channel_attrs_def)
  have tr: "transport io1 = (\<lambda>ps. Ok (connect_script ! (length ps - 1)))"
    using assms(1) by (simp add: keeps_def connect_io_def)
  obtain io2 where iss: "issue \<lparr> req_sequence = None, req_ops = ?ops, req_payload = payload_from_bytes bs \<rparr> io1 =
      (Ok (connect_script ! 1), io2)" "length (issued io2) = 2"
    using assms(2) tr by (simp add: issue_def Let_def)
  have "encoded_call_len connect_rpc (compound_with_sequence_encoded_len [] []) \<le> 65536"
    by (simp add: encoded_call_len_eq compound_with_sequence_encoded_len_eq xdr_string_len_def xdr_opaque_len_exact u32_max_def
        usize_max_def xdr_padding_mod)
  then have "decode_create_session_compound (connect_script ! 1) 1
      (encoded_call_len connect_rpc (compound_with_sequence_encoded_len [] [])) = Ok \<lparr> cs_sessionid = replicate 16 3, fore_attrs =
      \<lparr> ca_max_request_size = 65536, ca_max_response_size = 65536, maxoperations = 64, maxrequests = 1 \<rparr> \<rparr>"
    unfolding decode_create_session_compound_def connect_script_def
    by (simp del: op_u32.simps) (intro setup_decodes session_body_decodes)
  then show ?thesis
    using bs iss keeps_trans [OF assms(1) keeps_issue [OF iss(1)]]
    by (simp add: create_session_def setup_call_def and_then_def Let_def)
qed

lemma connect_session_request:
  assumes "keeps io0 io" and "inner io0 = new_session connect_rpc (nfs_config_new []) connect_owner exchange
      \<lparr> cs_sessionid = replicate 16 3, fore_attrs = attrs \<rparr>"
    and "attrs = \<lparr> ca_max_request_size = 65536, ca_max_response_size = 65536, maxoperations = 64, maxrequests = 1 \<rparr>"
    and "ops \<in> {[NfsOp.ReclaimComplete False], [NfsOp.PutRootFh, NfsOp.GetFh]}" and "tag \<in> {''reclaim-complete'', ''resolve-export''}"
  shows "validate_compound_request tag ops (inner io) = Ok () \<and>
    (\<exists>p. encode_compound_with_sequence tag \<lparr> sessionid = ns_sessionid (inner io), sequenceid = seq, slotid = 0,
      highest_slotid = 0, cachethis = False \<rparr> ops = Some p)"
proof -
  obtain sh where sh: "inner io = (inner io0)\<lparr> shared := sh \<rparr>" using assms(1) by (auto simp: keeps_def)
  have c: "ns_config (inner io0) = negotiated_config (nfs_config_new []) attrs" "ns_rpc (inner io0) = connect_rpc"
    using assms(2) by (simp_all add: new_session_def Let_def)
  have lims: "max_compound_ops (ns_config (inner io)) = 64" "unat (max_request_size (ns_config (inner io))) = 65536"
    using sh c assms(3) by (simp_all add: negotiated_config_bounds nfs_config_new_def)
  have "sendable tag ops" using assms(4,5) by (auto simp: sendable_eqs)
  then obtain bs where bs: "encode_compound_inner tag (Some demo_sequence) ops = Some bs" "length bs \<le> 10000"
    "length bs = xdr_string_len tag + 44 + sum_list (map op_encoded_len ops)"
    using compound_inner_length [where sequence = demo_sequence] by (auto simp: sendable_def)
  then have len: "compound_with_sequence_encoded_len tag ops \<le> 10000" by (simp add: compound_with_sequence_encoded_len_eq)
  have "xdr_padding (compound_with_sequence_encoded_len tag ops) \<le> 3" by (simp add: xdr_padding_mod)
  then have "40 + compound_with_sequence_encoded_len tag ops + xdr_padding (compound_with_sequence_encoded_len tag ops) \<le> 65536"
    using len by linarith
  then have "encoded_call_len (ns_rpc (inner io)) (compound_with_sequence_encoded_len tag ops) \<le> 65536"
    using sh c by (simp add: encoded_call_len_eq min_le_iff_disj)
  moreover have "saturating_add (length ops) 1 \<le> 64" using assms(4) by (auto simp: saturating_add_def)
  ultimately have "validate_compound_request tag ops (inner io) = Ok ()"
    using lims by (simp add: validate_compound_request_def validate_compound_request_limits_def Let_def)
  moreover have "\<exists>p. encode_compound_with_sequence tag \<lparr> sessionid = ns_sessionid (inner io), sequenceid = seq, slotid = 0,
      highest_slotid = 0, cachethis = False \<rparr> ops = Some p"
    using assms(4,5) by (auto simp: encode_compound_with_sequence_def encode_sequence_op_def put_string_eq u32_max_def)
  ultimately show ?thesis by blast
qed

lemma connect_resolves:
  assumes "keeps io0 io" and "inner io0 = new_session connect_rpc (nfs_config_new []) connect_owner exchange
      \<lparr> cs_sessionid = replicate 16 3, fore_attrs = attrs \<rparr>"
    and "attrs = \<lparr> ca_max_request_size = 65536, ca_max_response_size = 65536, maxoperations = 64, maxrequests = 1 \<rparr>"
    and req: "ops \<in> {[NfsOp.ReclaimComplete False], [NfsOp.PutRootFh, NfsOp.GetFh]}" "tag \<in> {''reclaim-complete'', ''resolve-export''}"
    and "others io = (\<lambda>_ s. s)" and "acquired io = (\<lambda>_ tb. (Ok (new_guard 0, 0), tb))"
    and "fatal_sequence_flags (shared (inner io)) = 0" and "0 < length (slots (sh_slots (shared (inner io))))"
    and slot: "slot_at io 0 = \<lparr> slot_id = 0, slot_sequenceid = seq, usable = True \<rparr>"
    and bs: "transport io = (\<lambda>ps. Ok (connect_script ! (length ps - 1)))"
    and script: "connect_script ! length (issued io) = compound_reply status_OK []
      ((op_u32 OpCode.Sequence, status_OK, sequence_body (replicate 16 3) seq 0 0 0 0) # rs)" "length rs < u32_max"
    and dec: "decode (connect_script ! length (issued io)) = Ok v"
  shows "\<exists>io'. compound_decode tag ops decode io = (Ok v, io') \<and> keeps io io' \<and> length (issued io') = Suc (length (issued io)) \<and>
    fatal_sequence_flags (shared (inner io')) = 0 \<and> 0 < length (slots (sh_slots (shared (inner io')))) \<and>
    slot_at io' 0 = \<lparr> slot_id = 0, slot_sequenceid = seq + 1, usable = True \<rparr>"
proof -
  have sid: "ns_sessionid (inner io) = replicate 16 3"
    using assms(1,2) by (auto simp: keeps_def new_session_def Let_def)
  obtain p where v: "validate_compound_request tag ops (inner io) = Ok ()"
    and p: "encode_compound_with_sequence tag \<lparr> sessionid = ns_sessionid (inner io), sequenceid = seq, slotid = 0,
      highest_slotid = 0, cachethis = False \<rparr> ops = Some p"
    using connect_session_request [OF assms(1-3) req, of seq] by blast
  let ?bs = "connect_script ! length (issued io)"
  have "decode_sequence_result ?bs (ns_sessionid (inner io)) seq 0 =
      Ok \<lparr> seq_highest_slotid = 0, seq_target_highest_slotid = 0, seq_status_flags = 0 \<rparr>"
    unfolding script(1) sid using decode_sequence_result_wire [of "[]" rs "replicate 16 3"] script(2) by simp
  moreover have "transport io (map req_payload (issued io) @ [p]) = Ok ?bs" using bs by simp
  ultimately obtain io' where raw: "compound_raw_once tag ops io = (Ok ?bs, io')" "keeps io io'"
    "length (issued io') = Suc (length (issued io))" "fatal_sequence_flags (shared (inner io')) = 0"
    "slot_at io' 0 = \<lparr> slot_id = 0, slot_sequenceid = seq + 1, usable = True \<rparr>"
    "0 < length (slots (sh_slots (shared (inner io'))))"
    using raw_once_confirmed [of tag ops io "slot_at io 0" p ?bs] v p assms(6-9) slot by fastforce
  have "compound_decode_detailed tag ops decode True 0 io = (Ok v, 0, io')"
    using raw(1) dec by (subst compound_decode_detailed.simps) simp
  then show ?thesis using raw by (auto simp: compound_decode_def)
qed

lemma connect_script_decodes:
  "decode_no_result_compound (connect_script ! 2) OpCode.ReclaimComplete = Ok ()"
  "decode_getfh_compound (connect_script ! 3) OpCode.PutRootFh 0 = Ok [9]"
proof -
  have h: "decode_file_handle (opaque_wire [9] @ d) = (Ok [9], d)" for d by (rule decode_file_handle_wire) simp
  show "decode_no_result_compound (connect_script ! 2) OpCode.ReclaimComplete = Ok ()"
    by (simp add: connect_script_def decode_no_result_compound_def with_replies_wire u32_max_def and_then_def
        walk_sequence_wire advance_wire advance_wire [where rest = "[]", simplified] walk_finish_def sequence_body_def
        del: op_u32.simps)
  show "decode_getfh_compound (connect_script ! 3) OpCode.PutRootFh 0 = Ok [9]"
    by (simp add: connect_script_def decode_getfh_compound_def with_replies_wire u32_max_def and_then_def
        walk_sequence_wire advance_wire walk_getfh_def
        walk_result_wire [where decode = decode_file_handle and body = "opaque_wire [9]" and rest = "[]", simplified, OF _ _ h [of "[]", simplified]]
        walk_finish_def require_result_def sequence_body_def del: op_u32.simps)
qed


end
