(* ===== verification/Rpc_Calls.thy ===== *)
theory Rpc_Calls
  imports Rpc_Wire
begin

text \<open>
  The RPC client as concurrent tasks (\<open>src/rpc.rs\<close>): any number of calls
  (\<open>RpcClient::call_with_timeout\<close>), the reader task (\<open>read_loop\<close>) and the writer task (\<open>write_loop\<close>)
  share the map of pending calls, the queue of requests and the closed flag. Each function
  \<open>call_step\<close>, \<open>reader_step\<close> and \<open>writer_step\<close> performs the next access of its task to this state, so
  that \<open>rpc_step\<close> interleaves the tasks access by access; a critical section of the map's mutex is
  one access. The stream from the server is an arbitrary script of chunks, the behaviour of the
  socket under a write an arbitrary list of accepted lengths, and the loads of the record limit
  during a read any values below the limit at its start.
\<close>

subsection \<open>State\<close>

text \<open>
  A call is identified by a number. \<open>Leaving\<close> is the return of a call, or its cancellation, with the
  registration still to be dropped; the result of a cancelled call is \<open>None\<close>.
\<close>

datatype CallPhase =
    CallIdle
  | Entering
  | Numbering
  | Renumbering
  | Inserting u32
  | Registered u32
  | Enqueuing u32 RpcRequest
  | Enqueued u32
  | Awaiting u32
  | Leaving u32 "bytes result option"
  | Returned "bytes result option"

datatype CallEvent = Proceed | Expire | Cancel

text \<open>The reply channel of a call: its sender is used once or dropped.\<close>

datatype Oneshot = Unresolved | Resolved "bytes result" | SenderDropped

datatype ReaderPhase =
    Reading
  | Received bytes
  | Delivering nat u32 bytes
  | ReaderFailing Error
  | ReaderExiting
  | ReaderStopped

datatype WriterPhase =
    Receiving
  | Collecting "(nat \<times> RpcRequest) list"
  | Writing "(nat \<times> RpcRequest) list"
  | WriterFailing Error
  | WriterDropping
  | WriterStopped

record CallArgs =
  call_program :: u32
  call_version :: u32
  call_procedure :: u32
  call_payload :: RpcPayload
  call_timeout :: "duration option"

text \<open>
  \<open>PendingMap\<close>: the transaction id, the call that owns the sender, and whether the sender is still in
  the entry. Below the shared state of \<open>RpcClientInner\<close> are the tasks and four logs: the transaction
  ids given to calls, the requests accepted by the queue, the requests handed to the socket, and the records
  the reader received.
\<close>

record RpcWorld =
  client_auth :: RpcClientAuth
  call_args :: "nat \<Rightarrow> CallArgs"
  queue_capacity :: usize
  display :: "Error \<Rightarrow> string"
  pending_calls :: "(u32 \<times> nat \<times> bool) list"
  xid_counter :: u32
  transport_closed :: bool
  max_response_bytes :: usize
  request_queue :: "(nat \<times> RpcRequest) list"
  receiver_dropped :: bool
  oneshot :: "nat \<Rightarrow> Oneshot"
  call_phase :: "nat \<Rightarrow> CallPhase"
  reader_phase :: ReaderPhase
  incoming :: reader
  writer_phase :: WriterPhase
  wire :: bytes
  call_xid :: "nat \<Rightarrow> u32"
  accepted_requests :: "(nat \<times> RpcRequest) list"
  handed_requests :: "(nat \<times> RpcRequest) list"
  received_records :: "bytes list"

definition rpc_transport_stopped_error :: Error where
  "rpc_transport_stopped_error = ConnectionLost ''RPC transport is closed''"

definition rpc_request_not_sent_error :: Error where
  "rpc_request_not_sent_error = request_not_sent rpc_transport_stopped_error"

definition at_phase :: "nat \<Rightarrow> CallPhase \<Rightarrow> RpcWorld \<Rightarrow> RpcWorld" where
  "at_phase c p w = w\<lparr> call_phase := (call_phase w)(c := p) \<rparr>"

subsection \<open>The map of pending calls\<close>

definition try_insert :: "u32 \<Rightarrow> nat \<Rightarrow> RpcWorld \<Rightarrow> RpcWorld option" where
  "try_insert xid c w =
    (if xid \<in> fst ` set (pending_calls w) then None
     else Some (w\<lparr> pending_calls := (xid, c, True) # pending_calls w, oneshot := (oneshot w)(c := Unresolved) \<rparr>))"

text \<open>
  \<open>Drop for PendingRegistration\<close> removes whatever entry the map has under the transaction id; a
  sender in that entry is dropped with it.
\<close>

definition drop_registration :: "u32 \<Rightarrow> RpcWorld \<Rightarrow> RpcWorld" where
  "drop_registration xid w =
    w\<lparr> pending_calls := filter (\<lambda>(x, _). x \<noteq> xid) (pending_calls w),
       oneshot := (\<lambda>c. if (xid, c, True) \<in> set (pending_calls w) then SenderDropped else oneshot w c) \<rparr>"

definition take_sender :: "u32 \<Rightarrow> RpcWorld \<Rightarrow> nat option \<times> RpcWorld" where
  "take_sender xid w = (case map_of (pending_calls w) xid of
     Some (c, True) \<Rightarrow>
       (Some c, w\<lparr> pending_calls := map (\<lambda>(x, c, tx). (x, c, tx \<and> x \<noteq> xid)) (pending_calls w) \<rparr>)
   | _ \<Rightarrow> (None, w))"

definition fail_all :: "Error \<Rightarrow> RpcWorld \<Rightarrow> RpcWorld" where
  "fail_all err w =
    w\<lparr> pending_calls := [],
       oneshot := (\<lambda>c. if list_ex (\<lambda>(_, c', tx). c' = c \<and> tx) (pending_calls w)
                      then Resolved (Err (ConnectionLost (display w err))) else oneshot w c) \<rparr>"

subsection \<open>Calls\<close>

text \<open>\<open>next_xid\<close> increments the counter once, and a second time when it reached zero.\<close>

definition call_step :: "CallEvent \<Rightarrow> nat \<Rightarrow> RpcWorld \<Rightarrow> RpcWorld option" where
  "call_step ev c w = (case (call_phase w c, ev) of
     (CallIdle, Proceed) \<Rightarrow> Some (at_phase c Entering w)
   | (Entering, Proceed) \<Rightarrow>
       Some (at_phase c (if transport_closed w then Returned (Some (Err rpc_request_not_sent_error)) else Numbering) w)
   | (Numbering, Proceed) \<Rightarrow>
       (let xid = xid_counter w + 1 in
        Some (at_phase c (if xid = 0 then Renumbering else Inserting xid) (w\<lparr> xid_counter := xid \<rparr>)))
   | (Renumbering, Proceed) \<Rightarrow>
       (let xid = xid_counter w + 1 in Some (at_phase c (Inserting xid) (w\<lparr> xid_counter := xid \<rparr>)))
   | (Inserting xid, Proceed) \<Rightarrow>
       (case try_insert xid c w of
          None \<Rightarrow> Some (at_phase c Numbering w)
        | Some w \<Rightarrow> Some (at_phase c (Registered xid) (w\<lparr> call_xid := (call_xid w)(c := xid) \<rparr>)))
   | (Registered xid, Proceed) \<Rightarrow>
       (let a = call_args w c;
            request = encode_call (client_auth w) xid (call_program a) (call_version a) (call_procedure a) (call_payload a) in
        Some (at_phase c (if transport_closed w then Leaving xid (Some (Err rpc_request_not_sent_error))
                          else Enqueuing xid request) w))
   | (Enqueuing xid request, Proceed) \<Rightarrow>
       if receiver_dropped w then Some (at_phase c (Leaving xid (Some (Err rpc_request_not_sent_error))) w)
       else if length (request_queue w) < queue_capacity w
       then Some (at_phase c (Enqueued xid)
              (w\<lparr> request_queue := request_queue w @ [(c, request)],
                  accepted_requests := accepted_requests w @ [(c, request)] \<rparr>))
       else None
   | (Enqueuing xid request, Cancel) \<Rightarrow> Some (at_phase c (Leaving xid None) w)
   | (Enqueued xid, Proceed) \<Rightarrow>
       Some (at_phase c (if transport_closed w then Leaving xid (Some (Err rpc_transport_stopped_error))
                         else Awaiting xid) w)
   | (Awaiting xid, Proceed) \<Rightarrow>
       (case oneshot w c of
          Unresolved \<Rightarrow> None
        | Resolved r \<Rightarrow> Some (at_phase c (Leaving xid (Some r)) w)
        | SenderDropped \<Rightarrow>
            Some (at_phase c (Leaving xid (Some (Err (Rpc ''RPC reader task stopped before reply arrived'')))) w))
   | (Awaiting xid, Expire) \<Rightarrow>
       (case (oneshot w c, call_timeout (call_args w c)) of
          (Unresolved, Some timeout) \<Rightarrow> Some (at_phase c (Leaving xid (Some (Err (Timeout timeout)))) w)
        | _ \<Rightarrow> None)
   | (Awaiting xid, Cancel) \<Rightarrow> Some (at_phase c (Leaving xid None) w)
   | (Leaving xid r, Proceed) \<Rightarrow> Some (at_phase c (Returned r) (drop_registration xid w))
   | _ \<Rightarrow> None)"

subsection \<open>The reader and the writer\<close>

text \<open>
  The closed flag is set in the access that ends the loop, before \<open>fail_all\<close>. A panic would end the
  reader or the writer at once, with its part of the queue.
\<close>

definition reader_step :: "(nat \<Rightarrow> usize) \<Rightarrow> RpcWorld \<Rightarrow> RpcWorld option" where
  "reader_step limits w = (case reader_phase w of
     Reading \<Rightarrow>
       (case read_record limits (incoming w) of
          (Ok response, r) \<Rightarrow>
            Some (w\<lparr> incoming := r, received_records := received_records w @ [response], reader_phase := Received response \<rparr>)
        | (Err e, r) \<Rightarrow> Some (w\<lparr> incoming := r, transport_closed := True, reader_phase := ReaderFailing e \<rparr>)
        | (Panic, r) \<Rightarrow> Some (w\<lparr> incoming := r, reader_phase := ReaderStopped \<rparr>))
   | Received response \<Rightarrow>
       (case peek_xid response of
          Ok xid \<Rightarrow>
            (case take_sender xid w of
               (Some c, w) \<Rightarrow> Some (w\<lparr> reader_phase := Delivering c xid response \<rparr>)
             | (None, w) \<Rightarrow> Some (w\<lparr> reader_phase := Reading \<rparr>))
        | Err e \<Rightarrow> Some (w\<lparr> transport_closed := True, reader_phase := ReaderFailing e \<rparr>)
        | Panic \<Rightarrow> Some (w\<lparr> reader_phase := ReaderStopped \<rparr>))
   | Delivering c xid response \<Rightarrow>
       Some (w\<lparr> oneshot := (oneshot w)(c := Resolved (decode_reply xid response)), reader_phase := Reading \<rparr>)
   | ReaderFailing e \<Rightarrow> Some ((fail_all e w)\<lparr> reader_phase := ReaderExiting \<rparr>)
   | ReaderExiting \<Rightarrow> Some (w\<lparr> transport_closed := True, reader_phase := ReaderStopped \<rparr>)
   | ReaderStopped \<Rightarrow> None)"

definition writer_step :: "nat list \<Rightarrow> RpcWorld \<Rightarrow> RpcWorld option" where
  "writer_step accepts w = (case writer_phase w of
     Receiving \<Rightarrow>
       (case request_queue w of
          [] \<Rightarrow> None
        | q # qs \<Rightarrow> Some (w\<lparr> request_queue := qs, writer_phase := Collecting [q] \<rparr>))
   | Collecting batch \<Rightarrow>
       if length batch < MAX_WRITE_BATCH_RECORDS
       then (case request_queue w of
               [] \<Rightarrow> Some (w\<lparr> writer_phase := Writing batch \<rparr>)
             | q # qs \<Rightarrow> Some (w\<lparr> request_queue := qs, writer_phase := Collecting (batch @ [q]) \<rparr>))
       else Some (w\<lparr> writer_phase := Writing batch \<rparr>)
   | Writing batch \<Rightarrow>
       (let w' = w\<lparr> handed_requests := handed_requests w @ batch \<rparr> in
        case write_record_batch accepts (map snd batch) (auth_body (client_auth w)) (auth_padding_len (client_auth w)) of
          (Ok _, out) \<Rightarrow> Some (w'\<lparr> wire := wire w @ out, writer_phase := Receiving \<rparr>)
        | (Err e, out) \<Rightarrow>
            Some (w'\<lparr> wire := wire w @ out, transport_closed := True, writer_phase := WriterFailing e \<rparr>)
        | (Panic, out) \<Rightarrow> Some (w'\<lparr> wire := wire w @ out, writer_phase := WriterDropping \<rparr>))
   | WriterFailing e \<Rightarrow> Some ((fail_all e w)\<lparr> writer_phase := WriterDropping \<rparr>)
   | WriterDropping \<Rightarrow> Some (w\<lparr> request_queue := [], receiver_dropped := True, writer_phase := WriterStopped \<rparr>)
   | WriterStopped \<Rightarrow> None)"

definition reduce_max_response_bytes :: "usize \<Rightarrow> RpcWorld \<Rightarrow> RpcWorld" where
  "reduce_max_response_bytes n w = w\<lparr> max_response_bytes := min (max_response_bytes w) n \<rparr>"

inductive rpc_step :: "RpcWorld \<Rightarrow> RpcWorld \<Rightarrow> bool" where
  a_call: "call_step ev c w = Some w' \<Longrightarrow> rpc_step w w'"
| the_reader: "reader_step limits w = Some w' \<Longrightarrow> (\<forall>k. limits k \<le> max_response_bytes w) \<Longrightarrow> rpc_step w w'"
| the_writer: "writer_step accepts w = Some w' \<Longrightarrow> rpc_step w w'"
| a_reduction: "rpc_step w (reduce_max_response_bytes n w)"

text \<open>\<open>RpcClient::connect\<close> once the transport is up, for the calls and the stream to come.\<close>

definition rpc_connected ::
  "RpcClientAuth \<Rightarrow> u32 \<Rightarrow> usize \<Rightarrow> usize \<Rightarrow> (Error \<Rightarrow> string) \<Rightarrow> (nat \<Rightarrow> CallArgs) \<Rightarrow> reader \<Rightarrow> RpcWorld" where
  "rpc_connected rpc stamp limit pending_capacity show_error args stream =
    \<lparr> client_auth = rpc, call_args = args, queue_capacity = max pending_capacity 1 * 2, display = show_error,
      pending_calls = [], xid_counter = stamp, transport_closed = False, max_response_bytes = limit,
      request_queue = [], receiver_dropped = False, oneshot = (\<lambda>_. Unresolved), call_phase = (\<lambda>_. CallIdle),
      reader_phase = Reading, incoming = stream, writer_phase = Receiving, wire = [], call_xid = (\<lambda>_. 0),
      accepted_requests = [], handed_requests = [], received_records = [] \<rparr>"

definition rpc_init :: "usize \<Rightarrow> RpcWorld \<Rightarrow> bool" where
  "rpc_init limit w \<longleftrightarrow> limit \<le> usize_max \<and> client_auth_wf (client_auth w) \<and>
     (\<forall>c. payload_wf (call_payload (call_args w c))) \<and>
     (\<exists>rpc stamp pending_capacity show_error args stream.
        w = rpc_connected rpc stamp limit pending_capacity show_error args stream)"

subsection \<open>The accesses of each task\<close>

lemma call_step_cases:
  assumes "call_step ev c w = Some w'"
  obtains (start) "call_phase w c = CallIdle" "w' = at_phase c Entering w"
  | (refused) "call_phase w c = Entering" "transport_closed w"
      "w' = at_phase c (Returned (Some (Err rpc_request_not_sent_error))) w"
  | (entered) "call_phase w c = Entering" "\<not> transport_closed w" "w' = at_phase c Numbering w"
  | (number) p where "call_phase w c \<in> {Numbering, Renumbering}" "p \<in> {Renumbering, Inserting (xid_counter w + 1)}"
      "w' = at_phase c p (w\<lparr> xid_counter := xid_counter w + 1 \<rparr>)"
  | (taken) xid where "call_phase w c = Inserting xid" "xid \<in> fst ` set (pending_calls w)" "w' = at_phase c Numbering w"
  | (insert) xid where "call_phase w c = Inserting xid" "xid \<notin> fst ` set (pending_calls w)"
      "w' = at_phase c (Registered xid) (w\<lparr> pending_calls := (xid, c, True) # pending_calls w,
         oneshot := (oneshot w)(c := Unresolved), call_xid := (call_xid w)(c := xid) \<rparr>)"
  | (unsent) xid where "call_phase w c = Registered xid" "transport_closed w"
      "w' = at_phase c (Leaving xid (Some (Err rpc_request_not_sent_error))) w"
  | (encoded) xid where "call_phase w c = Registered xid" "\<not> transport_closed w"
      "w' = at_phase c (Enqueuing xid (encode_call (client_auth w) xid (call_program (call_args w c))
         (call_version (call_args w c)) (call_procedure (call_args w c)) (call_payload (call_args w c)))) w"
  | (disconnected) xid request where "call_phase w c = Enqueuing xid request" "receiver_dropped w"
      "w' = at_phase c (Leaving xid (Some (Err rpc_request_not_sent_error))) w"
  | (enqueue) xid request where "call_phase w c = Enqueuing xid request" "\<not> receiver_dropped w"
      "length (request_queue w) < queue_capacity w"
      "w' = at_phase c (Enqueued xid) (w\<lparr> request_queue := request_queue w @ [(c, request)],
         accepted_requests := accepted_requests w @ [(c, request)] \<rparr>)"
  | (cancelled) xid where "(\<exists>request. call_phase w c = Enqueuing xid request) \<or> call_phase w c = Awaiting xid"
      "w' = at_phase c (Leaving xid None) w"
  | (stopped) xid where "call_phase w c = Enqueued xid" "transport_closed w"
      "w' = at_phase c (Leaving xid (Some (Err rpc_transport_stopped_error))) w"
  | (await) xid where "call_phase w c = Enqueued xid" "\<not> transport_closed w" "w' = at_phase c (Awaiting xid) w"
  | (answered) xid r where "call_phase w c = Awaiting xid" "oneshot w c = Resolved r"
      "w' = at_phase c (Leaving xid (Some r)) w"
  | (abandoned) xid where "call_phase w c = Awaiting xid" "oneshot w c = SenderDropped"
      "w' = at_phase c (Leaving xid (Some (Err (Rpc ''RPC reader task stopped before reply arrived'')))) w"
  | (expired) xid t where "call_phase w c = Awaiting xid" "oneshot w c = Unresolved"
      "w' = at_phase c (Leaving xid (Some (Err (Timeout t)))) w"
  | (leave) xid r where "call_phase w c = Leaving xid r" "w' = at_phase c (Returned r) (drop_registration xid w)"
  using assms unfolding call_step_def try_insert_def
  by (simp split: CallPhase.splits CallEvent.splits option.splits if_splits Oneshot.splits prod.splits add: Let_def; fastforce)

lemma read_fill_no_panic: "fst (read_fill target out r) \<noteq> Panic"
  by (induction target out r rule: read_fill.induct) (subst read_fill.simps, auto split: prod.splits)

lemma reader_read_u32_no_panic: "fst (reader_read_u32 r) \<noteq> Panic"
  using read_fill_no_panic [of 4 "[]" r] by (auto simp: reader_read_u32_def split: prod.splits outcome.splits)

lemma read_exact_into_buf_no_panic: "fst (read_exact_into_buf out n r) \<noteq> Panic"
  using read_fill_no_panic [of "length out + n" out r]
  by (auto simp: read_exact_into_buf_def checked_add_def split: option.splits if_splits)

lemma read_record_no_panic: "fst (read_record limits r) \<noteq> Panic"
proof -
  have "fst (read_record_loop limits k out r) \<noteq> Panic" for k out
  proof (induction limits k out r rule: read_record_loop.induct)
    case (1 limits k out r)
    then show ?case
      using reader_read_u32_no_panic [of r] read_exact_into_buf_no_panic
      by (subst read_record_loop.simps) (auto simp: Let_def split: prod.splits outcome.splits; metis fst_conv)
  qed
  then show ?thesis by (simp add: read_record_def)
qed

lemma write_record_batch_no_panic: "fst (write_record_batch accepts batch body padding) \<noteq> Panic"
proof -
  have "fst (write_vectored_loop accepts ss out) \<noteq> Panic" for ss out
    by (induction accepts ss out rule: write_vectored_loop.induct) (auto simp: Let_def)
  then show ?thesis by (simp add: write_record_batch_def Let_def)
qed

lemma reader_step_cases:
  assumes "reader_step limits w = Some w'"
  obtains (received) response r where "reader_phase w = Reading" "read_record limits (incoming w) = (Ok response, r)"
      "w' = w\<lparr> incoming := r, received_records := received_records w @ [response], reader_phase := Received response \<rparr>"
  | (failed) r e where "reader_phase w = Reading \<or> (\<exists>response. reader_phase w = Received response)"
      "w' = w\<lparr> incoming := r, transport_closed := True, reader_phase := ReaderFailing e \<rparr>"
  | (taken) response xid c where "reader_phase w = Received response" "peek_xid response = Ok xid"
      "map_of (pending_calls w) xid = Some (c, True)"
      "w' = w\<lparr> pending_calls := map (\<lambda>(x, c, tx). (x, c, tx \<and> x \<noteq> xid)) (pending_calls w),
         reader_phase := Delivering c xid response \<rparr>"
  | (ignored) response where "reader_phase w = Received response" "w' = w\<lparr> reader_phase := Reading \<rparr>"
  | (delivered) c xid response where "reader_phase w = Delivering c xid response"
      "w' = w\<lparr> oneshot := (oneshot w)(c := Resolved (decode_reply xid response)), reader_phase := Reading \<rparr>"
  | (failed_all) e where "reader_phase w = ReaderFailing e" "w' = (fail_all e w)\<lparr> reader_phase := ReaderExiting \<rparr>"
  | (exited) "reader_phase w = ReaderExiting" "w' = w\<lparr> transport_closed := True, reader_phase := ReaderStopped \<rparr>"
proof -
  show thesis
  proof (cases "reader_phase w")
    case Reading
    then show thesis using assms that(1,2) read_record_no_panic [of limits "incoming w"]
      by (auto simp: reader_step_def split: prod.splits outcome.splits)
  next
    case (Received response)
    then show thesis using assms that(2) [where r = "incoming w"] that(3,4)
      by (auto simp: reader_step_def take_sender_def peek_xid_def split: outcome.splits option.splits if_splits bool.splits prod.splits)
  next
    case (Delivering c xid response)
    then show thesis using assms that(5) by (simp add: reader_step_def)
  next
    case (ReaderFailing e)
    then show thesis using assms that(6) by (simp add: reader_step_def)
  next
    case ReaderExiting
    then show thesis using assms that(7) by (simp add: reader_step_def)
  next
    case ReaderStopped
    then show thesis using assms by (simp add: reader_step_def)
  qed
qed

lemma writer_step_cases:
  assumes "writer_step accepts w = Some w'"
  obtains (received) q qs where "writer_phase w = Receiving" "request_queue w = q # qs"
      "w' = w\<lparr> request_queue := qs, writer_phase := Collecting [q] \<rparr>"
  | (collected) batch q qs where "writer_phase w = Collecting batch" "request_queue w = q # qs"
      "length batch < MAX_WRITE_BATCH_RECORDS" "w' = w\<lparr> request_queue := qs, writer_phase := Collecting (batch @ [q]) \<rparr>"
  | (full) batch where "writer_phase w = Collecting batch" "w' = w\<lparr> writer_phase := Writing batch \<rparr>"
  | (written) batch out where "writer_phase w = Writing batch"
      "write_record_batch accepts (map snd batch) (auth_body (client_auth w)) (auth_padding_len (client_auth w)) = (Ok (), out)"
      "w' = w\<lparr> handed_requests := handed_requests w @ batch, wire := wire w @ out, writer_phase := Receiving \<rparr>"
  | (failed) batch e out where "writer_phase w = Writing batch"
      "w' = w\<lparr> handed_requests := handed_requests w @ batch, wire := wire w @ out, transport_closed := True,
         writer_phase := WriterFailing e \<rparr>"
  | (failed_all) e where "writer_phase w = WriterFailing e" "w' = (fail_all e w)\<lparr> writer_phase := WriterDropping \<rparr>"
  | (dropped) "writer_phase w = WriterDropping"
      "w' = w\<lparr> request_queue := [], receiver_dropped := True, writer_phase := WriterStopped \<rparr>"
proof (cases "writer_phase w")
  case (Collecting batch)
  then show thesis using assms that(2,3) by (auto simp: writer_step_def split: list.splits if_splits)
next
  case (Writing batch)
  then show thesis
    using assms that(4,5) write_record_batch_no_panic [of accepts "map snd batch" "auth_body (client_auth w)" "auth_padding_len (client_auth w)"]
    by (auto simp: writer_step_def Let_def split: prod.splits outcome.splits)
next
  case Receiving
  then show thesis using assms that(1) by (simp add: writer_step_def split: list.splits)
next
  case (WriterFailing e)
  then show thesis using assms that(6) by (simp add: writer_step_def)
next
  case WriterDropping
  then show thesis using assms that(7) by (simp add: writer_step_def)
next
  case WriterStopped
  then show thesis using assms by (simp add: writer_step_def)
qed

subsection \<open>The map of pending calls, as an invariant\<close>

fun registered_xid :: "CallPhase \<Rightarrow> u32 option" where
  "registered_xid (Registered xid) = Some xid"
| "registered_xid (Enqueuing xid request) = Some xid"
| "registered_xid (Enqueued xid) = Some xid"
| "registered_xid (Awaiting xid) = Some xid"
| "registered_xid (Leaving xid r) = Some xid"
| "registered_xid _ = None"

text \<open>The call passed its second check of the closed flag and has not returned.\<close>

fun enlisted :: "CallPhase \<Rightarrow> bool" where
  "enlisted (Enqueuing xid request) = True"
| "enlisted (Enqueued xid) = True"
| "enlisted (Awaiting xid) = True"
| "enlisted _ = False"

fun before_registration :: "CallPhase \<Rightarrow> bool" where
  "before_registration CallIdle = True"
| "before_registration Entering = True"
| "before_registration Numbering = True"
| "before_registration Renumbering = True"
| "before_registration (Inserting xid) = True"
| "before_registration _ = False"

definition failing :: "RpcWorld \<Rightarrow> bool" where
  "failing w \<longleftrightarrow> (\<exists>e. reader_phase w = ReaderFailing e) \<or> (\<exists>e. writer_phase w = WriterFailing e)"

text \<open>A reply for the call is there, or a task that has its sender, or will find it, is going to send one.\<close>

definition served :: "RpcWorld \<Rightarrow> nat \<Rightarrow> u32 \<Rightarrow> bool" where
  "served w c x \<longleftrightarrow> (\<exists>r. oneshot w c = Resolved r) \<or> (\<exists>response. reader_phase w = Delivering c x response) \<or>
     (x, c, True) \<in> set (pending_calls w) \<and> (\<not> transport_closed w \<or> failing w)"

definition pending_inv :: "RpcWorld \<Rightarrow> bool" where
  "pending_inv w \<longleftrightarrow>
     distinct (map fst (pending_calls w)) \<and>
     (\<forall>x c b. (x, c, b) \<in> set (pending_calls w) \<longrightarrow> registered_xid (call_phase w c) = Some x) \<and>
     (\<forall>c x. registered_xid (call_phase w c) = Some x \<longrightarrow>
        (\<exists>b. (x, c, b) \<in> set (pending_calls w)) \<or>
        transport_closed w \<and> (\<forall>c' b. (x, c', b) \<in> set (pending_calls w) \<longrightarrow> \<not> enlisted (call_phase w c')))"

definition sender_inv :: "RpcWorld \<Rightarrow> bool" where
  "sender_inv w \<longleftrightarrow>
     (\<forall>x c. (x, c, True) \<in> set (pending_calls w) \<longrightarrow> oneshot w c = Unresolved) \<and>
     (\<forall>c x response. reader_phase w = Delivering c x response \<longrightarrow> \<not> before_registration (call_phase w c) \<and>
        oneshot w c = Unresolved \<and> (\<forall>x'. (x', c, True) \<notin> set (pending_calls w)))"

definition served_inv :: "RpcWorld \<Rightarrow> bool" where
  "served_inv w \<longleftrightarrow>
     (\<forall>c x. registered_xid (call_phase w c) = Some x \<longrightarrow>
        served w c x \<or> (\<exists>r. call_phase w c = Leaving x r) \<or> transport_closed w \<and> \<not> enlisted (call_phase w c)) \<and>
     (reader_phase w \<in> {ReaderExiting, ReaderStopped} \<or> (\<exists>e. reader_phase w = ReaderFailing e) \<longrightarrow> transport_closed w) \<and>
     (writer_phase w \<in> {WriterDropping, WriterStopped} \<or> (\<exists>e. writer_phase w = WriterFailing e) \<longrightarrow> transport_closed w)"

lemma at_phase_simps [simp]:
  "call_phase (at_phase c p w) = (call_phase w)(c := p)" "pending_calls (at_phase c p w) = pending_calls w"
  "transport_closed (at_phase c p w) = transport_closed w" "oneshot (at_phase c p w) = oneshot w"
  "reader_phase (at_phase c p w) = reader_phase w" "writer_phase (at_phase c p w) = writer_phase w"
  "request_queue (at_phase c p w) = request_queue w" "accepted_requests (at_phase c p w) = accepted_requests w"
  "handed_requests (at_phase c p w) = handed_requests w" "received_records (at_phase c p w) = received_records w"
  "receiver_dropped (at_phase c p w) = receiver_dropped w" "call_xid (at_phase c p w) = call_xid w"
  "client_auth (at_phase c p w) = client_auth w" "call_args (at_phase c p w) = call_args w"
  "max_response_bytes (at_phase c p w) = max_response_bytes w" "wire (at_phase c p w) = wire w"
  "queue_capacity (at_phase c p w) = queue_capacity w"
  by (simp_all add: at_phase_def)

lemma drop_registration_simps [simp]:
  "call_phase (drop_registration x w) = call_phase w" "transport_closed (drop_registration x w) = transport_closed w"
  "reader_phase (drop_registration x w) = reader_phase w" "writer_phase (drop_registration x w) = writer_phase w"
  "request_queue (drop_registration x w) = request_queue w" "accepted_requests (drop_registration x w) = accepted_requests w"
  "handed_requests (drop_registration x w) = handed_requests w" "received_records (drop_registration x w) = received_records w"
  "receiver_dropped (drop_registration x w) = receiver_dropped w" "call_xid (drop_registration x w) = call_xid w"
  "client_auth (drop_registration x w) = client_auth w" "call_args (drop_registration x w) = call_args w"
  "max_response_bytes (drop_registration x w) = max_response_bytes w" "wire (drop_registration x w) = wire w"
  "(y, e) \<in> set (pending_calls (drop_registration x w)) \<longleftrightarrow> (y, e) \<in> set (pending_calls w) \<and> y \<noteq> x"
  "oneshot (drop_registration x w) c = (if (x, c, True) \<in> set (pending_calls w) then SenderDropped else oneshot w c)"
  by (auto simp: drop_registration_def)

lemma fail_all_simps [simp]:
  "call_phase (fail_all e w) = call_phase w" "transport_closed (fail_all e w) = transport_closed w"
  "reader_phase (fail_all e w) = reader_phase w" "writer_phase (fail_all e w) = writer_phase w"
  "request_queue (fail_all e w) = request_queue w" "accepted_requests (fail_all e w) = accepted_requests w"
  "handed_requests (fail_all e w) = handed_requests w" "received_records (fail_all e w) = received_records w"
  "receiver_dropped (fail_all e w) = receiver_dropped w" "call_xid (fail_all e w) = call_xid w"
  "client_auth (fail_all e w) = client_auth w" "call_args (fail_all e w) = call_args w"
  "max_response_bytes (fail_all e w) = max_response_bytes w" "wire (fail_all e w) = wire w"
  "pending_calls (fail_all e w) = []"
  "oneshot (fail_all e w) c = (if \<exists>x. (x, c, True) \<in> set (pending_calls w)
     then Resolved (Err (ConnectionLost (display w e))) else oneshot w c)"
  by (auto simp: fail_all_def list_ex_iff)

lemma taken_entries [simp]:
  "(y, c, b) \<in> set (map (\<lambda>(x, c, tx). (x, c, tx \<and> x \<noteq> xid)) ps) \<longleftrightarrow>
     (if y = xid then \<not> b \<and> (\<exists>b'. (y, c, b') \<in> set ps) else (y, c, b) \<in> set ps)"
  by (induction ps) (auto split: if_splits)

lemma taken_keys [simp]: "map fst (map (\<lambda>(x, c, tx). (x, c, tx \<and> x \<noteq> xid)) ps) = map fst ps"
  by (simp add: case_prod_beta)

lemma distinct_drop_registration: "distinct (map fst (pending_calls w)) \<Longrightarrow> distinct (map fst (pending_calls (drop_registration x w)))"
  by (simp add: drop_registration_def distinct_map_filter)

lemma registered_at_phase:
  "registered_xid p = registered_xid (call_phase w c) \<Longrightarrow>
     registered_xid (call_phase (at_phase c p w) c') = registered_xid (call_phase w c')"
  by simp

lemma pending_inv_at_phase:
  assumes inv: "pending_inv w" and reg: "registered_xid p = registered_xid (call_phase w c)"
    and com: "enlisted p \<longrightarrow> enlisted (call_phase w c) \<or> \<not> transport_closed w"
  shows "pending_inv (at_phase c p w)"
proof -
  have "enlisted (call_phase (at_phase c p w) c') \<longrightarrow> enlisted (call_phase w c') \<or> \<not> transport_closed w" for c'
    using com by simp
  then show ?thesis
    using inv unfolding pending_inv_def registered_at_phase [OF reg] by (simp del: fun_upd_apply) blast
qed

lemma pending_inv_cong:
  "pending_calls w' = pending_calls w \<Longrightarrow> transport_closed w' = transport_closed w \<Longrightarrow> call_phase w' = call_phase w \<Longrightarrow>
     pending_inv w' = pending_inv w"
  by (simp add: pending_inv_def)

lemma pending_entry: "pending_inv w \<Longrightarrow> (x, c, b) \<in> set (pending_calls w) \<Longrightarrow> registered_xid (call_phase w c) = Some x"
  unfolding pending_inv_def by blast

lemma pending_owner:
  assumes "pending_inv w" and "registered_xid (call_phase w c) = Some x"
  obtains b where "(x, c, b) \<in> set (pending_calls w)"
  | "transport_closed w" "\<And>c' b. (x, c', b) \<in> set (pending_calls w) \<Longrightarrow> \<not> enlisted (call_phase w c')"
  using assms unfolding pending_inv_def by blast

lemma pending_key: "pending_inv w \<Longrightarrow> (x, e) \<in> set (pending_calls w) \<Longrightarrow> (x, e') \<in> set (pending_calls w) \<Longrightarrow> e = e'"
  unfolding pending_inv_def by (blast dest: eq_key_imp_eq_value)

lemma pending_inv_call:
  assumes "call_step ev c w = Some w'" and inv: "pending_inv w"
  shows "pending_inv w'"
  using assms(1)
proof (cases rule: call_step_cases)
  case (insert xid)
  have new: "(x, c, b) \<notin> set (pending_calls w)" for x b
    using pending_entry [OF inv, of x c b] insert(1) by auto
  show ?thesis
    unfolding pending_inv_def
  proof (intro conjI allI impI)
    show "distinct (map fst (pending_calls w'))" using inv insert by (simp add: pending_inv_def)
    fix x c' b assume "(x, c', b) \<in> set (pending_calls w')"
    then show "registered_xid (call_phase w' c') = Some x"
      using insert new pending_entry [OF inv, of x c' b] by auto
  next
    fix c' x assume reg: "registered_xid (call_phase w' c') = Some x"
    show "(\<exists>b. (x, c', b) \<in> set (pending_calls w')) \<or>
      transport_closed w' \<and> (\<forall>c'' b. (x, c'', b) \<in> set (pending_calls w') \<longrightarrow> \<not> enlisted (call_phase w' c''))"
    proof (cases "c' = c")
      case True
      then show ?thesis using reg insert by auto
    next
      case False
      then have "registered_xid (call_phase w c') = Some x" using reg insert by simp
      then show ?thesis
        by (cases rule: pending_owner [OF inv]) (use insert in auto)
    qed
  qed
next
  case (leave xid r)
  show ?thesis
    unfolding pending_inv_def
  proof (intro conjI allI impI)
    show "distinct (map fst (pending_calls w'))"
      using inv leave distinct_drop_registration by (simp add: pending_inv_def)
    fix x c' b assume "(x, c', b) \<in> set (pending_calls w')"
    then show "registered_xid (call_phase w' c') = Some x"
      using leave pending_entry [OF inv, of x c' b] by auto
  next
    fix c' x assume reg: "registered_xid (call_phase w' c') = Some x"
    then have c': "c' \<noteq> c" "registered_xid (call_phase w c') = Some x" using leave by (auto split: if_splits)
    show "(\<exists>b. (x, c', b) \<in> set (pending_calls w')) \<or>
      transport_closed w' \<and> (\<forall>c'' b. (x, c'', b) \<in> set (pending_calls w') \<longrightarrow> \<not> enlisted (call_phase w' c''))"
    proof (cases "\<exists>b. (x, c', b) \<in> set (pending_calls w) \<and> x \<noteq> xid")
      case True
      then show ?thesis using leave by auto
    next
      case False
      show ?thesis
      proof (cases rule: pending_owner [OF inv c'(2)])
        case (1 b)
        then have x: "x = xid" using False by blast
        have "registered_xid (call_phase w c) = Some xid" using leave by simp
        then have "transport_closed w"
          by (cases rule: pending_owner [OF inv]) (use 1 x c'(1) pending_key [OF inv] in blast)+
        then show ?thesis using leave x by simp
      next
        case 2
        then show ?thesis using leave by (auto split: if_splits)
      qed
    qed
  qed
next
  case (number p)
  then show ?thesis using inv pending_inv_at_phase [of "w\<lparr> xid_counter := xid_counter w + 1 \<rparr>" p c]
    by (auto simp: pending_inv_cong [of "w\<lparr> xid_counter := xid_counter w + 1 \<rparr>" w])
next
  case (enqueue xid request)
  then show ?thesis using inv pending_inv_at_phase [of "w\<lparr> request_queue := request_queue w @ [(c, request)],
      accepted_requests := accepted_requests w @ [(c, request)] \<rparr>" "Enqueued xid" c]
    by (simp add: pending_inv_cong [of "w\<lparr> request_queue := _, accepted_requests := _ \<rparr>" w])
qed (use inv in \<open>auto intro!: pending_inv_at_phase\<close>)

lemma pending_inv_mono:
  assumes "pending_inv w" and "pending_calls w' = pending_calls w" and "call_phase w' = call_phase w"
    and "transport_closed w \<longrightarrow> transport_closed w'"
  shows "pending_inv w'"
  using assms unfolding pending_inv_def by metis

lemma pending_inv_drained:
  assumes "pending_calls w = []" and "transport_closed w"
  shows "pending_inv w"
  using assms by (simp add: pending_inv_def)

lemma closing_closed:
  "served_inv w \<Longrightarrow> reader_phase w = ReaderFailing e \<Longrightarrow> transport_closed w"
  "served_inv w \<Longrightarrow> writer_phase w = WriterFailing e \<Longrightarrow> transport_closed w"
  by (simp_all add: served_inv_def)

lemma pending_inv_reader:
  assumes "reader_step limits w = Some w'" and inv: "pending_inv w" "served_inv w"
  shows "pending_inv w'"
  using assms(1)
proof (cases rule: reader_step_cases)
  case (taken response xid c)
  have ex: "(\<exists>b. (x, c', b) \<in> set (pending_calls w')) \<longleftrightarrow> (\<exists>b. (x, c', b) \<in> set (pending_calls w))" for x c'
    using taken by (auto simp del: set_map)
  have "distinct (map fst (pending_calls w'))"
    using inv(1) taken by (simp add: pending_inv_def del: map_map)
  moreover have "registered_xid (call_phase w' c') = Some x" if "(x, c', b) \<in> set (pending_calls w')" for x c' b
    using ex [of x c'] that pending_entry [OF inv(1)] taken(4) by auto
  moreover have "(\<exists>b. (x, c', b) \<in> set (pending_calls w')) \<or>
      transport_closed w' \<and> (\<forall>c'' b. (x, c'', b) \<in> set (pending_calls w') \<longrightarrow> \<not> enlisted (call_phase w' c''))"
    if "registered_xid (call_phase w' c') = Some x" for c' x
  proof -
    have "registered_xid (call_phase w c') = Some x" using that taken by simp
    then show ?thesis by (cases rule: pending_owner [OF inv(1)]) (use ex taken(4) in auto)
  qed
  ultimately show ?thesis unfolding pending_inv_def by blast
next
  case (failed_all e)
  then show ?thesis using closing_closed [OF inv(2)] by (intro pending_inv_drained) simp_all
qed (use pending_inv_mono [OF inv(1)] in simp_all)

lemma pending_inv_writer:
  assumes "writer_step accepts w = Some w'" and inv: "pending_inv w" "served_inv w"
  shows "pending_inv w'"
  using assms(1)
proof (cases rule: writer_step_cases)
  case (failed_all e)
  then show ?thesis using closing_closed [OF inv(2)] by (intro pending_inv_drained) simp_all
qed (use pending_inv_mono [OF inv(1)] in simp_all)

text \<open>The sender of a call is in one place only.\<close>

lemma sender_inv_call:
  assumes "call_step ev c w = Some w'" and inv: "pending_inv w" "sender_inv w"
  shows "sender_inv w'"
  using assms(1)
proof (cases rule: call_step_cases)
  case (insert xid)
  have "(x, c, b) \<notin> set (pending_calls w)" for x b using pending_entry [OF inv(1), of x c b] insert(1) by auto
  then show ?thesis using insert inv(2) unfolding sender_inv_def by auto
next
  case (leave xid r)
  have one: "x = x'" if "(x, c', b) \<in> set (pending_calls w)" "(x', c', b') \<in> set (pending_calls w)" for x x' c' b b'
    using that pending_entry [OF inv(1)] by (metis option.inject)
  then show ?thesis using leave inv(2) unfolding sender_inv_def by (auto; blast)
qed (use inv(2) in \<open>auto simp: sender_inv_def\<close>)

lemma sender_inv_reader:
  assumes "reader_step limits w = Some w'" and inv: "pending_inv w" "sender_inv w"
  shows "sender_inv w'"
  using assms(1)
proof (cases rule: reader_step_cases)
  case (taken response xid c)
  have here: "(xid, c, True) \<in> set (pending_calls w)" using taken(3) by (rule map_of_SomeD)
  have one: "x = xid" if "(x, c, b) \<in> set (pending_calls w)" for x b
    using that here pending_entry [OF inv(1)] by (metis option.inject)
  have "\<not> before_registration (call_phase w c)"
    using pending_entry [OF inv(1) here] by (cases "call_phase w c") auto
  moreover have "(x, c', True) \<in> set (pending_calls w') \<longleftrightarrow> (x, c', True) \<in> set (pending_calls w) \<and> x \<noteq> xid" for x c'
    using taken(4) by (simp del: set_map)
  moreover have "oneshot w c = Unresolved" using here inv(2) unfolding sender_inv_def by blast
  moreover have "oneshot w' = oneshot w" "call_phase w' = call_phase w" "reader_phase w' = Delivering c xid response"
    using taken(4) by simp_all
  ultimately show ?thesis
    using inv(2) one unfolding sender_inv_def by (metis ReaderPhase.inject(2))
next
  case (failed_all e)
  then show ?thesis by (simp add: sender_inv_def)
next
  case (delivered c xid response)
  then show ?thesis using inv(2) unfolding sender_inv_def by simp
qed (use inv(2) in \<open>simp_all add: sender_inv_def\<close>)

lemma sender_inv_writer:
  assumes "writer_step accepts w = Some w'" and inv: "sender_inv w"
  shows "sender_inv w'"
  using assms(1) by (cases rule: writer_step_cases) (use inv in \<open>auto simp: sender_inv_def\<close>)

text \<open>No call is left without a task that serves it.\<close>

lemma served_cong:
  "oneshot w' c = oneshot w c \<Longrightarrow> reader_phase w' = reader_phase w \<Longrightarrow> writer_phase w' = writer_phase w \<Longrightarrow>
     transport_closed w' = transport_closed w \<Longrightarrow> ((x, c, True) \<in> set (pending_calls w') \<longleftrightarrow> (x, c, True) \<in> set (pending_calls w)) \<Longrightarrow>
     served w' c x = served w c x"
  by (simp add: served_def failing_def)

definition attended :: "RpcWorld \<Rightarrow> nat \<Rightarrow> u32 \<Rightarrow> bool" where
  "attended w c x \<longleftrightarrow> served w c x \<or> (\<exists>r. call_phase w c = Leaving x r) \<or>
     transport_closed w \<and> \<not> enlisted (call_phase w c)"

lemma served_invI:
  assumes "\<And>c x. registered_xid (call_phase w c) = Some x \<Longrightarrow> attended w c x"
    and "reader_phase w \<in> {ReaderExiting, ReaderStopped} \<or> (\<exists>e. reader_phase w = ReaderFailing e) \<longrightarrow> transport_closed w"
    and "writer_phase w \<in> {WriterDropping, WriterStopped} \<or> (\<exists>e. writer_phase w = WriterFailing e) \<longrightarrow> transport_closed w"
  shows "served_inv w"
  using assms unfolding served_inv_def attended_def by blast

lemma served_invD:
  assumes "served_inv w"
  shows "registered_xid (call_phase w c) = Some x \<Longrightarrow> attended w c x"
    and "reader_phase w \<in> {ReaderExiting, ReaderStopped} \<or> (\<exists>e. reader_phase w = ReaderFailing e) \<longrightarrow> transport_closed w"
    and "writer_phase w \<in> {WriterDropping, WriterStopped} \<or> (\<exists>e. writer_phase w = WriterFailing e) \<longrightarrow> transport_closed w"
  using assms unfolding served_inv_def attended_def by blast+

lemma served_inv_at_phase:
  assumes inv: "served_inv w" and reg: "registered_xid p = registered_xid (call_phase w c)"
    and "(\<exists>x r. p = Leaving x r) \<or> (\<forall>x. registered_xid p = Some x \<longrightarrow> \<not> transport_closed w \<or> enlisted (call_phase w c)) \<and>
      (\<nexists>x r. call_phase w c = Leaving x r)"
  shows "served_inv (at_phase c p w)"
proof (rule served_invI)
  fix c' x assume "registered_xid (call_phase (at_phase c p w) c') = Some x"
  then have att: "attended w c' x" using served_invD(1) [OF inv] registered_at_phase [OF reg] by simp
  have s: "served (at_phase c p w) c' x = served w c' x" by (rule served_cong) simp_all
  show "attended (at_phase c p w) c' x"
  proof (cases "c' = c")
    case True
    then show ?thesis using att s assms(2,3) \<open>registered_xid (call_phase (at_phase c p w) c') = Some x\<close>
      unfolding attended_def by auto
  next
    case False
    then show ?thesis using att s unfolding attended_def by simp
  qed
qed (use served_invD(2,3) [OF inv] in simp_all)

lemma served_inv_cong:
  assumes "served_inv w" and "call_phase w' = call_phase w" and "oneshot w' = oneshot w" and "reader_phase w' = reader_phase w"
    and "writer_phase w' = writer_phase w" and "transport_closed w' = transport_closed w" and "pending_calls w' = pending_calls w"
  shows "served_inv w'"
  using assms(1) by (simp add: served_inv_def served_def failing_def assms(2-))

lemma served_inv_call:
  assumes "call_step ev c w = Some w'" and inv: "pending_inv w" "sender_inv w" "served_inv w"
  shows "served_inv w'"
  using assms(1)
proof (cases rule: call_step_cases)
  case (insert xid)
  show ?thesis
  proof (rule served_invI)
    fix c' x assume reg: "registered_xid (call_phase w' c') = Some x"
    show "attended w' c' x"
    proof (cases "c' = c")
      case True
      then show ?thesis using insert reg by (auto simp: attended_def served_def)
    next
      case False
      then have "attended w c' x" using insert reg served_invD(1) [OF inv(3)] by simp
      then show ?thesis using insert False by (auto simp: attended_def served_def failing_def)
    qed
  qed (use served_invD(2,3) [OF inv(3)] insert in simp_all)
next
  case (leave xid r)
  show ?thesis
  proof (rule served_invI)
    fix c' x assume reg: "registered_xid (call_phase w' c') = Some x"
    then have c': "c' \<noteq> c" "registered_xid (call_phase w c') = Some x" using leave by (auto split: if_splits)
    then have att: "attended w c' x" using served_invD(1) [OF inv(3)] by simp
    have mine: "registered_xid (call_phase w c) = Some xid" using leave by simp
    have kept: "\<not> enlisted (call_phase w c') \<and> transport_closed w" if "(xid, c', True) \<in> set (pending_calls w)"
      by (cases rule: pending_owner [OF inv(1) mine]) (use that c'(1) pending_key [OF inv(1)] in blast)+
    have same: "oneshot w' c' = oneshot w c'" "(x, c', True) \<in> set (pending_calls w') \<longleftrightarrow> (x, c', True) \<in> set (pending_calls w)"
      if "(xid, c', True) \<notin> set (pending_calls w)"
      using leave that by auto
    have phase: "call_phase w' c' = call_phase w c'" "transport_closed w' = transport_closed w"
      "reader_phase w' = reader_phase w" "writer_phase w' = writer_phase w" using leave c'(1) by simp_all
    show "attended w' c' x"
    proof (cases "(xid, c', True) \<in> set (pending_calls w)")
      case True
      then show ?thesis using kept phase by (simp add: attended_def)
    next
      case False
      then have "served w' c' x = served w c' x" using same phase by (intro served_cong) simp_all
      then show ?thesis using att phase by (simp add: attended_def)
    qed
  qed (use served_invD(2,3) [OF inv(3)] leave in simp_all)
next
  case (number p)
  have "served_inv (w\<lparr> xid_counter := xid_counter w + 1 \<rparr>)" by (rule served_inv_cong [OF inv(3)]) simp_all
  then show ?thesis using number by (auto intro!: served_inv_at_phase)
next
  case (enqueue xid request)
  have "served_inv (w\<lparr> request_queue := request_queue w @ [(c, request)], accepted_requests := accepted_requests w @ [(c, request)] \<rparr>)"
    by (rule served_inv_cong [OF inv(3)]) simp_all
  then show ?thesis using enqueue by (auto intro!: served_inv_at_phase)
qed (use inv(3) in \<open>auto intro!: served_inv_at_phase\<close>)

lemma served_inv_reader:
  assumes "reader_step limits w = Some w'" and inv: "pending_inv w" "sender_inv w" "served_inv w"
  shows "served_inv w'"
proof (rule served_invI)
  fix c' x assume "registered_xid (call_phase w' c') = Some x"
  moreover have phase: "call_phase w' = call_phase w"
    using assms(1) by (cases rule: reader_step_cases) simp_all
  ultimately have att: "attended w c' x" using served_invD(1) [OF inv(3)] by simp
  from assms(1) show "attended w' c' x"
  proof (cases rule: reader_step_cases)
    case (taken response xid c)
    have "(xid, c, True) \<in> set (pending_calls w)" using taken(3) by (rule map_of_SomeD)
    then have "c' = c" if "(xid, c', True) \<in> set (pending_calls w)" using that pending_key [OF inv(1)] by blast
    then have "served w' c' x" if "served w c' x"
      using that taken by (cases "x = xid") (auto simp: served_def failing_def simp del: set_map)
    then show ?thesis using att taken(4) by (auto simp: attended_def)
  next
    case (failed_all e)
    then have "served w' c' x" if "served w c' x" using that by (auto simp: served_def)
    then show ?thesis using att failed_all(2) by (auto simp: attended_def)
  next
    case exited
    then show ?thesis using att served_invD(2) [OF inv(3)] by (auto simp: attended_def served_def failing_def)
  qed (use att in \<open>auto simp: attended_def served_def failing_def\<close>)
next
  show "reader_phase w' \<in> {ReaderExiting, ReaderStopped} \<or> (\<exists>e. reader_phase w' = ReaderFailing e) \<longrightarrow> transport_closed w'"
    using assms(1) by (cases rule: reader_step_cases) (use served_invD(2) [OF inv(3)] in simp_all)
  show "writer_phase w' \<in> {WriterDropping, WriterStopped} \<or> (\<exists>e. writer_phase w' = WriterFailing e) \<longrightarrow> transport_closed w'"
    using assms(1) by (cases rule: reader_step_cases) (use served_invD(3) [OF inv(3)] in simp_all)
qed

lemma served_inv_writer:
  assumes "writer_step accepts w = Some w'" and inv: "served_inv w"
  shows "served_inv w'"
proof (rule served_invI)
  fix c' x assume "registered_xid (call_phase w' c') = Some x"
  moreover have phase: "call_phase w' = call_phase w"
    using assms(1) by (cases rule: writer_step_cases) simp_all
  ultimately have att: "attended w c' x" using served_invD(1) [OF inv] by simp
  from assms(1) show "attended w' c' x"
  proof (cases rule: writer_step_cases)
    case (failed_all e)
    then have "served w' c' x" if "served w c' x" using that by (auto simp: served_def)
    then show ?thesis using att failed_all(2) by (auto simp: attended_def)
  qed (use att in \<open>auto simp: attended_def served_def failing_def\<close>)
next
  show "reader_phase w' \<in> {ReaderExiting, ReaderStopped} \<or> (\<exists>e. reader_phase w' = ReaderFailing e) \<longrightarrow> transport_closed w'"
    using assms(1) by (cases rule: writer_step_cases) (use served_invD(2) [OF inv] in simp_all)
  show "writer_phase w' \<in> {WriterDropping, WriterStopped} \<or> (\<exists>e. writer_phase w' = WriterFailing e) \<longrightarrow> transport_closed w'"
    using assms(1) by (cases rule: writer_step_cases) (use served_invD(3) [OF inv] in simp_all)
qed

subsection \<open>Requests\<close>

definition in_hand :: "RpcWorld \<Rightarrow> (nat \<times> RpcRequest) list" where
  "in_hand w = (case writer_phase w of Collecting batch \<Rightarrow> batch | Writing batch \<Rightarrow> batch | _ \<Rightarrow> [])"

definition call_request :: "RpcWorld \<Rightarrow> nat \<Rightarrow> RpcRequest" where
  "call_request w c = (let a = call_args w c in
     encode_call (client_auth w) (call_xid w c) (call_program a) (call_version a) (call_procedure a) (call_payload a))"

definition not_sent :: "bytes result option \<Rightarrow> bool" where
  "not_sent r \<longleftrightarrow> (\<exists>e. r = Some (Err e) \<and> is_request_not_sent e)"

fun after_enqueue :: "CallPhase \<Rightarrow> bool" where
  "after_enqueue (Enqueued xid) = True"
| "after_enqueue (Awaiting xid) = True"
| "after_enqueue (Leaving xid r) = (\<not> not_sent r)"
| "after_enqueue (Returned r) = (\<not> not_sent r)"
| "after_enqueue _ = False"

fun successful :: "CallPhase \<Rightarrow> bytes \<Rightarrow> bool" where
  "successful (Leaving xid r) bs = (r = Some (Ok bs))"
| "successful (Returned r) bs = (r = Some (Ok bs))"
| "successful _ bs = False"

definition queue_inv :: "RpcWorld \<Rightarrow> bool" where
  "queue_inv w \<longleftrightarrow>
     prefix (handed_requests w @ in_hand w @ request_queue w) (accepted_requests w) \<and>
     (\<not> receiver_dropped w \<longrightarrow> accepted_requests w = handed_requests w @ in_hand w @ request_queue w) \<and>
     distinct (map fst (accepted_requests w)) \<and> length (in_hand w) \<le> MAX_WRITE_BATCH_RECORDS"

definition request_inv :: "RpcWorld \<Rightarrow> bool" where
  "request_inv w \<longleftrightarrow>
     (\<forall>c request. (c, request) \<in> set (accepted_requests w) \<longrightarrow> after_enqueue (call_phase w c) \<and> request = call_request w c) \<and>
     (\<forall>c xid request. call_phase w c = Enqueuing xid request \<longrightarrow> request = call_request w c) \<and>
     (\<forall>c xid. registered_xid (call_phase w c) = Some xid \<longrightarrow> call_xid w c = xid) \<and>
     (\<forall>c. (\<exists>xid. call_phase w c = Enqueued xid \<or> call_phase w c = Awaiting xid) \<or> (\<exists>bs. successful (call_phase w c) bs) \<longrightarrow>
        c \<in> fst ` set (accepted_requests w)) \<and>
     (\<forall>c r. oneshot w c = Resolved r \<longrightarrow> \<not> not_sent (Some r))"

definition plain_errors :: "('s, Error, 'a) stm \<Rightarrow> bool" where
  "plain_errors d \<longleftrightarrow> (\<forall>s e. fst (d s) = Err e \<longrightarrow> \<not> is_request_not_sent e)"

lemma plain_errors_intros:
  "plain_errors d \<Longrightarrow> (\<And>v. plain_errors (f v)) \<Longrightarrow> plain_errors (and_then d f)"
  "plain_errors (ok v)" "plain_errors (lift (Ok v))" "plain_errors (\<lambda>s. (Ok (g s), h s))" "plain_errors (fail (Rpc m))"
  "\<not> is_request_not_sent e \<Longrightarrow> plain_errors (lift (ok_or e opt))"
  "plain_errors (require n)" "plain_errors (buf_advance n)" "plain_errors read_u32_after_require"
  "plain_errors (lift (opaque_padded_len n))"
  by (auto simp: plain_errors_def and_then_def is_request_not_sent_def lift_def ok_or_def require_def buf_advance_def
      read_u32_after_require_def buf_get_u32_def opaque_padded_len_def split: prod.splits outcome.splits option.splits if_splits)
    (metis fst_conv)+

lemma decode_reply_not_sent: "\<not> not_sent (Some (decode_reply xid response))"
proof -
  have "plain_errors (decode_reply_dec xid)"
    unfolding decode_reply_dec_def read_u32_triple_def read_u32_pair_def read_u32_skip_opaque_and_read_u32_def
    by (auto intro!: plain_errors_intros simp: is_request_not_sent_def split: prod.splits)
  then show ?thesis by (auto simp: plain_errors_def decode_reply_def not_sent_def)
qed

lemma not_sent_simps [simp]:
  "\<not> not_sent None" "\<not> not_sent (Some (Ok bs))" "\<not> not_sent (Some Panic)" "\<not> not_sent (Some (Err (Timeout t)))"
  "not_sent (Some (Err rpc_request_not_sent_error))" "\<not> not_sent (Some (Err rpc_transport_stopped_error))"
  "\<not> not_sent (Some (Err (Rpc m)))" "\<not> not_sent (Some (Err (ConnectionLost m)))"
  by (simp_all add: not_sent_def rpc_request_not_sent_error_def rpc_transport_stopped_error_def is_request_not_sent_def request_not_sent_def)

lemma queue_inv_call:
  assumes "call_step ev c w = Some w'" and inv: "queue_inv w" "request_inv w"
  shows "queue_inv w'"
  using assms(1)
proof (cases rule: call_step_cases)
  case (enqueue xid request)
  have "c \<notin> fst ` set (accepted_requests w)" using inv(2) enqueue(1) unfolding request_inv_def by fastforce
  moreover have acc: "accepted_requests w = handed_requests w @ in_hand w @ request_queue w"
    using inv(1) enqueue(2) by (simp add: queue_inv_def)
  moreover have "in_hand w' = in_hand w" "handed_requests w' = handed_requests w"
    "accepted_requests w' = accepted_requests w @ [(c, request)]" "request_queue w' = request_queue w @ [(c, request)]"
    using enqueue(4) by (simp_all add: in_hand_def)
  moreover have "distinct (map fst (accepted_requests w))" using inv(1) by (simp add: queue_inv_def)
  ultimately have "distinct (map fst (accepted_requests w'))"
    "accepted_requests w' = handed_requests w' @ in_hand w' @ request_queue w'" "in_hand w' = in_hand w"
    by (simp only: map_append distinct_append list.map distinct.simps set_map, auto)
  then show ?thesis using inv(1) by (simp add: queue_inv_def)
qed (use inv(1) in \<open>simp_all add: queue_inv_def in_hand_def\<close>)

lemma queue_inv_reader:
  assumes "reader_step limits w = Some w'" and inv: "queue_inv w"
  shows "queue_inv w'"
  using assms(1) by (cases rule: reader_step_cases) (use inv in \<open>simp_all add: queue_inv_def in_hand_def\<close>)

lemma queue_inv_writer:
  assumes "writer_step accepts w = Some w'" and inv: "queue_inv w"
  shows "queue_inv w'"
  using assms(1)
proof (cases rule: writer_step_cases)
  case dropped
  then show ?thesis using inv by (auto simp: queue_inv_def in_hand_def dest: append_prefixD)
qed (use inv in \<open>auto simp: queue_inv_def in_hand_def\<close>)

definition was_accepted :: "RpcWorld \<Rightarrow> nat \<Rightarrow> bool" where
  "was_accepted w c \<longleftrightarrow> c \<in> fst ` set (accepted_requests w)"

lemma was_accepted_at_phase [simp]: "was_accepted (at_phase c p w) c' = was_accepted w c'"
  "was_accepted (drop_registration xid w) c' = was_accepted w c'"
  "was_accepted (w\<lparr> xid_counter := x \<rparr>) c' = was_accepted w c'"
  by (simp_all add: was_accepted_def)

lemma request_inv_at_phase:
  assumes inv: "request_inv w"
    and "was_accepted w c \<Longrightarrow> after_enqueue p"
    and "\<And>xid request. p = Enqueuing xid request \<Longrightarrow> request = call_request w c"
    and "\<And>xid. registered_xid p = Some xid \<Longrightarrow> call_xid w c = xid"
    and "(\<exists>xid. p = Enqueued xid \<or> p = Awaiting xid) \<or> (\<exists>bs. successful p bs) \<Longrightarrow> was_accepted w c"
  shows "request_inv (at_phase c p w)"
proof -
  have req: "call_request (at_phase c p w) = call_request w" by (simp add: call_request_def fun_eq_iff)
  have acc: "was_accepted w c" if "(c, request) \<in> set (accepted_requests w)" for request
    using that unfolding was_accepted_def by (force intro: image_eqI)
  show ?thesis
    using inv assms(2-5) acc unfolding request_inv_def req was_accepted_def [symmetric]
    by (intro conjI) (simp_all, blast+)
qed

lemma request_invD:
  assumes "request_inv w"
  shows "was_accepted w c \<Longrightarrow> after_enqueue (call_phase w c)"
    and "call_phase w c = Enqueuing xid request \<Longrightarrow> request = call_request w c"
    and "registered_xid (call_phase w c) = Some xid \<Longrightarrow> call_xid w c = xid"
    and "call_phase w c = Enqueued xid \<or> call_phase w c = Awaiting xid \<Longrightarrow> was_accepted w c"
    and "successful (call_phase w c) bs \<Longrightarrow> was_accepted w c"
    and "oneshot w c = Resolved r \<Longrightarrow> \<not> not_sent (Some r)"
  using assms unfolding request_inv_def was_accepted_def by - (force, blast+)


lemma request_invI:
  assumes "\<And>c request. (c, request) \<in> set (accepted_requests w) \<Longrightarrow> after_enqueue (call_phase w c) \<and> request = call_request w c"
    and "\<And>c xid request. call_phase w c = Enqueuing xid request \<Longrightarrow> request = call_request w c"
    and "\<And>c xid. registered_xid (call_phase w c) = Some xid \<Longrightarrow> call_xid w c = xid"
    and "\<And>c. (\<exists>xid. call_phase w c = Enqueued xid \<or> call_phase w c = Awaiting xid) \<or> (\<exists>bs. successful (call_phase w c) bs) \<Longrightarrow>
      was_accepted w c"
    and "\<And>c r. oneshot w c = Resolved r \<Longrightarrow> \<not> not_sent (Some r)"
  shows "request_inv w"
  using assms unfolding request_inv_def was_accepted_def by blast

lemma request_of: "request_inv w \<Longrightarrow> (c, request) \<in> set (accepted_requests w) \<Longrightarrow> request = call_request w c"
  unfolding request_inv_def by blast

lemma request_inv_cong:
  assumes "request_inv w" and "call_phase w' = call_phase w" and "accepted_requests w' = accepted_requests w"
    and "call_request w' = call_request w" and "call_xid w' = call_xid w"
    and "\<And>c r. oneshot w' c = Resolved r \<Longrightarrow> \<not> not_sent (Some r)"
  shows "request_inv w'"
  using assms(1,6) unfolding request_inv_def assms(2-5) by blast

lemma request_inv_call:
  assumes "call_step ev c w = Some w'" and inv: "request_inv w"
  shows "request_inv w'"
  using assms(1)
proof (cases rule: call_step_cases)
  case (number p)
  have "request_inv (w\<lparr> xid_counter := xid_counter w + 1 \<rparr>)"
    by (rule request_inv_cong [OF inv]) (use request_invD(6) [OF inv] in \<open>simp_all add: call_request_def fun_eq_iff\<close>)
  then show ?thesis using number request_invD(1) [OF inv, of c] by (auto intro!: request_inv_at_phase)
next
  case (insert xid)
  have new: "\<not> was_accepted w c" using request_invD(1) [OF inv, of c] insert(1) by auto
  let ?w = "w\<lparr> pending_calls := (xid, c, True) # pending_calls w, oneshot := (oneshot w)(c := Unresolved),
      call_xid := (call_xid w)(c := xid) \<rparr>"
  have ne: "c' \<noteq> c" if "(c', request) \<in> set (accepted_requests w)" for c' request
    using that new unfolding was_accepted_def by (force intro: image_eqI)
  have req: "call_request ?w c' = call_request w c'" "call_xid ?w c' = call_xid w c'" if "c' \<noteq> c" for c'
    using that by (simp_all add: call_request_def)
  have "request_inv ?w"
  proof (rule request_invI)
    fix c' request assume "(c', request) \<in> set (accepted_requests ?w)"
    then show "after_enqueue (call_phase ?w c') \<and> request = call_request ?w c'"
      using ne request_of [OF inv] request_invD(1) [OF inv, of c'] req unfolding was_accepted_def by force
  next
    fix c' xid' request assume "call_phase ?w c' = Enqueuing xid' request"
    then show "request = call_request ?w c'" using insert(1) request_invD(2) [OF inv, of c'] req [of c'] by (cases "c' = c") auto
  next
    fix c' xid' assume "registered_xid (call_phase ?w c') = Some xid'"
    then show "call_xid ?w c' = xid'" using insert(1) request_invD(3) [OF inv, of c'] by (cases "c' = c") auto
  next
    fix c' assume "(\<exists>xid. call_phase ?w c' = Enqueued xid \<or> call_phase ?w c' = Awaiting xid) \<or> (\<exists>bs. successful (call_phase ?w c') bs)"
    then show "was_accepted ?w c'" using request_invD(4,5) [OF inv, of c'] by (auto simp: was_accepted_def)
  next
    fix c' r assume "oneshot ?w c' = Resolved r"
    then show "\<not> not_sent (Some r)" using request_invD(6) [OF inv, of c'] by (auto split: if_splits)
  qed
  then show ?thesis unfolding insert(3)
    using new by (intro request_inv_at_phase) (auto simp: was_accepted_def)
next
  case (enqueue xid request)
  let ?w = "w\<lparr> request_queue := request_queue w @ [(c, request)], accepted_requests := accepted_requests w @ [(c, request)] \<rparr>"
  have mine: "request = call_request w c" "call_xid w c = xid"
    using request_invD(2,3) [OF inv] enqueue(1) by auto
  have req: "call_request w' = call_request w" using enqueue(4) by (simp add: call_request_def fun_eq_iff)
  have acc: "was_accepted w' c' \<longleftrightarrow> was_accepted w c' \<or> c' = c" for c' using enqueue(4) by (auto simp: was_accepted_def)
  show ?thesis
  proof (rule request_invI)
    fix c' request' assume "(c', request') \<in> set (accepted_requests w')"
    then show "after_enqueue (call_phase w' c') \<and> request' = call_request w' c'"
      unfolding req using enqueue(4) mine request_of [OF inv, of c' request'] request_invD(1) [OF inv, of c']
      unfolding was_accepted_def by force
  next
    fix c' xid' request' assume "call_phase w' c' = Enqueuing xid' request'"
    then show "request' = call_request w' c'" unfolding req using enqueue(4) request_invD(2) [OF inv, of c'] by (auto split: if_splits)
  next
    fix c' xid' assume "registered_xid (call_phase w' c') = Some xid'"
    then show "call_xid w' c' = xid'" using enqueue(4) mine request_invD(3) [OF inv, of c'] by (auto split: if_splits)
  next
    fix c' assume "(\<exists>xid. call_phase w' c' = Enqueued xid \<or> call_phase w' c' = Awaiting xid) \<or> (\<exists>bs. successful (call_phase w' c') bs)"
    then show "was_accepted w' c'" unfolding acc using enqueue(4) request_invD(4,5) [OF inv, of c'] by (auto split: if_splits)
  next
    fix c' r assume "oneshot w' c' = Resolved r"
    then show "\<not> not_sent (Some r)" using enqueue(4) request_invD(6) [OF inv, of c'] by simp
  qed
next
  case (leave xid r)
  have "request_inv (drop_registration xid w)"
    by (rule request_inv_cong [OF inv]) (use request_invD(6) [OF inv] in \<open>auto simp: call_request_def fun_eq_iff split: if_splits\<close>)
  then show ?thesis
    using leave request_invD(1,5) [OF inv, of c] by (auto intro!: request_inv_at_phase)
qed (use request_invD [OF inv, of c] in \<open>auto intro!: request_inv_at_phase [OF inv] simp: call_request_def Let_def\<close>)

lemma request_inv_tasks:
  assumes "reader_step limits w = Some w' \<or> writer_step accepts w = Some w'" and inv: "request_inv w"
  shows "request_inv w'"
proof -
  have read: "\<not> not_sent (Some r)" if "reader_step limits w = Some w'" "oneshot w' c = Resolved r" for c r
    using that(1) by (cases rule: reader_step_cases)
      (use that(2) request_invD(6) [OF inv, of c] decode_reply_not_sent in \<open>auto split: if_splits\<close>)
  have "\<not> not_sent (Some r)" if "writer_step accepts w = Some w'" "oneshot w' c = Resolved r" for c r
    using that(1) by (cases rule: writer_step_cases)
      (use that(2) request_invD(6) [OF inv, of c] in \<open>auto split: if_splits\<close>)
  moreover have "call_phase w' = call_phase w \<and> accepted_requests w' = accepted_requests w \<and>
      call_request w' = call_request w \<and> call_xid w' = call_xid w" if "reader_step limits w = Some w'"
    using that by (cases rule: reader_step_cases) (simp_all add: call_request_def fun_eq_iff)
  moreover have "call_phase w' = call_phase w \<and> accepted_requests w' = accepted_requests w \<and>
      call_request w' = call_request w \<and> call_xid w' = call_xid w" if "writer_step accepts w = Some w'"
    using that by (cases rule: writer_step_cases) (simp_all add: call_request_def fun_eq_iff)
  ultimately show ?thesis using assms(1) read by (intro request_inv_cong [OF inv]) blast+
qed

subsection \<open>Replies and the wire\<close>

definition answered_by :: "RpcWorld \<Rightarrow> nat \<Rightarrow> bytes \<Rightarrow> bool" where
  "answered_by w c bs \<longleftrightarrow> (\<exists>response \<in> set (received_records w). decode_reply (call_xid w c) response = Ok bs)"

definition reply_inv :: "usize \<Rightarrow> RpcWorld \<Rightarrow> bool" where
  "reply_inv limit w \<longleftrightarrow>
     (\<forall>response. reader_phase w = Received response \<longrightarrow> response \<in> set (received_records w)) \<and>
     (\<forall>c x response. reader_phase w = Delivering c x response \<longrightarrow> response \<in> set (received_records w) \<and> call_xid w c = x) \<and>
     (\<forall>c bs. oneshot w c = Resolved (Ok bs) \<or> successful (call_phase w c) bs \<longrightarrow> answered_by w c bs) \<and>
     max_response_bytes w \<le> limit \<and> (\<forall>response \<in> set (received_records w). length response \<le> limit)"

definition wire_inv :: "RpcWorld \<Rightarrow> bool" where
  "wire_inv w \<longleftrightarrow>
     (writer_phase w \<notin> {WriterDropping, WriterStopped} \<and> (\<nexists>e. writer_phase w = WriterFailing e) \<longrightarrow>
        wire w = concat (map (\<lambda>(c, request). concat (record_slices (auth_body (client_auth w)) (auth_padding_len (client_auth w)) request))
          (handed_requests w)))"

lemma reply_inv_call:
  assumes "call_step ev c w = Some w'" and inv: "sender_inv w" "reply_inv limit w"
  shows "reply_inv limit w'"
  using assms(1)
proof (cases rule: call_step_cases)
  case (insert xid)
  have "reader_phase w \<noteq> Delivering c x response" for x response
    using inv(1) insert(1) unfolding sender_inv_def by (metis before_registration.simps(5))
  then show ?thesis using inv(2) insert unfolding reply_inv_def by (auto simp: answered_by_def split: if_splits)
next
  case (number p)
  then have "\<not> successful p bs" for bs by auto
  then show ?thesis using inv(2) number(3) by (simp add: reply_inv_def answered_by_def)
next
  case (leave xid r)
  then have "answered_by w' c bs" if "r = Some (Ok bs)" for bs
    using inv(2) that unfolding reply_inv_def by (auto simp: answered_by_def)
  then show ?thesis using inv(2) leave unfolding reply_inv_def by (auto simp: answered_by_def split: if_splits)
next
  case (answered xid r)
  then show ?thesis using inv(2) unfolding reply_inv_def by (auto simp: answered_by_def split: if_splits)
qed (use inv(2) in \<open>simp_all add: reply_inv_def answered_by_def\<close>)

lemma read_record_limit:
  assumes "read_record limits r = (Ok response, r')" and "\<And>k. limits k \<le> limit" and "limit \<le> usize_max"
  shows "length response \<le> limit"
  using assms read_record_loop_limit [of limits 0 "[]" r response r'] unfolding read_record_def by (meson le_trans)

lemma reply_inv_reader:
  assumes "reader_step limits w = Some w'" and "\<forall>k. limits k \<le> max_response_bytes w" and "limit \<le> usize_max"
    and inv: "pending_inv w" "request_inv w" "reply_inv limit w"
  shows "reply_inv limit w'"
  using assms(1)
proof (cases rule: reader_step_cases)
  case (received response r)
  have "length response \<le> limit"
    using read_record_limit [OF received(2), of limit] assms(2,3) inv(3) unfolding reply_inv_def by (meson le_trans)
  then show ?thesis using inv(3) received unfolding reply_inv_def by (auto simp: answered_by_def)
next
  case (taken response xid c)
  have "call_xid w c = xid"
    using request_invD(3) [OF inv(2)] pending_entry [OF inv(1)] map_of_SomeD [OF taken(3)] by blast
  then show ?thesis using inv(3) taken unfolding reply_inv_def by (auto simp: answered_by_def)
next
  case (delivered c xid response)
  then show ?thesis using inv(3) unfolding reply_inv_def by (auto simp: answered_by_def split: if_splits)
next
  case (failed_all e)
  then show ?thesis using inv(3) unfolding reply_inv_def by (auto simp: answered_by_def split: if_splits)
qed (use inv(3) in \<open>simp_all add: reply_inv_def answered_by_def\<close>)

lemma reply_inv_writer:
  assumes "writer_step accepts w = Some w'" and inv: "reply_inv limit w"
  shows "reply_inv limit w'"
  using assms(1)
proof (cases rule: writer_step_cases)
  case (failed_all e)
  then show ?thesis using inv unfolding reply_inv_def by (auto simp: answered_by_def split: if_splits)
qed (use inv in \<open>simp_all add: reply_inv_def answered_by_def\<close>)

lemma wire_inv_writer:
  assumes "writer_step accepts w = Some w'" and inv: "queue_inv w" "wire_inv w"
  shows "wire_inv w'"
  using assms(1)
proof (cases rule: writer_step_cases)
  case (written batch out)
  have "length batch \<le> MAX_WRITE_BATCH_RECORDS" using inv(1) written(1) by (simp add: queue_inv_def in_hand_def)
  then have "out = concat (concat (map (record_slices (auth_body (client_auth w)) (auth_padding_len (client_auth w))) (map snd batch)))"
    using written(2) write_vectored_loop_sent by (fastforce simp: write_record_batch_def Let_def split: if_splits)
  then show ?thesis using inv(2) written by (simp add: wire_inv_def concat_concat_map case_prod_unfold comp_def)
qed (use inv(2) in \<open>simp_all add: wire_inv_def\<close>)

subsection \<open>All invariants together\<close>

definition rpc_inv :: "usize \<Rightarrow> RpcWorld \<Rightarrow> bool" where
  "rpc_inv limit w \<longleftrightarrow> limit \<le> usize_max \<and> client_auth_wf (client_auth w) \<and>
     (\<forall>c. payload_wf (call_payload (call_args w c))) \<and>
     pending_inv w \<and> sender_inv w \<and> served_inv w \<and> queue_inv w \<and> request_inv w \<and> reply_inv limit w \<and> wire_inv w"

lemma call_static:
  assumes "call_step ev c w = Some w'"
  shows "client_auth w' = client_auth w \<and> call_args w' = call_args w \<and> wire w' = wire w \<and>
    writer_phase w' = writer_phase w \<and> handed_requests w' = handed_requests w"
  using assms by (cases rule: call_step_cases) simp_all

lemma reader_static:
  assumes "reader_step limits w = Some w'"
  shows "client_auth w' = client_auth w \<and> call_args w' = call_args w \<and> wire w' = wire w \<and>
    writer_phase w' = writer_phase w \<and> handed_requests w' = handed_requests w"
  using assms by (cases rule: reader_step_cases) simp_all

lemma writer_static:
  assumes "writer_step accepts w = Some w'"
  shows "client_auth w' = client_auth w \<and> call_args w' = call_args w"
  using assms by (cases rule: writer_step_cases) simp_all

lemma rpc_inv_init: "rpc_init limit w \<Longrightarrow> rpc_inv limit w"
  unfolding rpc_init_def rpc_inv_def
  by (elim conjE exE, hypsubst)
    (simp add: rpc_connected_def pending_inv_def sender_inv_def served_inv_def queue_inv_def
      in_hand_def request_inv_def reply_inv_def wire_inv_def)

lemma rpc_inv_reduce:
  assumes "rpc_inv limit w"
  shows "rpc_inv limit (reduce_max_response_bytes n w)"
proof -
  let ?w = "w\<lparr> max_response_bytes := min (max_response_bytes w) n \<rparr>"
  have "pending_inv ?w = pending_inv w" "sender_inv ?w = sender_inv w" "served_inv ?w = served_inv w"
    "queue_inv ?w = queue_inv w" "request_inv ?w = request_inv w" "wire_inv ?w = wire_inv w"
    by (simp_all add: pending_inv_def sender_inv_def served_inv_def served_def failing_def queue_inv_def in_hand_def
        request_inv_def call_request_def wire_inv_def)
  moreover have "reply_inv limit w \<Longrightarrow> reply_inv limit ?w" by (simp add: reply_inv_def answered_by_def min.coboundedI1)
  ultimately show ?thesis using assms by (simp add: rpc_inv_def reduce_max_response_bytes_def)
qed

lemma rpc_inv_step: "rpc_step w w' \<Longrightarrow> rpc_inv limit w \<Longrightarrow> rpc_inv limit w'"
proof (induction rule: rpc_step.induct)
  case (a_call ev c w w')
  note inv = a_call.prems [unfolded rpc_inv_def] and step = a_call.hyps
  have "wire_inv w'" using inv call_static [OF step] by (simp add: wire_inv_def)
  then show ?case
    unfolding rpc_inv_def
    using inv call_static [OF step] pending_inv_call [OF step] sender_inv_call [OF step] served_inv_call [OF step]
      queue_inv_call [OF step] request_inv_call [OF step] reply_inv_call [OF step] by simp
next
  case (the_reader limits w w')
  note inv = the_reader.prems [unfolded rpc_inv_def] and step = the_reader.hyps(1)
  have "wire_inv w'" using inv reader_static [OF step] by (simp add: wire_inv_def)
  then show ?case
    unfolding rpc_inv_def
    using inv reader_static [OF step] pending_inv_reader [OF step] sender_inv_reader [OF step] served_inv_reader [OF step]
      queue_inv_reader [OF step] request_inv_tasks [OF disjI1 [OF step]] reply_inv_reader [OF step the_reader.hyps(2)] by simp
next
  case (the_writer accepts w w')
  note inv = the_writer.prems [unfolded rpc_inv_def] and step = the_writer.hyps
  show ?case
    unfolding rpc_inv_def
    using inv writer_static [OF step] pending_inv_writer [OF step] sender_inv_writer [OF step] served_inv_writer [OF step]
      queue_inv_writer [OF step] request_inv_tasks [OF disjI2 [OF step]] reply_inv_writer [OF step] wire_inv_writer [OF step] by simp
next
  case (a_reduction w n)
  then show ?case by (rule rpc_inv_reduce)
qed

interpretation rpc_client: inductive_invariant "rpc_init limit" rpc_step "rpc_inv limit" for limit
  by unfold_locales (erule rpc_inv_init, erule rpc_inv_step)

subsection \<open>Runs\<close>

datatype RpcAction = CallDoes CallEvent nat | ReaderDoes | WriterDoes "nat list"

primrec rpc_exec :: "RpcAction \<Rightarrow> RpcWorld \<Rightarrow> RpcWorld option" where
  "rpc_exec (CallDoes ev c) w = call_step ev c w"
| "rpc_exec ReaderDoes w = reader_step (\<lambda>_. max_response_bytes w) w"
| "rpc_exec (WriterDoes accepts) w = writer_step accepts w"

primrec rpc_run :: "RpcAction list \<Rightarrow> RpcWorld \<Rightarrow> RpcWorld option" where
  "rpc_run [] w = Some w"
| "rpc_run (a # as) w = (case rpc_exec a w of None \<Rightarrow> None | Some w \<Rightarrow> rpc_run as w)"

lemma rpc_exec_step: "rpc_exec a w = Some w' \<Longrightarrow> rpc_step w w'"
  by (cases a) (auto intro: a_call the_reader [where limits = "\<lambda>_. max_response_bytes w"] the_writer)

lemma rpc_run_steps: "rpc_run as w = Some w' \<Longrightarrow> rpc_step\<^sup>*\<^sup>* w w'"
  by (induction as arbitrary: w) (auto split: option.splits intro: converse_rtranclp_into_rtranclp rpc_exec_step)

lemma reachable_steps: "rpc_step\<^sup>*\<^sup>* w w' \<Longrightarrow> reachable init rpc_step w \<Longrightarrow> reachable init rpc_step w'"
  by (induction rule: rtranclp_induct) (auto intro: reach_step)

lemma resolved_returns:
  assumes "call_phase w c = Awaiting xid" and "oneshot w c = Resolved r"
  shows "\<exists>w'. rpc_step\<^sup>*\<^sup>* w w' \<and> call_phase w' c = Returned (Some r)"
proof -
  let ?w = "at_phase c (Returned (Some r)) (drop_registration xid (at_phase c (Leaving xid (Some r)) w))"
  have "rpc_run [CallDoes Proceed c, CallDoes Proceed c] w = Some ?w"
    using assms by (simp add: call_step_def)
  from rpc_run_steps [OF this] show ?thesis by (intro exI [of _ ?w]) simp
qed

lemma served_returns:
  assumes "served w c xid" and "call_phase w c = Awaiting xid" and "transport_closed w"
  shows "\<exists>w' r. rpc_step\<^sup>*\<^sup>* w w' \<and> call_phase w' c = Returned (Some r)"
proof -
  have step: "\<exists>w' r. rpc_step\<^sup>*\<^sup>* w w' \<and> call_phase w' c = Returned (Some r)"
    if "\<exists>w1 r. rpc_exec a w = Some w1 \<and> call_phase w1 c = Awaiting xid \<and> oneshot w1 c = Resolved r" for a
    using that resolved_returns [of _ c xid] rpc_exec_step [of a w] by (blast intro: converse_rtranclp_into_rtranclp)
  consider (resolved) r where "oneshot w c = Resolved r"
    | (delivering) response where "reader_phase w = Delivering c xid response"
    | (reader) e where "(xid, c, True) \<in> set (pending_calls w)" "reader_phase w = ReaderFailing e"
    | (writer) e where "(xid, c, True) \<in> set (pending_calls w)" "writer_phase w = WriterFailing e"
    using assms(1,3) unfolding served_def failing_def by blast
  then show ?thesis
  proof cases
    case (resolved r)
    then show ?thesis using resolved_returns [OF assms(2)] by blast
  next
    case (delivering response)
    then show ?thesis using assms(2) by (intro step [of ReaderDoes]) (simp add: reader_step_def)
  next
    case (reader e)
    then show ?thesis using assms(2) by (intro step [of ReaderDoes]) (auto simp: reader_step_def)
  next
    case (writer e)
    then show ?thesis using assms(2) by (intro step [of "WriterDoes []"]) (auto simp: writer_step_def)
  qed
qed

subsection \<open>Properties\<close>

text \<open>
  C12. No call waits in vain. A call that awaits its reply has the reply, or the reader is about to
  deliver it, or its sender is registered while the reader still runs or a task is about to fail all pending calls;
  its sender is never dropped, so the error that the reader task stopped is not returned. Once the transport is closed, the call
  returns without any further action of the server.
\<close>

theorem calls_never_stranded:
  assumes "reachable (rpc_init limit) rpc_step w" and "call_phase w c = Awaiting xid"
  shows "((\<exists>r. oneshot w c = Resolved r) \<or> (\<exists>response. reader_phase w = Delivering c xid response) \<or>
      (xid, c, True) \<in> set (pending_calls w) \<and>
      (\<not> transport_closed w \<and> reader_phase w \<noteq> ReaderStopped \<or> failing w)) \<and>
    oneshot w c \<noteq> SenderDropped \<and>
    (transport_closed w \<longrightarrow> (\<exists>w' r. rpc_step\<^sup>*\<^sup>* w w' \<and> call_phase w' c = Returned (Some r)))"
proof -
  have inv: "rpc_inv limit w" using rpc_client.reachable_inv [OF assms(1)] .
  then have "attended w c xid" using served_invD(1) [of w c xid] assms(2) by (simp add: rpc_inv_def)
  then have "served w c xid" using assms(2) by (simp add: attended_def)
  moreover have "reader_phase w = ReaderStopped \<longrightarrow> transport_closed w" using inv by (simp add: rpc_inv_def served_inv_def)
  moreover have "sender_inv w" using inv by (simp add: rpc_inv_def)
  ultimately show ?thesis
    using served_returns [OF _ assms(2)] unfolding served_def sender_inv_def by (metis Oneshot.distinct(3,5))
qed

text \<open>
  C11. An error that says the request was not sent is true: the request of a call that returned such an
  error never entered the queue and was never handed to the socket.
\<close>

theorem request_not_sent_sound:
  assumes "reachable (rpc_init limit) rpc_step w" and "call_phase w c = Returned (Some (Err e))" and "is_request_not_sent e"
  shows "c \<notin> fst ` set (accepted_requests w) \<and> c \<notin> fst ` set (handed_requests w) \<and> c \<notin> fst ` set (in_hand w)"
proof -
  have inv: "rpc_inv limit w" using rpc_client.reachable_inv [OF assms(1)] .
  then have "prefix (handed_requests w @ in_hand w @ request_queue w) (accepted_requests w)"
    by (simp add: rpc_inv_def queue_inv_def)
  then have "set (handed_requests w) \<union> set (in_hand w) \<subseteq> set (accepted_requests w)"
    using set_mono_prefix by fastforce
  moreover have "\<not> was_accepted w c"
    using request_invD(1) [of w c] inv assms(2,3) by (auto simp: rpc_inv_def not_sent_def)
  ultimately show ?thesis unfolding was_accepted_def by blast
qed

text \<open>
  C23. A call gets its own reply. The bytes a call returns are the results of an accepted reply that
  carries the transaction id of its request and fits the record limit, and the request was queued;
  while the transport is open no two calls hold the same transaction id.
\<close>

theorem reply_belongs_to_call:
  assumes "reachable (rpc_init limit) rpc_step w" and "call_phase w c = Returned (Some (Ok bs))"
  shows "(\<exists>response \<in> set (received_records w). peek_xid response = Ok (call_xid w c) \<and>
      decode_reply (call_xid w c) response = Ok bs \<and> length response \<le> limit) \<and>
    (c, call_request w c) \<in> set (accepted_requests w) \<and>
    (\<forall>c1 c2 xid. \<not> transport_closed w \<and> registered_xid (call_phase w c1) = Some xid \<and>
       registered_xid (call_phase w c2) = Some xid \<longrightarrow> c1 = c2)"
proof -
  have inv: "rpc_inv limit w" using rpc_client.reachable_inv [OF assms(1)] .
  have "answered_by w c bs" using inv assms(2) by (simp add: rpc_inv_def reply_inv_def)
  moreover have "\<forall>response \<in> set (received_records w). length response \<le> limit" using inv by (simp add: rpc_inv_def reply_inv_def)
  ultimately have reply: "\<exists>response \<in> set (received_records w). peek_xid response = Ok (call_xid w c) \<and>
      decode_reply (call_xid w c) response = Ok bs \<and> length response \<le> limit"
    using decode_reply_Ok_xid unfolding answered_by_def by blast
  have "was_accepted w c" using request_invD(5) [of w c bs] inv assms(2) by (simp add: rpc_inv_def)
  then have "(c, call_request w c) \<in> set (accepted_requests w)"
    using request_of [of w c] inv unfolding was_accepted_def rpc_inv_def by force
  moreover have "c1 = c2" if o: "\<not> transport_closed w" "registered_xid (call_phase w c1) = Some xid" "registered_xid (call_phase w c2) = Some xid"
    for c1 c2 xid
  proof -
    have p: "pending_inv w" using inv by (simp add: rpc_inv_def)
    obtain b1 where "(xid, c1, b1) \<in> set (pending_calls w)" using pending_owner [OF p o(2)] o(1) by metis
    moreover obtain b2 where "(xid, c2, b2) \<in> set (pending_calls w)" using pending_owner [OF p o(3)] o(1) by metis
    ultimately show ?thesis using pending_key [OF p] by blast
  qed
  ultimately show ?thesis using reply by blast
qed


subsection \<open>A client at work\<close>

definition rpc_demo :: "reader \<Rightarrow> RpcWorld" where
  "rpc_demo stream = rpc_connected \<lparr> auth_body = [], auth_padding_len = 0, call_header_template = replicate 32 0 \<rparr> 0 64 1 (\<lambda>_. [])
     (\<lambda>_. \<lparr> call_program = 100003, call_version = 4, call_procedure = 1, call_payload = payload_from_bytes [1, 2, 3, 4],
            call_timeout = None \<rparr>) stream"

lemma rpc_demo_reachable:
  assumes "rpc_run as (rpc_demo stream) = Some w"
  shows "reachable (rpc_init 64) rpc_step w"
proof -
  have "client_auth_wf (client_auth (rpc_demo stream))" "payload_wf (call_payload (call_args (rpc_demo stream) c))" for c
    by (simp_all add: rpc_demo_def rpc_connected_def client_auth_wf_def xdr_padding_def payload_from_bytes_wf)
  then have "rpc_init 64 (rpc_demo stream)"
    unfolding rpc_init_def by (simp add: usize_max_def) (unfold rpc_demo_def, blast)
  then show ?thesis using rpc_run_steps [OF assms] by (blast intro: reachable_steps reach_init)
qed

lemmas demo_simps = rpc_demo_def rpc_connected_def call_step_def reader_step_def writer_step_def at_phase_def try_insert_def
  take_sender_def drop_registration_def fail_all_def

lemma read_record_eof: "read_record limits [] = (Err (Io ''short RPC record fragment''), [])"
  by (simp add: read_record_def read_record_loop.simps reader_read_u32_def read_fill.simps)

abbreviation calling :: "nat \<Rightarrow> RpcAction list" where
  "calling n \<equiv> replicate n (CallDoes Proceed 0)"

lemma replicate_unfold:
  "replicate 2 x = [x, x]" "replicate 3 x = [x, x, x]" "replicate 4 x = [x, x, x, x]" "replicate 7 x = [x, x, x, x, x, x, x]"
  by (simp_all add: numeral_eq_Suc)

theorem calls_never_stranded_witness:
  "\<exists>w :: RpcWorld. call_phase w 0 = Awaiting 1 \<and> transport_closed w \<and> oneshot w 0 = Unresolved \<and>
     (\<exists>w' r. rpc_step\<^sup>*\<^sup>* w w' \<and> call_phase w' 0 = Returned (Some r))"
proof -
  have "\<exists>w :: RpcWorld. rpc_run (calling 7 @ [ReaderDoes]) (rpc_demo []) = Some w \<and> call_phase w 0 = Awaiting 1 \<and>
      transport_closed w \<and> oneshot w 0 = Unresolved"
    by (simp add: demo_simps read_record_eof replicate_unfold)
  then obtain w where run: "rpc_run (calling 7 @ [ReaderDoes]) (rpc_demo []) = Some w" and
    w: "call_phase w 0 = Awaiting 1" "transport_closed w" "oneshot w 0 = Unresolved" by blast
  from calls_never_stranded [OF rpc_demo_reachable [OF run] w(1)] show ?thesis using w by blast
qed

theorem request_not_sent_sound_witness:
  "\<exists>w :: RpcWorld. call_phase w 0 = Returned (Some (Err rpc_request_not_sent_error)) \<and> 0 \<notin> fst ` set (accepted_requests w)"
proof -
  have "\<exists>w :: RpcWorld. rpc_run (calling 4 @ ReaderDoes # calling 2) (rpc_demo []) = Some w \<and>
      call_phase w 0 = Returned (Some (Err rpc_request_not_sent_error))"
    by (simp add: demo_simps read_record_eof replicate_unfold)
  then obtain w where run: "rpc_run (calling 4 @ ReaderDoes # calling 2) (rpc_demo []) = Some w" and
    w: "call_phase w 0 = Returned (Some (Err rpc_request_not_sent_error))" by blast
  have "is_request_not_sent rpc_request_not_sent_error"
    by (simp add: rpc_request_not_sent_error_def rpc_transport_stopped_error_def request_not_sent_def is_request_not_sent_def)
  from request_not_sent_sound [OF rpc_demo_reachable [OF run] w this] show ?thesis using w by blast
qed

theorem reply_belongs_to_call_witness:
  "\<exists>w :: RpcWorld. call_phase w 0 = Returned (Some (Ok [9, 9, 9, 9])) \<and> (0, call_request w 0) \<in> set (accepted_requests w)"
proof -
  let ?reply = "accepted_reply 1 0 [] [9, 9, 9, 9]" and ?acts = "calling 7 @ replicate 3 ReaderDoes @ calling 2"
  have "length ?reply \<le> 64" by (simp add: accepted_reply_def opaque_wire_def pad_def xdr_padding_def)
  then have "\<exists>r'. read_record_loop (\<lambda>_. 64) 0 [] [frame [?reply]] = (Ok ([] @ concat [?reply]), r') \<and> chunks_wf r' \<and> concat r' = []"
    by (intro read_record_loop_frame) (auto simp: chunks_wf_def usize_max_def be_bytes_4)
  then obtain r' where r: "read_record (\<lambda>_. 64) [frame [?reply]] = (Ok ?reply, r')"
    by (auto simp: read_record_def simp del: frame.simps)
  have ok: "decode_reply 1 ?reply = Ok [9, 9, 9, 9]" by (rule decode_reply_accepted) simp
  then have x: "peek_xid ?reply = Ok 1" by (rule decode_reply_Ok_xid)
  have "\<exists>w :: RpcWorld. rpc_run ?acts (rpc_demo [frame [?reply]]) = Some w \<and> call_phase w 0 = Returned (Some (Ok [9, 9, 9, 9]))"
    using r ok x by (simp add: demo_simps replicate_unfold)
  then obtain w where run: "rpc_run ?acts (rpc_demo [frame [?reply]]) = Some w" and
    w: "call_phase w 0 = Returned (Some (Ok [9, 9, 9, 9]))" by blast
  from reply_belongs_to_call [OF rpc_demo_reachable [OF run] w] show ?thesis using w by blast
qed



text \<open>
  C40. The map does not keep an entry for as long as its call exists: when the transport fails, every
  entry is removed at once, while the calls are still waiting.
\<close>

theorem pending_entry_drained:
  "\<exists>w. reachable (rpc_init 64) rpc_step w \<and> call_phase w 0 = Awaiting 1 \<and> pending_calls w = []"
proof -
  have "\<exists>w :: RpcWorld. rpc_run (calling 7 @ [ReaderDoes, ReaderDoes]) (rpc_demo []) = Some w \<and> call_phase w 0 = Awaiting 1 \<and>
      pending_calls w = []"
    by (simp add: demo_simps read_record_eof replicate_unfold)
  then show ?thesis using rpc_demo_reachable by blast
qed

end
