(* ===== verification/Client_Read.thy ===== *)
theory Client_Read
  imports Session
begin

text \<open>
  Buffered reads of the client (\<open>src/client.rs\<close>): the checks on READ replies and sizes, the sequential
  loop, the pipelined read with its chunk scheduler and its reassembly of replies that complete in
  any order, and the read operations built on them. \<open>u64\<close> arithmetic wraps; the lemmas show that it
  does not for the ranges the code reads.

  The locale \<open>read_source\<close> states what a pipelined or sequential read relies on: replies have the shape the
  client checked, and those of a consistent run are parts of one file. The session's READ implements it.
\<close>

subsection \<open>Requirements on a read\<close>

abbreviation (input) DEFAULT_MAX_BUFFERED_READ_SIZE :: u64 where "DEFAULT_MAX_BUFFERED_READ_SIZE \<equiv> 128 * 1024 * 1024"
abbreviation (input) MAX_OPERATION_PIPELINE_DEPTH :: usize where "MAX_OPERATION_PIPELINE_DEPTH \<equiv> 16"

datatype ExpectedEof = CallerSupplied u64 | ResolvedWithFile u64

record ReadRequirements =
  expected_len :: "u64 option"
  expected_eof :: "ExpectedEof option"
  read_limit :: "u64 option"

definition requirements_new :: "u64 option \<Rightarrow> u64 option \<Rightarrow> ReadRequirements" where
  "requirements_new len limit = \<lparr> expected_len = len, expected_eof = None, read_limit = limit \<rparr>"

definition requirements_exact :: "u64 \<Rightarrow> u64 option \<Rightarrow> ReadRequirements" where
  "requirements_exact sz limit = \<lparr> expected_len = Some sz, expected_eof = Some (CallerSupplied sz), read_limit = limit \<rparr>"

definition requirements_resolved_exact :: "u64 \<Rightarrow> u64 option \<Rightarrow> ReadRequirements" where
  "requirements_resolved_exact sz limit =
    \<lparr> expected_len = Some sz, expected_eof = Some (ResolvedWithFile sz), read_limit = limit \<rparr>"

definition operation_pipeline_depth_for_slots :: "usize \<Rightarrow> usize" where
  "operation_pipeline_depth_for_slots slot_count = min (max slot_count 1) MAX_OPERATION_PIPELINE_DEPTH"

definition operation_pipeline_depth :: "NfsSession \<Rightarrow> usize" where
  "operation_pipeline_depth s = operation_pipeline_depth_for_slots (session_slot_count s)"

definition small_get_probe_count :: "NfsSession \<Rightarrow> u64 option \<Rightarrow> u32" where
  "small_get_probe_count s limit = (case limit of
     Some limit \<Rightarrow> ucast (min limit (ucast (read_granularity (ns_config s)) :: u64))
   | None \<Rightarrow> read_granularity (ns_config s))"

definition read_needs_retry :: "ReadData \<Rightarrow> u32 \<Rightarrow> bool" where
  "read_needs_retry read count \<longleftrightarrow> length (read_data read) < unat count \<and> \<not> read_eof read"

definition validate_read_reply :: "ReadData \<Rightarrow> u32 \<Rightarrow> unit result" where
  "validate_read_reply read count =
    (if length (read_data read) > unat count
     then Err (Protocol ''NFS READ returned {} bytes for a {} byte request'')
     else if 0 < count \<and> read_data read = [] \<and> \<not> read_eof read
     then Err (Protocol ''NFS READ returned no data for a nonzero request without EOF'')
     else Ok ())"

primrec eof_offset :: "ExpectedEof \<Rightarrow> u64" where
  "eof_offset (CallerSupplied offset) = offset"
| "eof_offset (ResolvedWithFile offset) = offset"

definition size_expectation_error :: "ExpectedEof \<Rightarrow> u64 option \<Rightarrow> Error" where
  "size_expectation_error expectation actual = (case expectation of
     CallerSupplied expected \<Rightarrow> FileSizeMismatch expected actual
   | ResolvedWithFile expected \<Rightarrow>
       (case actual of
          Some actual \<Rightarrow> Protocol ''READ reached EOF at byte {actual}, but the size resolved with the file was {expected}''
        | None \<Rightarrow> Protocol ''READ reached resolved size {expected} without the required EOF indication''))"

definition validate_eof_expectation :: "ExpectedEof \<Rightarrow> u64 \<Rightarrow> bool \<Rightarrow> unit result" where
  "validate_eof_expectation expectation observed_end eof =
    (let expected = eof_offset expectation in
     if eof then
       (if observed_end = expected then Ok () else Err (size_expectation_error expectation (Some observed_end)))
     else if observed_end \<ge> expected then Err (size_expectation_error expectation None)
     else Ok ())"

definition validate_expected_eof :: "u64 \<Rightarrow> u64 \<Rightarrow> bool \<Rightarrow> unit result" where
  "validate_expected_eof expected observed_end eof = validate_eof_expectation (CallerSupplied expected) observed_end eof"

definition validate_optional_expected_eof :: "ExpectedEof option \<Rightarrow> u64 \<Rightarrow> bool \<Rightarrow> unit result" where
  "validate_optional_expected_eof expected observed_end eof = (case expected of
     Some expected \<Rightarrow> validate_eof_expectation expected observed_end eof
   | None \<Rightarrow> Ok ())"

definition validate_optional_observed_eof :: "ExpectedEof option \<Rightarrow> u64 option \<Rightarrow> unit result" where
  "validate_optional_observed_eof expected observed_eof = (case (expected, observed_eof) of
     (Some expected, Some actual) \<Rightarrow>
       if eof_offset expected \<noteq> actual then Err (size_expectation_error expected (Some actual)) else Ok ()
   | (None, _) \<Rightarrow> Ok ()
   | (Some expected, None) \<Rightarrow> Err (size_expectation_error expected None))"

definition buffered_read_capacity :: "u64 option \<Rightarrow> u64 \<Rightarrow> u64 option \<Rightarrow> usize" where
  "buffered_read_capacity len requested_len limit =
    (let sz = (case len of Some n \<Rightarrow> n | None \<Rightarrow> requested_len);
         limit = (case limit of Some n \<Rightarrow> n | None \<Rightarrow> DEFAULT_MAX_BUFFERED_READ_SIZE) in
     unat (min sz limit))"

definition ensure_known_size_within_limit :: "u64 \<Rightarrow> u64 option \<Rightarrow> unit result" where
  "ensure_known_size_within_limit sz limit = (case limit of
     Some limit \<Rightarrow> if sz > limit then Err (BufferedReadTooLarge (Some sz) limit) else Ok ()
   | None \<Rightarrow> Ok ())"

definition ensure_buffered_read_within_limit :: "usize \<Rightarrow> usize \<Rightarrow> u64 option \<Rightarrow> u64 option \<Rightarrow> unit result" where
  "ensure_buffered_read_within_limit current_len additional_len len limit = (case limit of
     None \<Rightarrow> Ok ()
   | Some limit \<Rightarrow>
       if saturating_add current_len additional_len > unat limit then Err (BufferedReadTooLarge len limit) else Ok ())"

subsection \<open>Scheduling chunks\<close>

record ReadTaskOutput =
  rt_offset :: u64
  rt_requested :: u32
  rt_data :: bytes
  rt_eof :: bool

definition data_len :: "ReadTaskOutput \<Rightarrow> u64" where
  "data_len read = of_nat (length (rt_data read))"

definition u64_saturating_sub :: "u64 \<Rightarrow> u64 \<Rightarrow> u64" where
  "u64_saturating_sub a b = (if b \<le> a then a - b else 0)"

definition u64_saturating_add :: "u64 \<Rightarrow> u64 \<Rightarrow> u64" where
  "u64_saturating_add a b = (if unat a + unat b < 2 ^ 64 then a + b else - 1)"

definition short_read_gap :: "ReadTaskOutput \<Rightarrow> (u64 \<times> u64) option" where
  "short_read_gap read =
    (let gap_len = u64_saturating_sub (ucast (rt_requested read)) (data_len read) in
     if \<not> rt_eof read \<and> 0 < gap_len then Some (rt_offset read + data_len read, gap_len) else None)"

record ChunkScheduler =
  gaps :: "(u64 \<times> u64) list"
  sched_offset :: u64
  sched_end :: u64
  sched_chunk :: u64

definition scheduler_new :: "u64 \<Rightarrow> u64 \<Rightarrow> u64 \<Rightarrow> ChunkScheduler" where
  "scheduler_new start end' chunk_size =
    \<lparr> gaps = [], sched_offset = start, sched_end = end', sched_chunk = chunk_size \<rparr>"

definition push_gap :: "u64 \<Rightarrow> u64 \<Rightarrow> ChunkScheduler \<Rightarrow> ChunkScheduler" where
  "push_gap offset len s = s\<lparr> gaps := gaps s @ [(offset, len)] \<rparr>"

definition next_range :: "bool \<Rightarrow> ChunkScheduler \<Rightarrow> (u64 \<times> u32) option \<times> ChunkScheduler" where
  "next_range eof_observed s =
    (if gaps s \<noteq> [] then
       (let (offset, len) = last (gaps s) in
        (Some (offset, ucast (min len (sched_chunk s))), s\<lparr> gaps := butlast (gaps s) \<rparr>))
     else if eof_observed \<or> sched_offset s \<ge> sched_end s then (None, s)
     else
       (let offset = sched_offset s; len = min (sched_end s - offset) (sched_chunk s) in
        (Some (offset, ucast len), s\<lparr> sched_offset := sched_offset s + len \<rparr>)))"

subsection \<open>Reassembling replies\<close>

record PipelinedEmit =
  pe_out :: bytes
  pe_completed :: "ReadTaskOutput list"
  pe_next :: u64
  pe_eof_at :: "u64 option"
  pe_upper :: "u64 option"
  pe_error :: "Error option"
  pe_requirements :: ReadRequirements

definition emit_new :: "bytes \<Rightarrow> u64 \<Rightarrow> ReadRequirements \<Rightarrow> PipelinedEmit" where
  "emit_new out start req =
    \<lparr> pe_out = out, pe_completed = [], pe_next = start, pe_eof_at = None, pe_upper = None, pe_error = None,
      pe_requirements = req \<rparr>"

definition eof_observed :: "PipelinedEmit \<Rightarrow> bool" where
  "eof_observed p \<longleftrightarrow> pe_upper p \<noteq> None"

definition can_schedule_more :: "PipelinedEmit \<Rightarrow> bool" where
  "can_schedule_more p \<longleftrightarrow> pe_error p = None"

definition record_error :: "Error \<Rightarrow> PipelinedEmit \<Rightarrow> PipelinedEmit" where
  "record_error e p = (case pe_error p of None \<Rightarrow> p\<lparr> pe_error := Some e \<rparr> | Some _ \<Rightarrow> p)"

definition observe_eof_upper_bound :: "u64 \<Rightarrow> PipelinedEmit \<Rightarrow> PipelinedEmit" where
  "observe_eof_upper_bound eof_at_or_before p =
    (let p = (case pe_eof_at p of
           Some exact \<Rightarrow>
             if exact > eof_at_or_before
             then record_error (Protocol ''pipelined READ reported EOF upper bound {eof_at_or_before} below exact EOF offset {exact}'') p
             else p
         | None \<Rightarrow> p) in
     p\<lparr> pe_upper := Some (case pe_upper p of Some current \<Rightarrow> min current eof_at_or_before | None \<Rightarrow> eof_at_or_before) \<rparr>)"

definition observe_exact_eof :: "u64 \<Rightarrow> PipelinedEmit \<Rightarrow> PipelinedEmit" where
  "observe_exact_eof eof_at p =
    (let p = (case pe_upper p of
           Some upper_bound \<Rightarrow>
             if eof_at > upper_bound
             then record_error (Protocol ''pipelined READ reported exact EOF offset {eof_at} beyond earlier EOF upper bound {upper_bound}'') p
             else p
         | None \<Rightarrow> p);
         p = (case pe_eof_at p of
           Some current \<Rightarrow>
             if current = eof_at then p
             else record_error (Protocol ''pipelined READ reported conflicting EOF offsets: {current} and {eof_at}'') p
         | None \<Rightarrow> p\<lparr> pe_eof_at := Some eof_at \<rparr>) in
     observe_eof_upper_bound eof_at p)"

definition observe_read_eof :: "ReadTaskOutput \<Rightarrow> PipelinedEmit \<Rightarrow> PipelinedEmit" where
  "observe_read_eof read p =
    (let eof_at = rt_offset read + data_len read in
     if rt_data read = [] \<and> rt_offset read \<noteq> pe_next p then observe_eof_upper_bound eof_at p
     else observe_exact_eof eof_at p)"

definition emit :: "ReadTaskOutput \<Rightarrow> PipelinedEmit \<Rightarrow> PipelinedEmit" where
  "emit read p =
    (if rt_data read = [] then observe_exact_eof (rt_offset read) p
     else
       (case ensure_buffered_read_within_limit (length (pe_out p)) (length (rt_data read))
               (expected_len (pe_requirements p)) (read_limit (pe_requirements p)) of
          Err e \<Rightarrow> record_error e p
        | _ \<Rightarrow>
          (let p = p\<lparr> pe_next := pe_next p + data_len read, pe_out := pe_out p @ rt_data read \<rparr> in
           if rt_eof read then observe_exact_eof (pe_next p) p else p)))"

text \<open>\<open>swap_remove\<close> of a vector: the last element takes the place of the removed one.\<close>

definition swap_remove :: "nat \<Rightarrow> 'a list \<Rightarrow> 'a list" where
  "swap_remove i xs = butlast (xs[i := last xs])"

fun position :: "('a \<Rightarrow> bool) \<Rightarrow> 'a list \<Rightarrow> nat option" where
  "position P [] = None"
| "position P (x # xs) = (if P x then Some 0 else map_option Suc (position P xs))"

definition take_completed :: "PipelinedEmit \<Rightarrow> ReadTaskOutput option \<times> PipelinedEmit" where
  "take_completed p = (case position (\<lambda>read. rt_offset read = pe_next p) (pe_completed p) of
     None \<Rightarrow> (None, p)
   | Some i \<Rightarrow> (Some (pe_completed p ! i), p\<lparr> pe_completed := swap_remove i (pe_completed p) \<rparr>))"

definition at_or_after :: "u64 option \<Rightarrow> u64 \<Rightarrow> bool" where
  "at_or_after eof_at position_at \<longleftrightarrow> (case eof_at of Some offset \<Rightarrow> position_at \<ge> offset | None \<Rightarrow> False)"

lemma swap_remove_length: "i < length xs \<Longrightarrow> length (swap_remove i xs) < length xs"
  by (simp add: swap_remove_def)

lemma position_bound: "position P xs = Some i \<Longrightarrow> i < length xs \<and> P (xs ! i)"
  by (induction xs arbitrary: i) (auto split: if_splits)

lemma position_None: "position P xs = None \<longleftrightarrow> (\<forall>x \<in> set xs. \<not> P x)"
  by (induction xs) auto

lemma record_error_sel [simp]:
  "pe_out (record_error e p) = pe_out p" "pe_completed (record_error e p) = pe_completed p"
  "pe_next (record_error e p) = pe_next p" "pe_eof_at (record_error e p) = pe_eof_at p"
  "pe_upper (record_error e p) = pe_upper p" "pe_requirements (record_error e p) = pe_requirements p"
  "pe_error (record_error e p) \<noteq> None"
  by (auto simp: record_error_def split: option.splits)

lemma observe_sel [simp]:
  "pe_out (observe_eof_upper_bound a p) = pe_out p" "pe_completed (observe_eof_upper_bound a p) = pe_completed p"
  "pe_next (observe_eof_upper_bound a p) = pe_next p" "pe_eof_at (observe_eof_upper_bound a p) = pe_eof_at p"
  "pe_requirements (observe_eof_upper_bound a p) = pe_requirements p"
  "pe_out (observe_exact_eof a p) = pe_out p" "pe_completed (observe_exact_eof a p) = pe_completed p"
  "pe_next (observe_exact_eof a p) = pe_next p" "pe_requirements (observe_exact_eof a p) = pe_requirements p"
  by (simp_all add: observe_eof_upper_bound_def observe_exact_eof_def Let_def split: option.splits)

lemma emit_completed [simp]: "pe_completed (emit read p) = pe_completed p"
  by (simp add: emit_def Let_def split: outcome.splits)

lemma take_completed_shrinks: "take_completed p = (Some read, q) \<Longrightarrow> length (pe_completed q) < length (pe_completed p)"
  by (auto simp: take_completed_def split: option.splits dest!: position_bound intro: swap_remove_length)

function drain_queued :: "PipelinedEmit \<Rightarrow> PipelinedEmit" where
  "drain_queued p =
    (if at_or_after (pe_eof_at p) (pe_next p) then p
     else (case take_completed p of
         (None, p) \<Rightarrow> p
       | (Some read, p) \<Rightarrow>
           (let p = emit read p in
            if pe_error p \<noteq> None \<or> at_or_after (pe_eof_at p) (pe_next p) then p else drain_queued p)))"
  by pat_completeness auto
termination
  by (relation "measure (\<lambda>p. length (pe_completed p))") (auto dest: take_completed_shrinks [OF sym])

declare drain_queued.simps [simp del]

definition beyond :: "u64 option \<Rightarrow> ReadTaskOutput \<Rightarrow> bool" where
  "beyond eof_at read \<longleftrightarrow> (case eof_at of
     Some eof_at \<Rightarrow> rt_data read \<noteq> [] \<and> u64_saturating_add (rt_offset read) (data_len read) > eof_at
   | None \<Rightarrow> False)"

definition record_read :: "ReadTaskOutput \<Rightarrow> PipelinedEmit \<Rightarrow> PipelinedEmit" where
  "record_read read p =
    (let p = (if rt_eof read then observe_read_eof read p else p) in
     if beyond (pe_eof_at p) read
     then record_error (Protocol ''pipelined READ returned data beyond a previously reported EOF'') p
     else if rt_offset read = pe_next p then drain_queued (emit read p)
     else p\<lparr> pe_completed := pe_completed p @ [read] \<rparr>)"

definition emit_finish :: "PipelinedEmit \<Rightarrow> unit result" where
  "emit_finish p = (case pe_error p of
     Some e \<Rightarrow> Err e
   | None \<Rightarrow>
     if list_ex (beyond (pe_eof_at p)) (pe_completed p)
     then Err (Protocol ''pipelined READ returned queued data beyond EOF'')
     else (case pe_eof_at p of
         Some eof_at \<Rightarrow>
           if pe_next p < eof_at then Err (Protocol ''pipelined READ completed with a hole below EOF'')
           else validate_optional_observed_eof (expected_eof (pe_requirements p)) (pe_eof_at p)
       | None \<Rightarrow>
           if (case pe_upper p of Some upper_bound \<Rightarrow> pe_next p < upper_bound | None \<Rightarrow> False)
           then Err (Protocol ''pipelined READ completed before resolving EOF offset'')
           else validate_optional_observed_eof (expected_eof (pe_requirements p)) (pe_eof_at p)))"

subsection \<open>The pipelined read\<close>

text \<open>
  \<open>task\<close> is one READ in flight, \<open>reads\<close> the ranges in flight, and \<open>picks\<close> decides which of them completes
  next. A task acts on the state when it completes; what it does before is part of what the other
  tasks of the session do. One unit of fuel is one completion.
\<close>

function schedule_reads ::
  "usize \<Rightarrow> PipelinedEmit \<Rightarrow> ChunkScheduler \<Rightarrow> (u64 \<times> u32) list \<Rightarrow> ChunkScheduler \<times> (u64 \<times> u32) list" where
  "schedule_reads depth p s reads =
    (if can_schedule_more p \<and> length reads < depth then
       (case next_range (eof_observed p) s of
          (None, s) \<Rightarrow> (s, reads)
        | (Some wanted, s) \<Rightarrow> schedule_reads depth p s (reads @ [wanted]))
     else (s, reads))"
  by pat_completeness auto
termination
  by (relation "measure (\<lambda>(depth, p, s, reads). depth - length reads)") auto

declare schedule_reads.simps [simp del]

definition note_gap :: "ReadTaskOutput \<Rightarrow> ChunkScheduler \<Rightarrow> ChunkScheduler" where
  "note_gap read s = (case short_read_gap read of
     Some (gap_offset, gap_len) \<Rightarrow> push_gap gap_offset gap_len s
   | None \<Rightarrow> s)"

primrec pipelined_loop ::
  "nat \<Rightarrow> (nat \<Rightarrow> nat) \<Rightarrow> (u64 \<Rightarrow> u32 \<Rightarrow> ('s, Error, ReadTaskOutput) stm) \<Rightarrow> usize \<Rightarrow>
     ChunkScheduler \<Rightarrow> PipelinedEmit \<Rightarrow> (u64 \<times> u32) list \<Rightarrow> 's \<Rightarrow> (PipelinedEmit result \<times> 's) option" where
  "pipelined_loop 0 picks task depth s p reads st = None"
| "pipelined_loop (Suc fuel) picks task depth s p reads st =
    (case schedule_reads depth p s reads of (s, reads) \<Rightarrow>
       if reads = [] then Some (Ok p, st)
       else
         (let i = picks fuel mod length reads; rest = take i reads @ drop (Suc i) reads in
          case reads ! i of (offset, count) \<Rightarrow>
          (case task offset count st of
             (Ok read, st) \<Rightarrow> pipelined_loop fuel picks task depth (note_gap read s) (record_read read p) rest st
           | (Err e, st) \<Rightarrow> pipelined_loop fuel picks task depth s (record_error e p) rest st
           | (Panic, st) \<Rightarrow> Some (Panic, st))))"

text \<open>\<open>into_enough\<close> of \<open>read_source\<close> shows that the fuel is enough, so that the last case is never taken.\<close>

definition pipelined_into ::
  "(nat \<Rightarrow> nat) \<Rightarrow> (u64 \<Rightarrow> u32 \<Rightarrow> ('s, Error, ReadTaskOutput) stm) \<Rightarrow> usize \<Rightarrow> u64 \<Rightarrow> bytes \<Rightarrow> u64 \<Rightarrow> u64 \<Rightarrow>
     ReadRequirements \<Rightarrow> ('s, Error, bytes) stm" where
  "pipelined_into picks task depth chunk_size out start total_len req st =
    (case pipelined_loop (Suc (unat total_len)) picks task depth
            (scheduler_new start (u64_saturating_add start total_len) chunk_size) (emit_new out start req) [] st of
       Some (Ok p, st) \<Rightarrow> (then_outcome (emit_finish p) (\<lambda>_. Ok (pe_out p)), st)
     | Some (Err e, st) \<Rightarrow> (Err e, st)
     | Some (Panic, st) \<Rightarrow> (Panic, st)
     | None \<Rightarrow> (Panic, st))"

definition read_chunk :: "FileHandle \<Rightarrow> u64 \<Rightarrow> u32 \<Rightarrow> ReadTaskOutput io" where
  "read_chunk h offset count =
    and_then (read_anonymous h offset count) (\<lambda>read.
    and_then (lift (validate_read_reply read count)) (\<lambda>_.
    ok \<lparr> rt_offset = offset, rt_requested = count, rt_data = read_data read, rt_eof = read_eof read \<rparr>))"

subsection \<open>Reading from a handle\<close>

definition len64 :: "bytes \<Rightarrow> u64" where
  "len64 bs = of_nat (length bs)"

lemma saturating_sub_decreases:
  assumes "0 < rem_len" and "bs \<noteq> []" and "length bs < 2 ^ 64"
  shows "unat (u64_saturating_sub rem_len (len64 bs)) < unat rem_len"
proof -
  have "unat (len64 bs) = length bs" using assms(3) by (simp add: len64_def unat_of_nat)
  then have "0 < unat (len64 bs)" using assms(2) by simp
  moreover have "0 < unat rem_len" using assms(1) by (simp add: unat_gt_0 word_neq_0_conv)
  ultimately show ?thesis by (simp add: u64_saturating_sub_def unat_sub word_le_nat_alt)
qed

lemma validate_read_reply_Ok:
  "validate_read_reply read count = Ok () \<longleftrightarrow>
     length (read_data read) \<le> unat count \<and> (count = 0 \<or> read_data read \<noteq> [] \<or> read_eof read)"
  using word_neq_0_conv [of count] by (auto simp: validate_read_reply_def)

lemma validated_length: "validate_read_reply read count = Ok () \<Longrightarrow> length (read_data read) < 2 ^ 64"
proof -
  assume "validate_read_reply read count = Ok ()"
  then have "length (read_data read) \<le> unat count" by (simp add: validate_read_reply_Ok)
  also have "\<dots> < 2 ^ 32" using unsigned_less [of count] by simp
  finally show ?thesis by simp
qed

function sequential_into ::
  "FileHandle \<Rightarrow> ReadRequirements \<Rightarrow> bytes \<Rightarrow> u64 \<Rightarrow> u64 \<Rightarrow> u64 option \<Rightarrow> bytes io" where
  "sequential_into h req out offset rem_len observed io =
    (let finish = (\<lambda>out observed. then_outcome (validate_optional_observed_eof (expected_eof req) observed) (\<lambda>_. Ok out));
         count = ucast (min rem_len (ucast (read_chunk_size (ns_config (inner io))))) in
     if rem_len = 0 then (finish out observed, io)
     else (case read_anonymous h offset count io of
         (Err e, io) \<Rightarrow> (Err e, io)
       | (Panic, io) \<Rightarrow> (Panic, io)
       | (Ok read, io) \<Rightarrow>
           (case validate_read_reply read count of
              Err e \<Rightarrow> (Err e, io)
            | Panic \<Rightarrow> (Panic, io)
            | Ok _ \<Rightarrow>
                (let observed = (if read_eof read then Some (offset + len64 (read_data read)) else observed) in
                 if read_data read = [] then (finish out observed, io)
                 else (case ensure_buffered_read_within_limit (length out) (length (read_data read))
                              (expected_len req) (read_limit req) of
                     Err e \<Rightarrow> (Err e, io)
                   | Panic \<Rightarrow> (Panic, io)
                   | Ok _ \<Rightarrow>
                       if read_eof read then (finish (out @ read_data read) observed, io)
                       else sequential_into h req (out @ read_data read) (offset + len64 (read_data read))
                              (u64_saturating_sub rem_len (len64 (read_data read))) observed io)))))"
  by pat_completeness auto
termination
  by (relation "measure (\<lambda>(h, req, out, offset, rem_len, observed, io). unat rem_len)")
    (auto intro!: saturating_sub_decreases validated_length simp: word_neq_0_conv)

declare sequential_into.simps [simp del]

definition read_handle_to_bytes_sequential_into :: "FileHandle \<Rightarrow> bytes \<Rightarrow> u64 \<Rightarrow> u64 \<Rightarrow> ReadRequirements \<Rightarrow> bytes io" where
  "read_handle_to_bytes_sequential_into h out offset rem_len req = sequential_into h req out offset rem_len None"

definition read_handle_to_bytes_pipelined_into ::
  "(nat \<Rightarrow> nat) \<Rightarrow> FileHandle \<Rightarrow> bytes \<Rightarrow> u64 \<Rightarrow> u64 \<Rightarrow> ReadRequirements \<Rightarrow> bytes io" where
  "read_handle_to_bytes_pipelined_into picks h out start total_len req io =
    pipelined_into picks (read_chunk h) (operation_pipeline_depth (inner io))
      (ucast (read_granularity (ns_config (inner io)))) out start total_len req io"

definition granularity64 :: "NfsSession \<Rightarrow> u64" where
  "granularity64 s = ucast (read_granularity (ns_config s))"

definition read_handle_to_bytes_after_prefix ::
  "(nat \<Rightarrow> nat) \<Rightarrow> FileHandle \<Rightarrow> bytes \<Rightarrow> u64 \<Rightarrow> u64 \<Rightarrow> ReadRequirements \<Rightarrow> bytes io" where
  "read_handle_to_bytes_after_prefix picks h pre resume_offset rem_len req io =
    (if rem_len \<le> granularity64 (inner io) \<or> operation_pipeline_depth (inner io) \<le> 1
     then read_handle_to_bytes_sequential_into h pre resume_offset rem_len req io
     else read_handle_to_bytes_pipelined_into picks h pre resume_offset rem_len req io)"

definition read_handle_single_chunk_or_continue :: "FileHandle \<Rightarrow> u64 \<Rightarrow> u32 \<Rightarrow> ReadRequirements \<Rightarrow> bytes io" where
  "read_handle_single_chunk_or_continue h offset count req =
    and_then (read_anonymous h offset count) (\<lambda>read.
    and_then (lift (validate_read_reply read count)) (\<lambda>_.
    and_then (lift (ensure_buffered_read_within_limit 0 (length (read_data read)) (expected_len req) (read_limit req))) (\<lambda>_.
    if \<not> read_needs_retry read count
    then and_then (lift (validate_optional_expected_eof (expected_eof req) (offset + len64 (read_data read)) (read_eof read))) (\<lambda>_.
      ok (read_data read))
    else read_handle_to_bytes_sequential_into h (read_data read) (offset + len64 (read_data read))
      (u64_saturating_sub (ucast count) (len64 (read_data read))) req)))"

definition read_handle_to_bytes :: "(nat \<Rightarrow> nat) \<Rightarrow> FileHandle \<Rightarrow> u64 \<Rightarrow> u64 \<Rightarrow> ReadRequirements \<Rightarrow> bytes io" where
  "read_handle_to_bytes picks h offset rem_len req io =
    (if rem_len = 0 then (Ok [], io)
     else if rem_len \<le> granularity64 (inner io)
     then read_handle_single_chunk_or_continue h offset (ucast rem_len) req io
     else if operation_pipeline_depth (inner io) \<le> 1
     then read_handle_to_bytes_sequential_into h [] offset rem_len req io
     else read_handle_to_bytes_pipelined_into picks h [] offset rem_len req io)"

definition read_range_anonymous :: "(nat \<Rightarrow> nat) \<Rightarrow> string list \<Rightarrow> u64 \<Rightarrow> u64 \<Rightarrow> ReadRequirements \<Rightarrow> bytes io" where
  "read_range_anonymous picks components start requested_len req =
    and_then session_of (\<lambda>s.
    if requested_len \<le> granularity64 s then
      (let count = ucast requested_len :: u32 in
       and_then (read_path_anonymous components start count) (\<lambda>read.
       and_then (lift (validate_read_reply read count)) (\<lambda>_.
       and_then (lift (ensure_buffered_read_within_limit 0 (length (read_data read)) (expected_len req) (read_limit req))) (\<lambda>_.
       if \<not> read_needs_retry read count
       then and_then (lift (validate_optional_expected_eof (expected_eof req) (start + len64 (read_data read)) (read_eof read))) (\<lambda>_.
         ok (read_data read))
       else and_then (lookup_file_handle components) (\<lambda>h.
         read_handle_to_bytes picks h start requested_len req)))))
    else
      (let count = read_granularity (ns_config s) in
       and_then (read_path_anonymous_with_handle components start count) (\<lambda>(h, read).
       and_then (lift (validate_read_reply read count)) (\<lambda>_.
       and_then (lift (ensure_buffered_read_within_limit 0 (length (read_data read)) (expected_len req) (read_limit req))) (\<lambda>_.
       if read_eof read
       then and_then (lift (validate_optional_expected_eof (expected_eof req) (start + len64 (read_data read)) True)) (\<lambda>_.
         ok (read_data read))
       else read_handle_to_bytes_after_prefix picks h (read_data read) (start + len64 (read_data read))
         (requested_len - len64 (read_data read)) req)))))"

subsection \<open>Reads of the client\<close>

text \<open>The limit is \<open>max_buffered_read_size\<close> of the client.\<close>

definition get_once :: "(nat \<Rightarrow> nat) \<Rightarrow> u64 option \<Rightarrow> string list \<Rightarrow> bytes io" where
  "get_once picks limit components =
    and_then session_of (\<lambda>s.
    (let count = small_get_probe_count s limit in
     and_then (read_path_anonymous_with_size components count) (\<lambda>(h, sz, read).
     and_then (lift (validate_read_reply read count)) (\<lambda>_.
     and_then (lift (ensure_known_size_within_limit sz limit)) (\<lambda>_.
     (let read_len = len64 (read_data read) in
      if read_len = sz
      then and_then (lift (validate_eof_expectation (ResolvedWithFile sz) read_len (read_eof read))) (\<lambda>_. ok (read_data read))
      else if read_len > sz
      then fail (size_expectation_error (ResolvedWithFile sz) (if read_eof read then Some read_len else None))
      else if read_eof read then fail (size_expectation_error (ResolvedWithFile sz) (Some read_len))
      else read_handle_to_bytes_after_prefix picks h (read_data read) read_len (sz - read_len)
             (requirements_resolved_exact sz limit)))))))"

definition get_known_size_once :: "(nat \<Rightarrow> nat) \<Rightarrow> u64 option \<Rightarrow> string list \<Rightarrow> u64 \<Rightarrow> bytes io" where
  "get_known_size_once picks limit components sz =
    and_then (lift (ensure_known_size_within_limit sz limit)) (\<lambda>_.
    if sz = 0 then
      and_then (read_path_anonymous components 0 1) (\<lambda>read.
      and_then (lift (validate_read_reply read 1)) (\<lambda>_.
      and_then (lift (validate_expected_eof 0 (len64 (read_data read)) (read_eof read))) (\<lambda>_. ok [])))
    else read_range_anonymous picks components 0 sz (requirements_exact sz limit))"

datatype EntryKind = EntryFile | EntryDirectory | EntryOther

definition entry_kind_from_file_type :: "FileType option \<Rightarrow> EntryKind" where
  "entry_kind_from_file_type t = (case t of
     Some Regular \<Rightarrow> EntryFile
   | Some Directory \<Rightarrow> EntryDirectory
   | _ \<Rightarrow> EntryOther)"

record EntryInfo =
  entry_kind :: EntryKind
  entry_size :: u64

text \<open>A missing size is the \<open>expect\<close> of the source, a panic.\<close>

definition entry_info_once :: "string list \<Rightarrow> EntryInfo io" where
  "entry_info_once components =
    and_then (lookup_file_handle_attrs components AttrTypeAndSize) (\<lambda>(h, attrs). case attr_size attrs of
      None \<Rightarrow> (\<lambda>io. (Panic, io))
    | Some sz \<Rightarrow> ok \<lparr> entry_kind = entry_kind_from_file_type (attr_file_type attrs), entry_size = sz \<rparr>)"

definition range_read_needs_size :: "u64 \<Rightarrow> u64 option \<Rightarrow> bool" where
  "range_read_needs_size requested_len limit \<longleftrightarrow> (case limit of Some limit \<Rightarrow> requested_len > limit | None \<Rightarrow> False)"

definition buffered_range_len :: "u64 \<Rightarrow> u64 \<Rightarrow> u64 option \<Rightarrow> u64" where
  "buffered_range_len start end' file_size = (case file_size of
     Some sz \<Rightarrow> if start \<ge> sz then 0 else u64_saturating_sub (min end' sz) start
   | None \<Rightarrow> end' - start)"

definition get_range_once :: "(nat \<Rightarrow> nat) \<Rightarrow> u64 option \<Rightarrow> string list \<Rightarrow> u64 \<Rightarrow> u64 \<Rightarrow> bytes io" where
  "get_range_once picks limit components start end' =
    (let requested_len = end' - start in
     if \<not> range_read_needs_size requested_len limit
     then read_range_anonymous picks components start requested_len (requirements_new (Some requested_len) limit)
     else
       and_then (lookup_file_handle_attrs components AttrSize) (\<lambda>(h, attrs).
       (let len = buffered_range_len start end' (attr_size attrs) in
        and_then (lift (ensure_known_size_within_limit len limit)) (\<lambda>_.
        (let rem_len = min len requested_len in
         if rem_len = 0 then ok []
         else read_handle_to_bytes picks h start rem_len (requirements_new (Some len) limit))))))"

subsection \<open>What a consistent run of reads yields\<close>

definition honest :: "bytes \<Rightarrow> ReadTaskOutput \<Rightarrow> bool" where
  "honest file read \<longleftrightarrow>
     rt_data read = take (length (rt_data read)) (drop (unat (rt_offset read)) file) \<and>
     (rt_eof read \<longrightarrow> length file \<le> unat (rt_offset read) + length (rt_data read))"

text \<open>
  The ranges that are in flight, that are gaps, that have not been requested and that are completed but not
  emitted: \<open>covers x\<close> counts those that hold the position \<open>x\<close>.
\<close>

definition covers :: "nat \<Rightarrow> (nat \<times> nat) list \<Rightarrow> nat" where
  "covers x ps = length (filter (\<lambda>(a, l). a \<le> x \<and> x < a + l) ps)"

definition pieces :: "ChunkScheduler \<Rightarrow> (u64 \<times> u32) list \<Rightarrow> ReadTaskOutput list \<Rightarrow> (nat \<times> nat) list" where
  "pieces s reads completed =
    map (\<lambda>(offset, count). (unat offset, unat count)) reads @
    map (\<lambda>(offset, len). (unat offset, unat len)) (gaps s) @
    [(unat (sched_offset s), unat (sched_end s) - unat (sched_offset s))] @
    map (\<lambda>read. (unat (rt_offset read), length (rt_data read))) completed"

lemma covers_append [simp]: "covers x (ps @ qs) = covers x ps + covers x qs"
  by (simp add: covers_def)

lemma covers_Cons: "covers x ((a, l) # ps) = (if a \<le> x \<and> x < a + l then 1 else 0) + covers x ps"
  by (simp add: covers_def)

lemma covers_Nil [simp]: "covers x [] = 0"
  by (simp add: covers_def)

lemma covers_positive: "0 < covers x ps \<longleftrightarrow> (\<exists>(a, l) \<in> set ps. a \<le> x \<and> x < a + l)"
  by (auto simp: covers_def filter_empty_conv)

lemma last_to_front:
  assumes "zs \<noteq> []"
  shows "length (filter P (last zs # butlast zs)) = length (filter P zs)" and "set (last zs # butlast zs) = set zs"
  using assms by (cases zs rule: rev_exhaust; simp)+

lemma swap_remove_split:
  assumes "i < length xs"
  obtains ys zs zs' where "xs = ys @ xs ! i # zs" and "swap_remove i xs = ys @ zs'" and
    "\<And>P. length (filter P zs') = length (filter P zs)" and "set zs' = set zs"
proof -
  let ?ys = "take i xs" and ?zs = "drop (Suc i) xs"
  have xs: "xs = ?ys @ xs ! i # ?zs" using assms by (simp add: id_take_nth_drop)
  show thesis
  proof (cases "?zs = []")
    case True
    then have "length xs = Suc i" using assms by simp
    then have "swap_remove i xs = ?ys" by (simp add: swap_remove_def butlast_conv_take)
    then show thesis using that [OF xs, of "[]"] True by simp
  next
    case False
    have upd: "xs[i := last xs] = ?ys @ last xs # ?zs" using assms by (simp add: upd_conv_take_nth_drop)
    have "last xs = last ?zs" using False by (simp add: last_drop)
    then have "swap_remove i xs = ?ys @ (last ?zs # butlast ?zs)"
      using False by (simp add: swap_remove_def upd butlast_append)
    then show thesis using that [OF xs, of "last ?zs # butlast ?zs"] last_to_front [OF False] by blast
  qed
qed

lemma take_completed_Some:
  assumes "take_completed p = (Some read, q)"
  shows "rt_offset read = pe_next p" and "q = p\<lparr> pe_completed := pe_completed q \<rparr>"
    and "set (pe_completed p) = insert read (set (pe_completed q))"
    and "covers x (map f (pe_completed p)) = covers x [f read] + covers x (map f (pe_completed q))"
proof -
  obtain i where i: "position (\<lambda>read. rt_offset read = pe_next p) (pe_completed p) = Some i" "read = pe_completed p ! i"
    "q = p\<lparr> pe_completed := swap_remove i (pe_completed p) \<rparr>"
    using assms by (auto simp: take_completed_def split: option.splits)
  note b = position_bound [OF i(1)]
  obtain ys zs zs' where s: "pe_completed p = ys @ pe_completed p ! i # zs" "swap_remove i (pe_completed p) = ys @ zs'"
    "\<And>P. length (filter P zs') = length (filter P zs)" "set zs' = set zs"
    using swap_remove_split [of i "pe_completed p"] b by blast
  show "rt_offset read = pe_next p" "q = p\<lparr> pe_completed := pe_completed q \<rparr>" using b i by simp_all
  have p: "pe_completed p = ys @ read # zs" and q: "pe_completed q = ys @ zs'" using s(1,2) i by simp_all
  show "set (pe_completed p) = insert read (set (pe_completed q))" unfolding p q using s(4) by auto
  have "covers x (map f zs') = covers x (map f zs)" using s(3) by (simp add: covers_def filter_map)
  then show "covers x (map f (pe_completed p)) = covers x [f read] + covers x (map f (pe_completed q))"
    unfolding p q by (simp add: covers_def)
qed

lemma take_completed_None: "take_completed p = (None, q) \<longleftrightarrow> q = p \<and> (\<forall>read \<in> set (pe_completed p). rt_offset read \<noteq> pe_next p)"
  by (auto simp: take_completed_def position_None [symmetric] split: option.splits)


definition scheduled :: "nat \<Rightarrow> ChunkScheduler \<Rightarrow> (u64 \<times> u32) list \<Rightarrow> bool" where
  "scheduled start s reads \<longleftrightarrow>
     0 < sched_chunk s \<and> unat (sched_chunk s) < 2 ^ 32 \<and>
     start \<le> unat (sched_offset s) \<and> sched_offset s \<le> sched_end s \<and>
     (\<forall>(offset, len) \<in> set (gaps s). 0 < len \<and> len \<le> sched_chunk s \<and> start \<le> unat offset \<and>
        unat offset + unat len \<le> unat (sched_offset s)) \<and>
     (\<forall>(offset, count) \<in> set reads. 0 < count \<and> unat count \<le> unat (sched_chunk s) \<and> start \<le> unat offset \<and>
        unat offset + unat count \<le> unat (sched_offset s))"

definition backlog :: "ChunkScheduler \<Rightarrow> (u64 \<times> u32) list \<Rightarrow> nat" where
  "backlog s reads =
    sum_list (map (\<lambda>(offset, count). unat count) reads) + sum_list (map (\<lambda>(offset, len). unat len) (gaps s)) +
    (unat (sched_end s) - unat (sched_offset s))"

lemma unat_lt_64: "unat (w :: u64) < 2 ^ 64"
  using unsigned_less [of w] by simp

lemma unat_ucast_chunk:
  fixes len chunk :: u64
  assumes "unat chunk < 2 ^ 32" and "len \<le> chunk"
  shows "unat (ucast len :: u32) = unat len"
proof -
  have "unat len < 2 ^ 32" using assms by (simp add: word_le_nat_alt)
  then show ?thesis by (simp add: unsigned_ucast_eq take_bit_nat_eq_self)
qed

lemma next_range_None:
  "next_range eof s = (None, s') \<longleftrightarrow> s' = s \<and> gaps s = [] \<and> (eof \<or> sched_end s \<le> sched_offset s)"
  by (auto simp: next_range_def Let_def split: prod.splits if_splits)

lemma next_range_cases:
  assumes "next_range eof s = (Some wanted, s')" and "scheduled start s reads"
  obtains (gap) gs offset len where "gaps s = gs @ [(offset, len)]" and "wanted = (offset, ucast len)" and
      "unat (ucast len :: u32) = unat len" and "s' = s\<lparr> gaps := gs \<rparr>"
    | (fresh) len where "gaps s = []" and "\<not> eof" and "0 < len" and "len \<le> sched_chunk s" and
      "wanted = (sched_offset s, ucast len)" and "unat (ucast len :: u32) = unat len" and
      "unat (sched_offset s + len) = unat (sched_offset s) + unat len" and
      "unat (sched_offset s) + unat len \<le> unat (sched_end s)" and
      "s' = s\<lparr> sched_offset := sched_offset s + len \<rparr>"
proof (cases "gaps s = []")
  case False
  then obtain gs offset len where g: "gaps s = gs @ [(offset, len)]" by (metis prod.exhaust rev_exhaust)
  moreover have "len \<le> sched_chunk s" and "unat (sched_chunk s) < 2 ^ 32"
    using assms(2) g by (auto simp: scheduled_def)
  ultimately show thesis using that(1) [OF g] assms(1) unat_ucast_chunk [of "sched_chunk s" len]
    by (simp add: next_range_def min_def)
next
  case True
  let ?len = "min (sched_end s - sched_offset s) (sched_chunk s)"
  have c: "\<not> eof" "sched_offset s < sched_end s" "wanted = (sched_offset s, ucast ?len)"
    "s' = s\<lparr> sched_offset := sched_offset s + ?len \<rparr>"
    using assms(1) True by (auto simp: next_range_def Let_def split: if_splits)
  have chunk: "0 < sched_chunk s" "unat (sched_chunk s) < 2 ^ 32" using assms(2) by (auto simp: scheduled_def)
  have le: "?len \<le> sched_end s - sched_offset s" "?len \<le> sched_chunk s" by simp_all
  have diff: "unat (sched_end s - sched_offset s) = unat (sched_end s) - unat (sched_offset s)"
    using c(2) by (simp add: unat_sub)
  then have sum: "unat (sched_offset s) + unat ?len \<le> unat (sched_end s)"
    using diff le(1) c(2) by (simp add: word_le_nat_alt word_less_nat_alt)
  then have add: "unat (sched_offset s + ?len) = unat (sched_offset s) + unat ?len"
    using unat_lt_64 [of "sched_end s"] by (simp add: unat_word_ariths)
  have pos: "0 < ?len" using c(2) chunk(1) diff by (simp add: min_def word_less_nat_alt)
  show thesis
    by (rule that(2) [OF True c(1) pos le(2) c(3) unat_ucast_chunk [OF chunk(2) le(2)] add sum c(4)])
qed

lemma next_range_keeps:
  assumes "next_range eof s = (Some wanted, s')" and "scheduled start s reads"
  shows "scheduled start s' (reads @ [wanted]) \<and> backlog s' (reads @ [wanted]) = backlog s reads \<and>
    covers x (pieces s' (reads @ [wanted]) completed) = covers x (pieces s reads completed) \<and>
    sched_offset s \<le> sched_offset s' \<and> sched_end s' = sched_end s"
    using assms
proof (cases rule: next_range_cases)
  case (gap gs offset len)
  have g: "0 < len" "len \<le> sched_chunk s" "start \<le> unat offset" "unat offset + unat len \<le> unat (sched_offset s)"
    using assms(2) gap(1) by (auto simp: scheduled_def)
  then have c: "0 < (ucast len :: u32)" using gap(3) by (simp add: word_less_nat_alt)
  have "scheduled start s' (reads @ [wanted])"
    using assms(2) g c unfolding scheduled_def gap(1,2,4) by (simp add: gap(3) word_le_nat_alt)
  moreover have "backlog s' (reads @ [wanted]) = backlog s reads" unfolding backlog_def gap(1,2,4) by (simp add: gap(3))
  moreover have "covers x (pieces s' (reads @ [wanted]) completed) = covers x (pieces s reads completed)"
    unfolding pieces_def gap(1,2,4) by (simp add: gap(3) covers_Cons)
  moreover have "sched_offset s \<le> sched_offset s'" "sched_end s' = sched_end s" using gap(4) by simp_all
  ultimately show ?thesis by blast
next
  case (fresh len)
  have c: "0 < (ucast len :: u32)" using fresh(3,6) by (simp add: word_less_nat_alt)
  have "scheduled start s' (reads @ [wanted])"
    using assms(2) fresh(4,8) c unfolding scheduled_def fresh(5,9)
    by (auto simp: fresh(1,6,7) word_le_nat_alt)
  moreover have "backlog s' (reads @ [wanted]) = backlog s reads"
    using fresh(8) unfolding backlog_def fresh(5,9) by (simp add: fresh(6,7))
  moreover have "covers x (pieces s' (reads @ [wanted]) completed) = covers x (pieces s reads completed)"
    using fresh(8) unfolding pieces_def fresh(5,9) by (simp add: fresh(6,7) covers_Cons)
  moreover have "sched_offset s \<le> sched_offset s'" "sched_end s' = sched_end s"
    using fresh(7,9) by (simp_all add: word_le_nat_alt)
  ultimately show ?thesis by blast
qed

lemma schedule_reads_keeps:
  assumes "scheduled start s reads" and "schedule_reads depth p s reads = (s', reads')"
  shows "scheduled start s' reads' \<and> backlog s' reads' = backlog s reads \<and>
    covers x (pieces s' reads' completed) = covers x (pieces s reads completed) \<and>
    sched_offset s \<le> sched_offset s' \<and> sched_end s' = sched_end s"
  using assms
proof (induction depth p s reads rule: schedule_reads.induct)
  case (1 depth p s reads)
  show ?case
  proof (cases "can_schedule_more p \<and> length reads < depth")
    case False
    then show ?thesis using "1.prems" by (subst (asm) schedule_reads.simps) auto
  next
    case True
    obtain w t where n: "next_range (eof_observed p) s = (w, t)" by fastforce
    show ?thesis
    proof (cases w)
      case None
      then show ?thesis using "1.prems" True n by (subst (asm) schedule_reads.simps) (simp add: next_range_None)
    next
      case (Some wanted)
      have r: "schedule_reads depth p t (reads @ [wanted]) = (s', reads')"
        using "1.prems"(2) True n Some by (subst (asm) schedule_reads.simps) simp
      note k = next_range_keeps [OF n [unfolded Some] "1.prems"(1)]
      show ?thesis
        using "1.IH" [OF True n [symmetric] Some _ r] k [of x completed] by (metis order_trans)
    qed
  qed
qed

lemma schedule_reads_grows: "length reads \<le> length (snd (schedule_reads depth p s reads))"
proof (induction depth p s reads rule: schedule_reads.induct)
  case (1 depth p s reads)
  show ?case
    unfolding schedule_reads.simps [of depth p s reads] using "1.IH" by (fastforce split: option.splits prod.splits)
qed

lemma schedule_reads_done:
  assumes "schedule_reads depth p s reads = (s', [])" and "pe_error p = None" and "0 < depth"
  shows "reads = [] \<and> s' = s \<and> gaps s = [] \<and> (eof_observed p \<or> sched_end s \<le> sched_offset s)"
proof -
  have r: "reads = []" using schedule_reads_grows [of reads depth p s] assms(1) by simp
  obtain w t where n: "next_range (eof_observed p) s = (w, t)" by fastforce
  have "w = None"
    using assms n schedule_reads_grows [of "[the w]" depth p t] r
    by (cases w) (auto simp: can_schedule_more_def schedule_reads.simps [of depth p s "[]"])
  then have none: "next_range (eof_observed p) s = (None, t)" using n by simp
  then have "s' = t" using assms r by (simp add: can_schedule_more_def schedule_reads.simps [of depth p s "[]"])
  then show ?thesis using none r by (simp add: next_range_None)
qed

definition shaped :: "u64 \<Rightarrow> u32 \<Rightarrow> ReadTaskOutput \<Rightarrow> bool" where
  "shaped offset count read \<longleftrightarrow>
     rt_offset read = offset \<and> rt_requested read = count \<and> length (rt_data read) \<le> unat count \<and>
     (0 < count \<longrightarrow> rt_data read \<noteq> [] \<or> rt_eof read)"

lemma scheduled_read:
  assumes "scheduled start s (us @ (offset, count) # vs)"
  shows "0 < unat count" and "start \<le> unat offset" and "unat offset + unat count \<le> unat (sched_offset s)"
    and "unat count \<le> unat (sched_chunk s)" and "unat (sched_offset s) \<le> unat (sched_end s)"
  using assms by (simp_all add: scheduled_def word_less_nat_alt word_le_nat_alt)

lemma scheduled_drop: "scheduled start s (us @ (offset, count) # vs) \<Longrightarrow> scheduled start s (us @ vs)"
  by (simp add: scheduled_def)

lemma backlog_drop:
  "scheduled start s (us @ (offset, count) # vs) \<Longrightarrow> backlog s (us @ vs) < backlog s (us @ (offset, count) # vs)"
  using scheduled_read(1) [of start s us offset count vs] by (simp add: backlog_def)

lemma unat_data_len: "length (rt_data read) < 2 ^ 64 \<Longrightarrow> unat (data_len read) = length (rt_data read)"
  by (simp add: data_len_def unat_of_nat)

lemma shaped_end:
  assumes "scheduled start s (us @ (offset, count) # vs)" and "shaped offset count read"
  shows "unat (data_len read) = length (rt_data read)"
    and "unat (offset + data_len read) = unat offset + length (rt_data read)"
    and "unat offset + length (rt_data read) \<le> unat (sched_offset s)"
proof -
  have c: "length (rt_data read) \<le> unat count" "unat offset + unat count \<le> unat (sched_offset s)"
    using assms(2) scheduled_read(3) [OF assms(1)] by (simp_all add: shaped_def)
  then have lt: "unat offset + length (rt_data read) < 2 ^ 64" using unat_lt_64 [of "sched_offset s"] by linarith
  then show d: "unat (data_len read) = length (rt_data read)" by (simp add: unat_data_len)
  show "unat (offset + data_len read) = unat offset + length (rt_data read)"
    using lt by (simp add: unat_word_ariths d)
  show "unat offset + length (rt_data read) \<le> unat (sched_offset s)" using c by linarith
qed

lemma unat_ucast_64 [simp]: "unat (ucast (w :: u32) :: u64) = unat w"
proof -
  have "unat w < 2 ^ 64" by (rule less_trans [OF unat_less_2p32]) simp
  then show ?thesis by (simp add: unsigned_ucast_eq take_bit_nat_eq_self)
qed

lemma note_gap_cases:
  assumes "scheduled start s (us @ (offset, count) # vs)" and "shaped offset count read"
  obtains (whole) "note_gap read s = s" and "rt_eof read \<or> length (rt_data read) = unat count"
  | (gap) len where "note_gap read s = s\<lparr> gaps := gaps s @ [(offset + data_len read, len)] \<rparr>" and
      "unat len = unat count - length (rt_data read)" and "\<not> rt_eof read" and "rt_data read \<noteq> []" and
      "length (rt_data read) < unat count"
proof -
  let ?len = "u64_saturating_sub (ucast count) (data_len read)"
  have len: "unat ?len = unat count - length (rt_data read)"
    using shaped_end(1) [OF assms] assms(2)
    by (auto simp: u64_saturating_sub_def shaped_def unat_sub word_le_nat_alt)
  have sh: "rt_offset read = offset" "rt_requested read = count" "length (rt_data read) \<le> unat count"
    using assms(2) by (simp_all add: shaped_def)
  have "rt_data read \<noteq> [] \<or> rt_eof read"
    using assms(2) scheduled_read(1) [OF assms(1)] by (simp add: shaped_def word_less_nat_alt)
  then show thesis
    using that sh len by (cases "\<not> rt_eof read \<and> 0 < ?len") (auto simp: note_gap_def short_read_gap_def push_gap_def word_less_nat_alt)
qed

lemma note_gap_keeps:
  assumes "scheduled start s (us @ (offset, count) # vs)" and "shaped offset count read"
  shows "scheduled start (note_gap read s) (us @ vs) \<and>
    backlog (note_gap read s) (us @ vs) < backlog s (us @ (offset, count) # vs) \<and>
    covers x (pieces s (us @ (offset, count) # vs) completed) =
      covers x (pieces (note_gap read s) (us @ vs) (read # completed)) +
      (if rt_eof read \<and> unat offset + length (rt_data read) \<le> x \<and> x < unat offset + unat count then 1 else 0) \<and>
    sched_offset (note_gap read s) = sched_offset s \<and> sched_end (note_gap read s) = sched_end s"
  using assms
proof (cases rule: note_gap_cases)
  case whole
  have "rt_offset read = offset" "length (rt_data read) \<le> unat count" using assms(2) by (simp_all add: shaped_def)
  then show ?thesis
    using scheduled_drop [OF assms(1)] backlog_drop [OF assms(1)] whole
    by (auto simp: pieces_def covers_Cons)
next
  case (gap len)
  note r = scheduled_read [OF assms(1)] and e = shaped_end [OF assms]
  have o: "rt_offset read = offset" using assms(2) by (simp add: shaped_def)
  have "scheduled start (note_gap read s) (us @ vs)"
    using scheduled_drop [OF assms(1)] r e gap(2-) unfolding gap(1)
    by (simp add: scheduled_def word_le_nat_alt word_less_nat_alt)
  moreover have "backlog (note_gap read s) (us @ vs) < backlog s (us @ (offset, count) # vs)"
  proof -
    have "0 < length (rt_data read)" using gap(4) by simp
    then have "unat len < unat count" using gap(2,5) by linarith
    then show ?thesis unfolding gap(1) by (simp add: backlog_def)
  qed
  moreover have "covers x (pieces s (us @ (offset, count) # vs) completed) =
      covers x (pieces (note_gap read s) (us @ vs) (read # completed))"
    using gap(2-) e o unfolding gap(1) by (simp add: pieces_def covers_Cons)
  ultimately show ?thesis using gap(1,3) by simp
qed

subsection \<open>The invariant of the reassembly\<close>

definition located :: "bytes \<Rightarrow> bytes \<Rightarrow> nat \<Rightarrow> nat \<Rightarrow> PipelinedEmit \<Rightarrow> bool" where
  "located file out start reached p \<longleftrightarrow>
     start \<le> unat (pe_next p) \<and> unat (pe_next p) \<le> max start (length file) \<and> unat (pe_next p) \<le> reached \<and>
     pe_out p = out @ take (unat (pe_next p) - start) (drop start file) \<and>
     (\<forall>a. pe_eof_at p = Some a \<longrightarrow> unat a = max start (length file)) \<and>
     (\<forall>u. pe_upper p = Some u \<longrightarrow> max start (length file) \<le> unat u \<and> unat u \<le> reached)"

definition valid_reads :: "bytes \<Rightarrow> nat \<Rightarrow> nat \<Rightarrow> ReadTaskOutput list \<Rightarrow> bool" where
  "valid_reads file start reached completed \<longleftrightarrow>
     (\<forall>read \<in> set completed. honest file read \<and> start \<le> unat (rt_offset read) \<and>
        unat (rt_offset read) + length (rt_data read) \<le> reached \<and> (rt_data read = [] \<longrightarrow> rt_eof read))"

definition eof_bound :: "nat \<Rightarrow> PipelinedEmit \<Rightarrow> nat" where
  "eof_bound e p = (case pe_upper p of None \<Rightarrow> e | Some u \<Rightarrow> unat u)"

definition spread :: "nat \<Rightarrow> nat \<Rightarrow> (nat \<times> nat) list \<Rightarrow> bool" where
  "spread from till ps \<longleftrightarrow>
     (\<forall>x. covers x ps \<le> 1) \<and> (\<forall>x < from. covers x ps = 0) \<and> (\<forall>x \<ge> from. x < till \<longrightarrow> covers x ps = 1)"

lemma record_error_upper [simp]: "pe_upper (record_error e p) = pe_upper p"
  by (simp add: record_error_def split: option.splits)

lemma observe_upper [simp]:
  "pe_upper (observe_eof_upper_bound a p) = Some (case pe_upper p of None \<Rightarrow> a | Some u \<Rightarrow> min u a)"
  "pe_upper (observe_exact_eof a p) = Some (case pe_upper p of None \<Rightarrow> a | Some u \<Rightarrow> min u a)"
  by (simp_all add: observe_eof_upper_bound_def observe_exact_eof_def Let_def split: option.splits)

lemma observe_exact_at [simp]:
  "pe_eof_at (observe_exact_eof a p) = Some (case pe_eof_at p of None \<Rightarrow> a | Some current \<Rightarrow> current)"
  by (simp add: observe_exact_eof_def Let_def split: option.splits)

lemma record_error_stays: "pe_error p \<noteq> None \<Longrightarrow> pe_error (record_error e p) = pe_error p"
  by (auto simp: record_error_def)

lemma observe_error:
  "pe_error (observe_eof_upper_bound a p) = None \<Longrightarrow> pe_error p = None"
  "pe_error (observe_exact_eof a p) = None \<Longrightarrow> pe_error p = None"
  "pe_error (observe_read_eof read p) = None \<Longrightarrow> pe_error p = None"
  by (auto simp: observe_eof_upper_bound_def observe_exact_eof_def observe_read_eof_def Let_def record_error_sel(7) [THEN not_None_eq [THEN iffD1]]
      split: option.splits if_splits)

lemma observe_read_sel [simp]:
  "pe_out (observe_read_eof read p) = pe_out p" "pe_completed (observe_read_eof read p) = pe_completed p"
  "pe_next (observe_read_eof read p) = pe_next p" "pe_requirements (observe_read_eof read p) = pe_requirements p"
  by (simp_all add: observe_read_eof_def Let_def)

lemma emit_error: "pe_error (emit read p) = None \<Longrightarrow> pe_error p = None"
  by (auto simp: emit_def Let_def split: if_splits outcome.splits dest: observe_error)

lemma honest_end:
  assumes "honest file read" and "rt_data read \<noteq> []"
  shows "unat (rt_offset read) + length (rt_data read) \<le> length file"
proof -
  have "length (rt_data read) = length (take (length (rt_data read)) (drop (unat (rt_offset read)) file))"
    using assms(1) unfolding honest_def by simp
  then have "length (rt_data read) \<le> length file - unat (rt_offset read)" by simp
  moreover have "0 < length (rt_data read)" using assms(2) by simp
  ultimately show ?thesis by linarith
qed

lemma located_observe:
  assumes "located file out start reached p" and "unat a \<le> reached"
  shows "max start (length file) \<le> unat a \<Longrightarrow> located file out start reached (observe_eof_upper_bound a p)"
    and "unat a = max start (length file) \<Longrightarrow> located file out start reached (observe_exact_eof a p)"
  using assms by (simp_all add: located_def min_def split: option.splits)

lemma eof_bound_observe:
  "unat a \<le> e \<Longrightarrow> eof_bound e (observe_eof_upper_bound a p) = min (eof_bound e p) (unat a)"
  "unat a \<le> e \<Longrightarrow> eof_bound e (observe_exact_eof a p) = min (eof_bound e p) (unat a)"
  by (auto simp: eof_bound_def min_def word_le_nat_alt split: option.splits)

lemma spread_shrink: "spread from till ps \<Longrightarrow> till' \<le> till \<Longrightarrow> spread from till' ps"
  by (simp add: spread_def)

lemma spread_advance:
  assumes "spread n till (pieces s reads (read # completed))" and "unat (rt_offset read) = n"
  shows "spread (n + length (rt_data read)) till (pieces s reads completed)"
proof -
  let ?e = "n + length (rt_data read)"
  have c: "covers x (pieces s reads (read # completed)) =
      covers x (pieces s reads completed) + (if n \<le> x \<and> x < ?e then 1 else 0)" for x
    using assms(2) by (simp add: pieces_def covers_Cons)
  have one: "covers x (pieces s reads (read # completed)) \<le> 1" for x using assms(1) by (simp add: spread_def)
  have "covers x (pieces s reads completed) = 0" if "x < ?e" for x
  proof (cases "x < n")
    case True
    then show ?thesis using assms(1) c [of x] by (simp add: spread_def)
  next
    case False
    then show ?thesis using c [of x] one [of x] that by simp
  qed
  moreover have "covers x (pieces s reads completed) = 1" if "?e \<le> x" "x < till" for x
    using assms(1) c [of x] that by (simp add: spread_def)
  moreover have "covers x (pieces s reads completed) \<le> 1" for x using c [of x] one [of x] by linarith
  ultimately show ?thesis by (simp add: spread_def)
qed

lemma emit_keeps:
  assumes "located file out start reached p" and "valid_reads file start reached (read # completed)"
    and "spread (unat (pe_next p)) (eof_bound e p) (pieces s reads (read # completed))"
    and "rt_offset read = pe_next p" and "pe_error (emit read p) = None" and "reached \<le> e" and "e < 2 ^ 64"
  shows "located file out start reached (emit read p) \<and>
    spread (unat (pe_next (emit read p))) (eof_bound e (emit read p)) (pieces s reads completed)"
proof (cases "rt_data read = []")
  case True
  have v: "length file \<le> unat (pe_next p)" "unat (pe_next p) \<le> reached"
    using assms(2,4) True by (auto simp: valid_reads_def honest_def)
  then have at: "unat (pe_next p) = max start (length file)" using assms(1) by (auto simp: located_def)
  have p: "emit read p = observe_exact_eof (pe_next p) p" using True assms(4) by (simp add: emit_def)
  have "covers x (pieces s reads (read # completed)) = covers x (pieces s reads completed)" for x
    using True by (simp add: pieces_def covers_Cons)
  then have "spread (unat (pe_next p)) (eof_bound e p) (pieces s reads completed)"
    using assms(3) by (simp add: spread_def)
  moreover have "eof_bound e (emit read p) \<le> eof_bound e p"
    using v(2) assms(6) by (simp add: p eof_bound_observe)
  ultimately show ?thesis
    using located_observe(2) [OF assms(1) v(2) at] by (simp add: p spread_shrink)
next
  case False
  let ?len = "length (rt_data read)" and ?n = "unat (pe_next p)"
  have v: "honest file read" "?n + ?len \<le> reached" using assms(2,4) by (auto simp: valid_reads_def)
  then have le: "?n + ?len \<le> length file" using honest_end [OF _ False] assms(4) by simp
  have lt: "?n + ?len < 2 ^ 64" using v(2) assms(6,7) by linarith
  then have n: "unat (pe_next p + data_len read) = ?n + ?len"
    by (simp add: unat_word_ariths unat_data_len)
  define q where "q = p\<lparr> pe_next := pe_next p + data_len read, pe_out := pe_out p @ rt_data read \<rparr>"
  have p: "emit read p = (if rt_eof read then observe_exact_eof (pe_next q) q else q)"
    using assms(5) False by (auto simp: emit_def q_def Let_def record_error_sel(7) split: outcome.splits)
  have start: "start \<le> ?n" "pe_out p = out @ take (?n - start) (drop start file)"
    using assms(1) by (simp_all add: located_def)
  have "rt_data read = take ?len (drop (?n - start) (drop start file))"
    using v(1) start(1) assms(4) by (simp add: honest_def)
  then have "take (?n - start) (drop start file) @ rt_data read = take (?n - start + ?len) (drop start file)"
    by (simp add: take_add)
  then have lq: "located file out start reached q"
    using assms(1) start le v(2) n by (simp add: located_def q_def)
  have sq: "spread (unat (pe_next q)) (eof_bound e q) (pieces s reads completed)"
    using spread_advance [OF assms(3)] assms(4) n by (simp add: q_def eof_bound_def)
  show ?thesis
  proof (cases "rt_eof read")
    case False
    then show ?thesis using lq sq by (simp add: p)
  next
    case True
    have "length file \<le> ?n + ?len" using v(1) True assms(4) by (simp add: honest_def)
    then have at: "unat (pe_next q) = max start (length file)" "unat (pe_next q) \<le> reached"
      using le n start(1) v(2) by (simp_all add: q_def)
    moreover have "eof_bound e (observe_exact_eof (pe_next q) q) \<le> eof_bound e q"
      using at(2) assms(6) by (simp add: eof_bound_observe)
    ultimately show ?thesis
      using located_observe(2) [OF lq] sq True by (simp add: p spread_shrink)
  qed
qed

lemma emit_sel [simp]: "pe_requirements (emit read p) = pe_requirements p"
  by (simp add: emit_def Let_def split: outcome.splits)

lemma emit_eof_at: "pe_eof_at p = Some a \<Longrightarrow> pe_eof_at (emit read p) = Some a"
  by (simp add: emit_def Let_def split: outcome.splits)

definition settled :: "PipelinedEmit \<Rightarrow> bool" where
  "settled p \<longleftrightarrow> at_or_after (pe_eof_at p) (pe_next p) \<or> (\<forall>read \<in> set (pe_completed p). rt_offset read \<noteq> pe_next p)"

text \<open>The whole invariant holds while no error has been recorded.\<close>

definition assembled :: "bytes \<Rightarrow> bytes \<Rightarrow> nat \<Rightarrow> ChunkScheduler \<Rightarrow> (u64 \<times> u32) list \<Rightarrow> PipelinedEmit \<Rightarrow> bool" where
  "assembled file out start s reads p \<longleftrightarrow>
     located file out start (unat (sched_offset s)) p \<and>
     valid_reads file start (unat (sched_offset s)) (pe_completed p) \<and>
     spread (unat (pe_next p)) (eof_bound (unat (sched_end s)) p) (pieces s reads (pe_completed p))"

lemma take_completed_valid:
  assumes "take_completed p = (Some read, q)" and "assembled file out start s reads p"
  shows "located file out start (unat (sched_offset s)) q" "valid_reads file start (unat (sched_offset s)) (read # pe_completed q)"
    "spread (unat (pe_next q)) (eof_bound (unat (sched_end s)) q) (pieces s reads (read # pe_completed q))"
    "rt_offset read = pe_next q"
proof -
  note t = take_completed_Some [OF assms(1)]
  have q: "pe_next q = pe_next p" "pe_out q = pe_out p" "pe_upper q = pe_upper p" "pe_eof_at q = pe_eof_at p"
    using arg_cong [OF t(2), of pe_next] arg_cong [OF t(2), of pe_out] arg_cong [OF t(2), of pe_upper]
      arg_cong [OF t(2), of pe_eof_at] by simp_all
  show "located file out start (unat (sched_offset s)) q" using assms(2) q by (simp add: assembled_def located_def)
  show "valid_reads file start (unat (sched_offset s)) (read # pe_completed q)"
    using assms(2) t(3) by (simp add: assembled_def valid_reads_def)
  have "covers x (pieces s reads (read # pe_completed q)) = covers x (pieces s reads (pe_completed p))" for x
    using t(4) [of x "\<lambda>read. (unat (rt_offset read), length (rt_data read))"] by (simp add: pieces_def covers_Cons)
  then show "spread (unat (pe_next q)) (eof_bound (unat (sched_end s)) q) (pieces s reads (read # pe_completed q))"
    using assms(2) q by (simp add: assembled_def spread_def eof_bound_def)
  show "rt_offset read = pe_next q" using t(1) q by simp
qed

lemma emit_queued:
  assumes "take_completed p = (Some read, q)" and "assembled file out start s reads p"
    and "pe_error (emit read q) = None" and "sched_offset s \<le> sched_end s"
  shows "assembled file out start s reads (emit read q)" and "pe_requirements (emit read q) = pe_requirements p"
proof -
  note v = take_completed_valid [OF assms(1,2)]
  have "located file out start (unat (sched_offset s)) (emit read q) \<and>
      spread (unat (pe_next (emit read q))) (eof_bound (unat (sched_end s)) (emit read q)) (pieces s reads (pe_completed q))"
    using emit_keeps [OF v assms(3)] assms(4) unat_lt_64 [of "sched_end s"] by (simp add: word_le_nat_alt)
  moreover have "valid_reads file start (unat (sched_offset s)) (pe_completed q)" using v(2) by (simp add: valid_reads_def)
  ultimately show "assembled file out start s reads (emit read q)" by (simp add: assembled_def)
  show "pe_requirements (emit read q) = pe_requirements p"
    using arg_cong [OF take_completed_Some(2) [OF assms(1)], of pe_requirements] by simp
qed

lemma drain_queued_keeps:
  assumes "assembled file out start s reads p" and "pe_error (drain_queued p) = None" and "sched_offset s \<le> sched_end s"
  shows "assembled file out start s reads (drain_queued p) \<and> settled (drain_queued p) \<and>
    pe_requirements (drain_queued p) = pe_requirements p"
  using assms(1,2)
proof (induction p rule: drain_queued.induct)
  case (1 p)
  show ?case
  proof (cases "at_or_after (pe_eof_at p) (pe_next p)")
    case True
    then show ?thesis using "1.prems" by (simp add: drain_queued.simps [of p] settled_def)
  next
    case False
    obtain r q where t: "take_completed p = (r, q)" by fastforce
    show ?thesis
    proof (cases r)
      case None
      then have n: "q = p" "\<forall>read \<in> set (pe_completed p). rt_offset read \<noteq> pe_next p"
        using t by (simp_all add: take_completed_None)
      have "drain_queued p = p" using False t None n(1) by (simp add: drain_queued.simps [of p])
      then show ?thesis using "1.prems"(1) n(2) by (simp add: settled_def)
    next
      case (Some read)
      let ?e = "emit read q"
      have d: "drain_queued p =
          (if pe_error ?e \<noteq> None \<or> at_or_after (pe_eof_at ?e) (pe_next ?e) then ?e else drain_queued ?e)"
        using False t Some by (simp add: drain_queued.simps [of p] Let_def)
      then have err: "pe_error ?e = None" using "1.prems"(2) by (auto split: if_splits)
      note e = emit_queued [OF t [unfolded Some] "1.prems"(1) err assms(3)]
      show ?thesis
      proof (cases "at_or_after (pe_eof_at ?e) (pe_next ?e)")
        case True
        then show ?thesis using e d by (simp add: settled_def)
      next
        case stop: False
        then have d': "drain_queued p = drain_queued ?e" using d err by simp
        show ?thesis
          using "1.IH" [OF False t [symmetric] Some refl _ e(1)] stop err e(2) "1.prems"(2) by (simp add: d')
      qed
    qed
  qed
qed

lemma drain_queued_error: "pe_error (drain_queued p) = None \<Longrightarrow> pe_error p = None"
proof (induction p rule: drain_queued.induct)
  case (1 p)
  obtain r q where t: "take_completed p = (r, q)" by fastforce
  then have "pe_error q = pe_error p" by (auto simp: take_completed_def split: option.splits)
  with 1 t show ?case
    by (cases r) (auto simp: drain_queued.simps [of p] Let_def split: if_splits dest!: emit_error)
qed

lemma observe_read_located:
  assumes "located file out start reached p" and "honest file read" and "rt_eof read"
    and "start \<le> unat (rt_offset read)"
    and "unat (rt_offset read + data_len read) = unat (rt_offset read) + length (rt_data read)"
    and "unat (rt_offset read) + length (rt_data read) \<le> reached" and "reached \<le> e"
  shows "located file out start reached (observe_read_eof read p)"
    and "eof_bound e (observe_read_eof read p) = min (eof_bound e p) (unat (rt_offset read) + length (rt_data read))"
proof -
  let ?at = "rt_offset read + data_len read"
  have at: "unat ?at \<le> reached" "unat ?at \<le> e" using assms(5-7) by simp_all
  have eof: "length file \<le> unat ?at" using assms(2,3,5) by (simp add: honest_def)
  have some: "unat ?at = max start (length file)" if "rt_data read \<noteq> []"
    using honest_end [OF assms(2) that] eof assms(4,5) by simp
  have none: "unat ?at = max start (length file)" if "rt_data read = []" "rt_offset read = pe_next p"
    using that eof assms(1) by (auto simp: located_def data_len_def)
  show "located file out start reached (observe_read_eof read p)"
  proof (cases "rt_data read = [] \<and> rt_offset read \<noteq> pe_next p")
    case True
    then show ?thesis using located_observe(1) [OF assms(1) at(1)] eof assms(4,5) by (simp add: observe_read_eof_def)
  next
    case False
    then have "unat ?at = max start (length file)" using some none by blast
    then show ?thesis using located_observe(2) [OF assms(1) at(1)] False by (auto simp: observe_read_eof_def Let_def)
  qed
  show "eof_bound e (observe_read_eof read p) = min (eof_bound e p) (unat (rt_offset read) + length (rt_data read))"
    using at(2) assms(5) by (simp add: observe_read_eof_def Let_def eof_bound_observe)
qed

lemma observe_completion:
  assumes "scheduled start s (us @ (offset, count) # vs)" and "shaped offset count read" and "honest file read"
    and "assembled file out start s (us @ (offset, count) # vs) p"
    and "q = (if rt_eof read then observe_read_eof read p else p)"
  shows "located file out start (unat (sched_offset s)) q"
    and "valid_reads file start (unat (sched_offset s)) (read # pe_completed p)"
    and "spread (unat (pe_next q)) (eof_bound (unat (sched_end s)) q) (pieces (note_gap read s) (us @ vs) (read # pe_completed p))"
proof -
  note r = scheduled_read [OF assms(1)] and e = shaped_end [OF assms(1,2)]
  note k = note_gap_keeps [OF assms(1,2), of _ "pe_completed p"]
  have sh: "rt_offset read = offset" "rt_data read = [] \<Longrightarrow> rt_eof read"
    using assms(2) r(1) by (auto simp: shaped_def word_less_nat_alt)
  note old = assms(4) [unfolded assembled_def]
  have obs: "located file out start (unat (sched_offset s)) (observe_read_eof read p) \<and>
      eof_bound (unat (sched_end s)) (observe_read_eof read p) =
        min (eof_bound (unat (sched_end s)) p) (unat offset + length (rt_data read))" if "rt_eof read"
    using observe_read_located [OF _ assms(3) that, of out start "unat (sched_offset s)" p "unat (sched_end s)"] old r e sh
    by simp
  show "located file out start (unat (sched_offset s)) q" using obs old assms(5) by simp
  show "valid_reads file start (unat (sched_offset s)) (read # pe_completed p)"
    using old assms(3) r e sh by (simp add: valid_reads_def)
  have n: "pe_next q = pe_next p" using assms(5) by simp
  have b: "eof_bound (unat (sched_end s)) q \<le> eof_bound (unat (sched_end s)) p"
    "rt_eof read \<Longrightarrow> eof_bound (unat (sched_end s)) q \<le> unat offset + length (rt_data read)"
    using obs assms(5) by auto
  have s: "spread (unat (pe_next p)) (eof_bound (unat (sched_end s)) p) (pieces s (us @ (offset, count) # vs) (pe_completed p))"
    using old by blast
  have le: "covers x (pieces (note_gap read s) (us @ vs) (read # pe_completed p)) \<le>
      covers x (pieces s (us @ (offset, count) # vs) (pe_completed p))" for x
    using k [of x] by linarith
  have eq: "covers x (pieces (note_gap read s) (us @ vs) (read # pe_completed p)) =
      covers x (pieces s (us @ (offset, count) # vs) (pe_completed p))"
    if "x < eof_bound (unat (sched_end s)) q" for x
    using k [of x] b(2) that by (simp split: if_splits)
  show "spread (unat (pe_next q)) (eof_bound (unat (sched_end s)) q) (pieces (note_gap read s) (us @ vs) (read # pe_completed p))"
    unfolding spread_def n
  proof (intro conjI allI impI)
    fix x
    show "covers x (pieces (note_gap read s) (us @ vs) (read # pe_completed p)) \<le> 1"
      using s order_trans [OF le [of x]] by (simp add: spread_def)
    show "covers x (pieces (note_gap read s) (us @ vs) (read # pe_completed p)) = 0" if "x < unat (pe_next p)"
      using s le [of x] that by (simp add: spread_def)
    show "covers x (pieces (note_gap read s) (us @ vs) (read # pe_completed p)) = 1"
      if "unat (pe_next p) \<le> x" "x < eof_bound (unat (sched_end s)) q"
      using s eq [OF that(2)] that b(1) by (simp add: spread_def)
  qed
qed

lemma record_read_keeps:
  assumes "scheduled start s (us @ (offset, count) # vs)" and "shaped offset count read" and "honest file read"
    and "assembled file out start s (us @ (offset, count) # vs) p" and "settled p"
    and "pe_error (record_read read p) = None"
  shows "assembled file out start (note_gap read s) (us @ vs) (record_read read p) \<and> settled (record_read read p) \<and>
    pe_requirements (record_read read p) = pe_requirements p"
proof -
  define q where "q = (if rt_eof read then observe_read_eof read p else p)"
  note o = observe_completion [OF assms(1-4) q_def]
  have k: "sched_offset (note_gap read s) = sched_offset s" "sched_end (note_gap read s) = sched_end s"
    using note_gap_keeps [OF assms(1,2)] by simp_all
  have q: "pe_completed q = pe_completed p" "pe_requirements q = pe_requirements p" "pe_next q = pe_next p" by (simp_all add: q_def)
  have le: "sched_offset s \<le> sched_end s" using assms(1) by (simp add: scheduled_def)
  have rr: "record_read read p = (if rt_offset read = pe_next q then drain_queued (emit read q)
      else q\<lparr> pe_completed := pe_completed q @ [read] \<rparr>)"
    using assms(6) by (auto simp: record_read_def q_def Let_def record_error_sel(7) split: if_splits)
  show ?thesis
  proof (cases "rt_offset read = pe_next q")
    case True
    then have d: "pe_error (drain_queued (emit read q)) = None" using assms(6) rr by simp
    have "assembled file out start (note_gap read s) (us @ vs) (emit read q)"
      using emit_keeps [OF o(1,2,3) True drain_queued_error [OF d]] le unat_lt_64 [of "sched_end s"] o(2)
      by (simp add: assembled_def k q word_le_nat_alt valid_reads_def)
    from drain_queued_keeps [OF this d] show ?thesis using True rr le by (simp add: k q)
  next
    case False
    have "covers x (pieces (note_gap read s) (us @ vs) (pe_completed p @ [read])) =
        covers x (pieces (note_gap read s) (us @ vs) (read # pe_completed p))" for x
      by (simp add: pieces_def covers_Cons)
    then have "assembled file out start (note_gap read s) (us @ vs) (record_read read p)"
      using o False rr by (simp add: assembled_def k q located_def valid_reads_def spread_def eof_bound_def)
    moreover have "settled (record_read read p)"
      using assms(5) False rr
      by (auto simp: settled_def q at_or_after_def q_def observe_read_eof_def Let_def split: option.splits)
    ultimately show ?thesis using False rr by (simp add: q)
  qed
qed

lemma record_read_error: "pe_error (record_read read p) = None \<Longrightarrow> pe_error p = None"
  by (auto simp: record_read_def Let_def record_error_sel(7) split: if_splits
      dest!: drain_queued_error emit_error observe_error(3))

lemma assembled_schedule:
  assumes "scheduled start s reads" and "schedule_reads depth p s reads = (s', reads')" and "assembled file out start s reads p"
  shows "assembled file out start s' reads' p"
proof -
  note k = schedule_reads_keeps [OF assms(1,2)]
  have "unat (sched_offset s) \<le> unat (sched_offset s')" "sched_end s' = sched_end s" using k by (simp_all add: word_le_nat_alt)
  moreover have "covers x (pieces s' reads' (pe_completed p)) = covers x (pieces s reads (pe_completed p))" for x
    using k by simp
  ultimately show ?thesis
    using assms(3) by (fastforce simp: assembled_def located_def valid_reads_def spread_def)
qed

lemma covers_idle:
  assumes "gaps s = []"
  shows "0 < covers x (pieces s [] completed) \<longleftrightarrow>
    unat (sched_offset s) \<le> x \<and> x < unat (sched_end s) \<or>
    (\<exists>read \<in> set completed. unat (rt_offset read) \<le> x \<and> x < unat (rt_offset read) + length (rt_data read))"
proof -
  have "0 < covers x (map (\<lambda>read. (unat (rt_offset read), length (rt_data read))) completed) \<longleftrightarrow>
      (\<exists>read \<in> set completed. unat (rt_offset read) \<le> x \<and> x < unat (rt_offset read) + length (rt_data read))"
    unfolding covers_positive by simp
  then show ?thesis by (auto simp: pieces_def assms covers_Cons)
qed

lemma assembled_bound:
  assumes "assembled file out start s [] p" and "settled p" and "gaps s = []"
    and "eof_observed p \<or> sched_end s \<le> sched_offset s" and "\<not> at_or_after (pe_eof_at p) (pe_next p)"
  shows "eof_bound (unat (sched_end s)) p \<le> unat (pe_next p)"
proof (rule ccontr)
  let ?n = "unat (pe_next p)" and ?ps = "pieces s [] (pe_completed p)"
  assume "\<not> ?thesis"
  then have lt: "?n < eof_bound (unat (sched_end s)) p" by simp
  have sp: "covers ?n ?ps = 1" "\<forall>x < ?n. covers x ?ps = 0" using assms(1) lt by (simp_all add: assembled_def spread_def)
  have region: "\<not> (unat (sched_offset s) \<le> ?n \<and> ?n < unat (sched_end s))"
  proof (cases "eof_observed p")
    case True
    then obtain u where "pe_upper p = Some u" by (auto simp: eof_observed_def)
    then show ?thesis using assms(1) lt by (auto simp: assembled_def located_def eof_bound_def)
  next
    case False
    then show ?thesis using assms(4) by (auto simp: word_le_nat_alt)
  qed
  have "0 < covers ?n ?ps" using sp(1) by simp
  then obtain read where r: "read \<in> set (pe_completed p)" "unat (rt_offset read) \<le> ?n"
      "?n < unat (rt_offset read) + length (rt_data read)"
    using region unfolding covers_idle [OF assms(3)] by blast
  have "0 < covers (unat (rt_offset read)) ?ps"
    using r unfolding covers_idle [OF assms(3)] by force
  then have "unat (rt_offset read) = ?n" using sp(2) r(2) by (metis le_neq_implies_less less_irrefl)
  then have "rt_offset read = pe_next p" by (rule unsigned_word_eqI)
  then show False using assms(2,5) r(1) by (auto simp: settled_def)
qed

lemma assembled_done:
  assumes "assembled file out start s [] p" and "settled p" and "gaps s = []"
    and "eof_observed p \<or> sched_end s \<le> sched_offset s" and "sched_offset s \<le> sched_end s"
  shows "pe_out p = out @ take (unat (sched_end s) - start) (drop start file)"
proof -
  let ?n = "unat (pe_next p)"
  have l: "start \<le> ?n" "?n \<le> max start (length file)" "?n \<le> unat (sched_end s)"
      "pe_out p = out @ take (?n - start) (drop start file)"
    using assms(1,5) by (auto simp: assembled_def located_def word_le_nat_alt)
  have "?n = unat (sched_end s) \<or> max start (length file) \<le> ?n"
  proof (cases "at_or_after (pe_eof_at p) (pe_next p)")
    case True
    then show ?thesis
      using assms(1) by (auto simp: at_or_after_def assembled_def located_def word_le_nat_alt split: option.splits)
  next
    case False
    show ?thesis
      using assembled_bound [OF assms(1-4) False] assms(1) l(3)
      by (auto simp: eof_bound_def assembled_def located_def split: option.splits)
  qed
  then show ?thesis
  proof
    assume "max start (length file) \<le> ?n"
    then have "take (?n - start) (drop start file) = drop start file"
      "take (unat (sched_end s) - start) (drop start file) = drop start file" using l(3) by (auto intro!: diff_le_mono)
    then show ?thesis using l(4) by simp
  qed (use l(4) in simp)
qed

lemma scheduler_new_keeps:
  assumes "0 < chunk_size" and "unat chunk_size < 2 ^ 32" and "start \<le> end'"
  shows "scheduled (unat start) (scheduler_new start end' chunk_size) []"
    and "backlog (scheduler_new start end' chunk_size) [] = unat end' - unat start"
    and "assembled file out (unat start) (scheduler_new start end' chunk_size) [] (emit_new out start req)"
    and "settled (emit_new out start req)"
  using assms
  by (simp_all add: scheduler_new_def emit_new_def scheduled_def backlog_def assembled_def located_def valid_reads_def
      spread_def eof_bound_def pieces_def covers_Cons settled_def word_le_nat_alt)

lemma u64_saturating_add_bounds:
  "a \<le> u64_saturating_add a b" "unat (u64_saturating_add a b) - unat a \<le> unat b"
  "unat a + unat b < 2 ^ 64 \<Longrightarrow> unat (u64_saturating_add a b) = unat a + unat b"
  using unat_lt_64 [of a] unat_lt_64 [of b]
  by (auto simp: u64_saturating_add_def word_le_nat_alt unat_word_ariths unsigned_minus_1_eq_mask mask_eq_exp_minus_1)

locale read_source =
  fixes task :: "u64 \<Rightarrow> u32 \<Rightarrow> ('s, Error, ReadTaskOutput) stm" and ready consistent :: "'s \<Rightarrow> bool" and contents :: bytes
  assumes forwards: "task offset count st = (r, st') \<Longrightarrow> ready st \<Longrightarrow> ready st'"
    and backwards: "task offset count st = (r, st') \<Longrightarrow> consistent st' \<Longrightarrow> consistent st"
    and shape: "task offset count st = (Ok read, st') \<Longrightarrow> shaped offset count read"
    and content: "task offset count st = (Ok read, st') \<Longrightarrow> ready st \<Longrightarrow> consistent st' \<Longrightarrow> honest contents read"
begin

lemma loop_step:
  assumes "pipelined_loop (Suc fuel) picks task depth s p reads st = r"
    and "schedule_reads depth p s reads = (s', reads')" and "reads' \<noteq> []"
  obtains us offset count vs where "reads' = us @ (offset, count) # vs"
    and "r = (case task offset count st of
             (Ok read, st) \<Rightarrow> pipelined_loop fuel picks task depth (note_gap read s') (record_read read p) (us @ vs) st
           | (Err e, st) \<Rightarrow> pipelined_loop fuel picks task depth s' (record_error e p) (us @ vs) st
           | (Panic, st) \<Rightarrow> Some (Panic, st))"
proof -
  let ?i = "picks fuel mod length reads'"
  obtain offset count where o: "reads' ! ?i = (offset, count)" by fastforce
  have "reads' = take ?i reads' @ (offset, count) # drop (Suc ?i) reads'"
    using assms(3) o id_take_nth_drop [of ?i reads'] by simp
  then show thesis using that assms o by (auto simp: Let_def)
qed

lemma loop_returns:
  "scheduled start s reads \<Longrightarrow> backlog s reads < fuel \<Longrightarrow> pipelined_loop fuel picks task depth s p reads st \<noteq> None"
proof (induction fuel arbitrary: s p reads st)
  case 0
  then show ?case by simp
next
  case (Suc fuel)
  obtain s' reads' where n: "schedule_reads depth p s reads = (s', reads')" by fastforce
  note k = schedule_reads_keeps [where x = 0 and completed = "[]", OF Suc.prems(1) n]
  show ?case
  proof (cases "reads' = []")
    case True
    then show ?thesis using n by simp
  next
    case False
    obtain us offset count vs where r: "reads' = us @ (offset, count) # vs"
      and l: "pipelined_loop (Suc fuel) picks task depth s p reads st = (case task offset count st of
             (Ok read, st) \<Rightarrow> pipelined_loop fuel picks task depth (note_gap read s') (record_read read p) (us @ vs) st
           | (Err e, st) \<Rightarrow> pipelined_loop fuel picks task depth s' (record_error e p) (us @ vs) st
           | (Panic, st) \<Rightarrow> Some (Panic, st))"
      using loop_step [OF refl n False] by blast
    have sch: "scheduled start s' (us @ (offset, count) # vs)" "backlog s' (us @ (offset, count) # vs) \<le> fuel"
      using k Suc.prems(2) by (simp_all add: r)
    obtain o' st' where t: "task offset count st = (o', st')" by fastforce
    show ?thesis
    proof (cases o')
      case (Ok read)
      note g = note_gap_keeps [where x = 0 and completed = "[]", OF sch(1) shape [OF t [unfolded Ok]]]
      then have "backlog (note_gap read s') (us @ vs) < fuel" using sch(2) by simp
      then show ?thesis using Suc.IH g unfolding l t Ok by simp
    next
      case (Err e)
      have "backlog s' (us @ vs) < fuel" using backlog_drop [OF sch(1)] sch(2) by simp
      then show ?thesis using Suc.IH [OF scheduled_drop [OF sch(1)]] unfolding l t Err by simp
    next
      case Panic
      then show ?thesis unfolding l t by simp
    qed
  qed
qed

lemma loop_forwards:
  "pipelined_loop fuel picks task depth s p reads st = Some (r, st') \<Longrightarrow> ready st \<Longrightarrow> ready st'"
proof (induction fuel arbitrary: s p reads st)
  case (Suc fuel)
  obtain s' reads' where n: "schedule_reads depth p s reads = (s', reads')" by fastforce
  show ?case
  proof (cases "reads' = []")
    case True
    then show ?thesis using n Suc.prems by simp
  next
    case False
    obtain us offset count vs where r: "reads' = us @ (offset, count) # vs"
      and l: "Some (r, st') = (case task offset count st of
             (Ok read, st) \<Rightarrow> pipelined_loop fuel picks task depth (note_gap read s') (record_read read p) (us @ vs) st
           | (Err e, st) \<Rightarrow> pipelined_loop fuel picks task depth s' (record_error e p) (us @ vs) st
           | (Panic, st) \<Rightarrow> Some (Panic, st))"
      using loop_step [OF Suc.prems(1) n False] by blast
    obtain o' st1 where t: "task offset count st = (o', st1)" by fastforce
    show ?thesis using l Suc.IH [of _ _ _ st1] forwards [OF t Suc.prems(2)] by (cases o') (simp_all add: t)
  qed
qed simp

lemma loop_backwards:
  "pipelined_loop fuel picks task depth s p reads st = Some (r, st') \<Longrightarrow> consistent st' \<Longrightarrow> consistent st"
proof (induction fuel arbitrary: s p reads st)
  case (Suc fuel)
  obtain s' reads' where n: "schedule_reads depth p s reads = (s', reads')" by fastforce
  show ?case
  proof (cases "reads' = []")
    case True
    then show ?thesis using n Suc.prems by simp
  next
    case False
    obtain us offset count vs where r: "reads' = us @ (offset, count) # vs"
      and l: "Some (r, st') = (case task offset count st of
             (Ok read, st) \<Rightarrow> pipelined_loop fuel picks task depth (note_gap read s') (record_read read p) (us @ vs) st
           | (Err e, st) \<Rightarrow> pipelined_loop fuel picks task depth s' (record_error e p) (us @ vs) st
           | (Panic, st) \<Rightarrow> Some (Panic, st))"
      using loop_step [OF Suc.prems(1) n False] by blast
    obtain o' st1 where t: "task offset count st = (o', st1)" by fastforce
    have "consistent st1" using l Suc.IH [of _ _ _ st1] Suc.prems(2) by (cases o') (simp_all add: t)
    then show ?thesis by (rule backwards [OF t])
  qed
qed simp

lemma loop_result:
  assumes "pipelined_loop fuel picks task depth s p reads st = Some (Ok p', st')" and "consistent st'"
    and "pe_error p' = None" and "0 < depth" and "scheduled start s reads"
    and "pe_error p = None \<Longrightarrow> assembled contents out start s reads p \<and> settled p" and "ready st"
  shows "pe_error p = None \<and> pe_requirements p' = pe_requirements p \<and>
    pe_out p' = out @ take (unat (sched_end s) - start) (drop start contents) \<and>
    (\<forall>a. pe_eof_at p' = Some a \<longrightarrow> unat a = max start (length contents))"
  using assms(1,5-7)
proof (induction fuel arbitrary: s p reads st)
  case (Suc fuel)
  obtain s' reads' where n: "schedule_reads depth p s reads = (s', reads')" by fastforce
  note k = schedule_reads_keeps [where x = 0 and completed = "[]", OF Suc.prems(2) n]
  have e: "sched_end s' = sched_end s" using k by simp
  show ?case
  proof (cases "reads' = []")
    case True
    then have p: "p' = p" using n Suc.prems(1) by simp
    note a = Suc.prems(3) [OF assms(3) [unfolded p]]
    note d = schedule_reads_done [OF n [unfolded True] assms(3) [unfolded p] assms(4)]
    have "sched_offset s \<le> sched_end s" using Suc.prems(2) by (simp add: scheduled_def)
    moreover have "assembled contents out start s [] p" using a d by simp
    ultimately show ?thesis
      using assembled_done [of contents out start s p] a d assms(3) p by (auto simp: assembled_def located_def)
  next
    case False
    obtain us offset count vs where r: "reads' = us @ (offset, count) # vs"
      and l: "Some (Ok p', st') = (case task offset count st of
             (Ok read, st) \<Rightarrow> pipelined_loop fuel picks task depth (note_gap read s') (record_read read p) (us @ vs) st
           | (Err e, st) \<Rightarrow> pipelined_loop fuel picks task depth s' (record_error e p) (us @ vs) st
           | (Panic, st) \<Rightarrow> Some (Panic, st))"
      using loop_step [OF Suc.prems(1) n False] by blast
    have sch: "scheduled start s' (us @ (offset, count) # vs)" using k by (simp add: r)
    have asm: "assembled contents out start s' (us @ (offset, count) # vs) p \<and> settled p" if "pe_error p = None"
      using assembled_schedule [OF Suc.prems(2) n] Suc.prems(3) that by (simp add: r)
    obtain o' st1 where t: "task offset count st = (o', st1)" by fastforce
    show ?thesis
    proof (cases o')
      case (Ok read)
      then have loop: "pipelined_loop fuel picks task depth (note_gap read s') (record_read read p) (us @ vs) st1 = Some (Ok p', st')"
        using l t by simp
      note sh = shape [OF t [unfolded Ok]] and h = content [OF t [unfolded Ok] Suc.prems(4) loop_backwards [OF loop assms(2)]]
      note g = note_gap_keeps [where x = 0 and completed = "[]", OF sch sh]
      have rec: "assembled contents out start (note_gap read s') (us @ vs) (record_read read p) \<and> settled (record_read read p) \<and>
          pe_requirements (record_read read p) = pe_requirements p" if "pe_error (record_read read p) = None"
        using record_read_keeps [OF sch sh h _ _ that] asm record_read_error [OF that] by blast
      then show ?thesis
        using Suc.IH [OF loop] g e record_read_error [of read p] forwards [OF t Suc.prems(4)] by auto
    next
      case (Err err)
      then have "pipelined_loop fuel picks task depth s' (record_error err p) (us @ vs) st1 = Some (Ok p', st')"
        using l t by simp
      from Suc.IH [OF this scheduled_drop [OF sch] _ forwards [OF t Suc.prems(4)]] show ?thesis by (simp add: record_error_sel(7))
    next
      case Panic
      then show ?thesis using l t by simp
    qed
  qed
qed simp

lemma into_enough:
  assumes "0 < chunk_size" and "unat chunk_size < 2 ^ 32"
  shows "pipelined_loop (Suc (unat total_len)) picks task depth
    (scheduler_new start (u64_saturating_add start total_len) chunk_size) (emit_new out start req) [] st \<noteq> None"
proof (rule loop_returns [OF scheduler_new_keeps(1) [OF assms u64_saturating_add_bounds(1)]])
  show "backlog (scheduler_new start (u64_saturating_add start total_len) chunk_size) [] < Suc (unat total_len)"
    using scheduler_new_keeps(2) [OF assms u64_saturating_add_bounds(1), of start total_len]
      u64_saturating_add_bounds(2) [of start total_len] by simp
qed

lemma into_result:
  assumes "pipelined_into picks task depth chunk_size out start total_len req st = (Ok out', st')"
    and "consistent st'" and "0 < depth" and "0 < chunk_size" and "unat chunk_size < 2 ^ 32" and "ready st"
  shows "out' = out @ take (unat (u64_saturating_add start total_len) - unat start) (drop (unat start) contents)"
    and "expected_eof req = Some e \<Longrightarrow> unat (eof_offset e) = max (unat start) (length contents)"
proof -
  let ?s = "scheduler_new start (u64_saturating_add start total_len) chunk_size"
  obtain p' where l: "pipelined_loop (Suc (unat total_len)) picks task depth ?s (emit_new out start req) [] st = Some (Ok p', st')"
    and f: "emit_finish p' = Ok ()" and o: "out' = pe_out p'"
    using assms(1) by (auto simp: pipelined_into_def then_outcome_Ok simp del: pipelined_loop.simps split: option.splits prod.splits outcome.splits)
  note n = scheduler_new_keeps [OF assms(4,5) u64_saturating_add_bounds(1)]
  have err: "pe_error p' = None" using f by (auto simp: emit_finish_def split: option.splits)
  note r = loop_result [OF l assms(2) err assms(3) n(1)]
  have R: "pe_requirements p' = req \<and>
      pe_out p' = out @ take (unat (sched_end ?s) - unat start) (drop (unat start) contents) \<and>
      (\<forall>a. pe_eof_at p' = Some a \<longrightarrow> unat a = max (unat start) (length contents))"
    using r [of out] n(3,4) assms(6) by (simp add: emit_new_def)
  then show "out' = out @ take (unat (u64_saturating_add start total_len) - unat start) (drop (unat start) contents)"
    by (simp add: o scheduler_new_def)
  assume "expected_eof req = Some e"
  then have "pe_eof_at p' = Some (eof_offset e)"
    using f R err
    by (auto simp: emit_finish_def validate_optional_observed_eof_def split: option.splits if_splits)
  then show "unat (eof_offset e) = max (unat start) (length contents)" using R by simp
qed

lemma into_forwards:
  "pipelined_into picks task depth chunk_size out start total_len req st = (r, st') \<Longrightarrow> ready st \<Longrightarrow> ready st'"
  by (auto simp: pipelined_into_def simp del: pipelined_loop.simps intro: loop_forwards split: option.splits prod.splits outcome.splits)

end

subsection \<open>Replies of the session\<close>

text \<open>
  \<open>file_part file offset data eof\<close>: \<open>data\<close> is what the file holds at \<open>offset\<close>, and \<open>eof\<close> is set only at its end.
  \<open>serves file n io\<close>: every READ of the run from request \<open>n\<close> on was answered with a part of the one file,
  and every size of a file that was asked for is its length.
\<close>

definition file_part :: "bytes \<Rightarrow> u64 \<Rightarrow> bytes \<Rightarrow> bool \<Rightarrow> bool" where
  "file_part file offset data eof \<longleftrightarrow>
     data = take (length data) (drop (unat offset) file) \<and> (eof \<longrightarrow> length file \<le> unat offset + length data)"

lemma honest_part: "honest file read \<longleftrightarrow> file_part file (rt_offset read) (rt_data read) (rt_eof read)"
  by (simp add: honest_def file_part_def)

inductive read_reply :: "NfsOp list \<Rightarrow> bytes \<Rightarrow> u64 \<Rightarrow> ReadData \<Rightarrow> bool" where
  by_handle: "decode_read_compound bs = Ok read \<Longrightarrow>
     read_reply [NfsOp.PutFh h, NfsOp.Read stateid_anonymous offset count] bs offset read"
| by_path: "decode_read_path_compound bs (length components) = Ok read \<Longrightarrow>
     read_reply (path_ops s components @ [NfsOp.Read stateid_anonymous offset count]) bs offset read"
| with_handle: "decode_read_path_handle_compound bs (length components) = Ok (h, read) \<Longrightarrow>
     read_reply (path_ops s components @ [NfsOp.GetFh, NfsOp.Read stateid_anonymous offset count]) bs offset read"
| with_size: "decode_read_path_size_compound bs (length components) = Ok (h, sz, read) \<Longrightarrow>
     read_reply (path_ops s components @
       [NfsOp.GetFh, NfsOp.GetAttr bitmap_size_attr, NfsOp.Read stateid_anonymous 0 count]) bs 0 read"

inductive size_reply :: "NfsOp list \<Rightarrow> bytes \<Rightarrow> u64 \<Rightarrow> bool" where
  "decode_getfh_attrs_compound bs (length components) AttrSize = Ok (h, attrs) \<Longrightarrow> attr_size attrs = Some sz \<Longrightarrow>
     size_reply (path_ops s components @ [NfsOp.GetFh, NfsOp.GetAttr (attr_request_bitmap AttrSize)]) bs sz"

definition serves :: "bytes \<Rightarrow> nat \<Rightarrow> Io \<Rightarrow> bool" where
  "serves file n io \<longleftrightarrow>
     (\<forall>k bs. n \<le> k \<and> k < length (issued io) \<and> answer_of io k = Ok bs \<longrightarrow>
        (\<forall>offset read. read_reply (req_ops (issued io ! k)) bs offset read \<longrightarrow>
           file_part file offset (read_data read) (read_eof read)) \<and>
        (\<forall>sz. size_reply (req_ops (issued io ! k)) bs sz \<longrightarrow> unat sz = length file))"

lemma serves_backwards: "keeps io io' \<Longrightarrow> serves file n io' \<Longrightarrow> serves file n io"
  using keeps_response [of io io'] keeps_nth [of io io'] unfolding serves_def by metis

lemma compound_decode_reply:
  assumes "compound_decode tag ops decode io = (Ok v, io')"
  obtains k bs where "length (issued io) \<le> k" and "k < length (issued io')" and "req_ops (issued io' ! k) = ops"
    and "answer_of io' k = Ok bs" and "decode bs = Ok v"
proof -
  obtain x where x: "conversed ops decode io x io'" "Ok v = map_err err_error x"
    using compound_decode_conversed [OF assms] by metis
  then have c: "conversed ops decode io (Ok v) io'" by (cases x) auto
  then have "length (issued io) < length (issued io')" by (simp add: conversed_def)
  then have l: "length (issued io) \<le> length (issued io') - 1" "length (issued io') - 1 < length (issued io')" by auto
  have "req_ops (issued io' ! (length (issued io') - 1)) = ops" using c l unfolding conversed_def by blast
  then show thesis using that [OF l] c unfolding conversed_def by blast
qed

lemma compound_decode_serves:
  assumes "serves file n io'" and "n \<le> length (issued io)" and "compound_decode tag ops decode io = (Ok v, io')"
  shows "(\<And>bs. decode bs = Ok v \<Longrightarrow> read_reply ops bs offset read) \<Longrightarrow>
      file_part file offset (read_data read) (read_eof read)"
    and "(\<And>bs. decode bs = Ok v \<Longrightarrow> size_reply ops bs sz) \<Longrightarrow> unat sz = length file"
proof -
  obtain k bs where "length (issued io) \<le> k" "k < length (issued io')" "req_ops (issued io' ! k) = ops"
    "answer_of io' k = Ok bs" "decode bs = Ok v" by (rule compound_decode_reply [OF assms(3)])
  moreover have "n \<le> k" using calculation assms(2) by simp
  ultimately show "(\<And>bs. decode bs = Ok v \<Longrightarrow> read_reply ops bs offset read) \<Longrightarrow>
      file_part file offset (read_data read) (read_eof read)"
    and "(\<And>bs. decode bs = Ok v \<Longrightarrow> size_reply ops bs sz) \<Longrightarrow> unat sz = length file"
    using assms(1) unfolding serves_def by blast+
qed

lemma read_serves:
  assumes "serves file n io'" and "n \<le> length (issued io)"
  shows "read_anonymous h offset count io = (Ok read, io') \<Longrightarrow> file_part file offset (read_data read) (read_eof read)"
    and "read_path_anonymous components offset count io = (Ok read, io') \<Longrightarrow>
      file_part file offset (read_data read) (read_eof read)"
    and "read_path_anonymous_with_handle components offset count io = (Ok (h, read), io') \<Longrightarrow>
      file_part file offset (read_data read) (read_eof read)"
    and "read_path_anonymous_with_size components count io = (Ok (h, sz, read), io') \<Longrightarrow>
      file_part file 0 (read_data read) (read_eof read)"
    and "lookup_file_handle_attrs components AttrSize io = (Ok (h, attrs), io') \<Longrightarrow> attr_size attrs = Some sz \<Longrightarrow>
      unat sz = length file"
  unfolding read_anonymous_def read_path_anonymous_def read_path_anonymous_with_handle_def
    read_path_anonymous_with_size_def lookup_file_handle_attrs_def run_session
  by (auto intro: compound_decode_serves [OF assms] read_reply.intros size_reply.intros)

lemma and_then_keeps:
  assumes "and_then m f io = (r, io')" and "\<And>r io'. m io = (r, io') \<Longrightarrow> keeps io io'"
    and "\<And>v io r io'. f v io = (r, io') \<Longrightarrow> keeps io io'"
  shows "keeps io io'"
  using assms keeps_trans by (fastforce simp: and_then_def split: prod.splits outcome.splits)

lemma read_keeps:
  "read_anonymous h offset count io = (r, io') \<Longrightarrow> keeps io io'"
  "read_path_anonymous components offset count io = (r1, io') \<Longrightarrow> keeps io io'"
  "read_path_anonymous_with_handle components offset count io = (r2, io') \<Longrightarrow> keeps io io'"
  "read_path_anonymous_with_size components count io = (r3, io') \<Longrightarrow> keeps io io'"
  "lookup_file_handle components io = (r4, io') \<Longrightarrow> keeps io io'"
  "lookup_file_handle_attrs components req io = (r5, io') \<Longrightarrow> keeps io io'"
  unfolding read_anonymous_def read_path_anonymous_def read_path_anonymous_with_handle_def compound_getfh_def
    read_path_anonymous_with_size_def lookup_file_handle_attrs_def lookup_file_handle_def session_of_def
  by (auto simp: and_then_def dest: compound_decode_keeps)

lemma read_chunk_Ok:
  assumes "read_chunk h offset count io = (Ok read, io')"
  obtains d where "read_anonymous h offset count io = (Ok d, io')" and "validate_read_reply d count = Ok ()"
    and "read = \<lparr> rt_offset = offset, rt_requested = count, rt_data = read_data d, rt_eof = read_eof d \<rparr>"
  using assms by (auto simp: read_chunk_def and_then_Ok)

lemma read_chunk_keeps: "read_chunk h offset count io = (r, io') \<Longrightarrow> keeps io io'"
  unfolding read_chunk_def by (erule and_then_keeps) (auto simp: and_then_def dest: read_keeps split: outcome.splits)

interpretation session_reads: read_source "read_chunk h" "keeps io0" "serves contents (length (issued io0))" contents
  for h io0 contents
proof
  fix offset count io io' read
  show "keeps io0 io'" if "read_chunk h offset count io = (r, io')" "keeps io0 io" for r
    by (rule keeps_trans [OF that(2) read_chunk_keeps [OF that(1)]])
  show "serves contents (length (issued io0)) io"
    if "read_chunk h offset count io = (r, io')" "serves contents (length (issued io0)) io'" for r
    by (rule serves_backwards [OF read_chunk_keeps [OF that(1)] that(2)])
  assume run: "read_chunk h offset count io = (Ok read, io')"
  then show "shaped offset count read"
    by (elim read_chunk_Ok) (auto simp: shaped_def validate_read_reply_Ok)
  show "honest contents read" if "keeps io0 io" "serves contents (length (issued io0)) io'"
    using run
    by (elim read_chunk_Ok) (auto simp: honest_part intro: read_serves(1) [OF that(2) keeps_issued_length [OF that(1)]])
qed

lemma unat_len64: "length bs < 2 ^ 64 \<Longrightarrow> unat (len64 bs) = length bs"
  by (simp add: len64_def unat_of_nat)

lemma validated_len64: "validate_read_reply read count = Ok () \<Longrightarrow> unat (len64 (read_data read)) = length (read_data read)"
  using validated_length by (rule unat_len64)

lemma unat_add_len64:
  "unat offset + length bs < 2 ^ 64 \<Longrightarrow> unat (offset + len64 bs) = unat offset + length bs"
  by (simp add: unat_word_ariths unat_len64)

lemma file_part_end: "file_part file offset data eof \<Longrightarrow> data \<noteq> [] \<Longrightarrow> unat offset + length data \<le> length file"
  using honest_end [of "file" "\<lparr> rt_offset = offset, rt_requested = 0, rt_data = data, rt_eof = eof \<rparr>"]
  by (simp add: honest_part)

lemma file_part_split:
  assumes "file_part file offset data eof" and "length data \<le> len"
  shows "take len (drop (unat offset) file) = data @ take (len - length data) (drop (unat offset + length data) file)"
proof -
  have "data = take (length data) (drop (unat offset) file)" using assms(1) by (simp add: file_part_def)
  moreover have "len = length data + (len - length data)" using assms(2) by simp
  ultimately show ?thesis by (metis add.commute drop_drop take_add)
qed

lemma file_part_eof: "file_part file offset data True \<Longrightarrow> drop (unat offset + length data) file = []"
  by (simp add: file_part_def)

text \<open>
  What a read of \<open>len\<close> bytes at \<open>offset\<close> that starts with the buffer \<open>out\<close> promises: the bytes of the
  file in that range are appended, and where the end of the range was required to be the end of the
  file, it is.
\<close>

definition filled :: "bytes \<Rightarrow> bytes \<Rightarrow> u64 \<Rightarrow> u64 \<Rightarrow> ReadRequirements \<Rightarrow> bytes \<Rightarrow> bool" where
  "filled file out offset len req out' \<longleftrightarrow>
     out' = out @ take (unat len) (drop (unat offset) file) \<and>
     (\<forall>e. expected_eof req = Some e \<and> 0 < len \<and> unat (eof_offset e) = unat offset + unat len \<longrightarrow>
        unat (eof_offset e) = max (unat offset) (length file))"

lemma filled_extend:
  assumes "file_part file offset data eof" and "data \<noteq> []" and "length data \<le> unat len"
    and "unat offset + unat len < 2 ^ 64" and "length data < unat len"
    and "filled file (out @ data) (offset + len64 data) (u64_saturating_sub len (len64 data)) req out'"
  shows "filled file out offset len req out'"
proof -
  have l: "length data < 2 ^ 64" using assms(4,5) by linarith
  have o: "unat (offset + len64 data) = unat offset + length data" using assms(4,5) by (intro unat_add_len64) linarith
  have r: "unat (u64_saturating_sub len (len64 data)) = unat len - length data"
    using assms(3) l by (simp add: u64_saturating_sub_def unat_sub unat_len64 word_le_nat_alt)
  then have "0 < u64_saturating_sub len (len64 data)" using assms(5) by (simp add: word_less_nat_alt)
  then show ?thesis
    using assms(6) file_part_split [OF assms(1,3)] file_part_end [OF assms(1,2)] assms(5) o r
    by (auto simp: filled_def)
qed

lemma filled_whole:
  assumes "file_part file offset data eof" and "length data \<le> unat len" and "unat offset + unat len < 2 ^ 64"
    and "eof \<or> length data = unat len"
    and "\<And>e. expected_eof req = Some e \<Longrightarrow> unat (eof_offset e) = unat offset + unat len \<Longrightarrow> 0 < len \<Longrightarrow>
      eof \<and> eof_offset e = offset + len64 data"
  shows "filled file out offset len req (out @ data)"
proof -
  have o: "unat (offset + len64 data) = unat offset + length data" using assms(2,3) by (intro unat_add_len64) linarith
  have "take (unat len - length data) (drop (unat offset + length data) file) = []"
    using assms(1,4) file_part_eof [of "file" offset data] by (cases eof) auto
  moreover have "unat (eof_offset e) = max (unat offset) (length file)"
    if "expected_eof req = Some e" "0 < len" "unat (eof_offset e) = unat offset + unat len" for e
    using assms(5) [OF that(1,3,2)] o assms(1) file_part_end [of "file" offset data eof]
    by (cases "data = []") (auto simp: file_part_def)
  ultimately show ?thesis using file_part_split [OF assms(1,2)] by (auto simp: filled_def)
qed

lemma sequential_cases:
  assumes "sequential_into h req out offset rem_len observed io = (r, io')" and "rem_len \<noteq> 0"
    and "count = ucast (min rem_len (ucast (read_chunk_size (ns_config (inner io)))))"
  obtains (failed) x where "read_anonymous h offset count io = (x, io')" and "\<forall>v. r \<noteq> Ok v"
  | (ends) read where "read_anonymous h offset count io = (Ok read, io')" and "validate_read_reply read count = Ok ()"
      and "read_data read = [] \<or> read_eof read"
      and "read_data read \<noteq> [] \<Longrightarrow> ensure_buffered_read_within_limit (length out) (length (read_data read))
        (expected_len req) (read_limit req) = Ok ()"
      and "r = then_outcome (validate_optional_observed_eof (expected_eof req)
        (if read_eof read then Some (offset + len64 (read_data read)) else observed)) (\<lambda>_. Ok (out @ read_data read))"
  | (more) read io1 where "read_anonymous h offset count io = (Ok read, io1)" and "validate_read_reply read count = Ok ()"
      and "read_data read \<noteq> []" and "\<not> read_eof read"
      and "sequential_into h req (out @ read_data read) (offset + len64 (read_data read))
          (u64_saturating_sub rem_len (len64 (read_data read))) observed io1 = (r, io')"
      and "ensure_buffered_read_within_limit (length out) (length (read_data read)) (expected_len req) (read_limit req) = Ok ()"
proof -
  obtain x io1 where run: "read_anonymous h offset count io = (x, io1)" by fastforce
  note step = assms(1) [unfolded sequential_into.simps [of h req out offset rem_len observed io] Let_def, folded assms(3)]
  show thesis
  proof (cases x)
    case (Ok read)
    show thesis
    proof (cases "validate_read_reply read count = Ok ()")
      case True
      show thesis
        using step assms(2) run Ok True that by (auto split: outcome.splits if_splits)
    next
      case False
      then show thesis using step assms(2) run Ok that(1) by (auto split: outcome.splits)
    qed
  qed (use step assms(2) run that(1) in auto)
qed

lemma sequential_keeps: "sequential_into h req out offset rem_len observed io = (r, io') \<Longrightarrow> keeps io io'"
proof (induction "unat rem_len" arbitrary: out offset rem_len io rule: less_induct)
  case less
  show ?case
  proof (cases "rem_len = 0")
    case True
    then show ?thesis using less.prems by (simp add: sequential_into.simps)
  next
    case False
    from less.prems False refl show ?thesis
    proof (cases rule: sequential_cases)
      case (more read io1)
      have "unat (u64_saturating_sub rem_len (len64 (read_data read))) < unat rem_len"
        by (rule saturating_sub_decreases [OF _ more(3) validated_length [OF more(2)]]) (use False in \<open>simp add: word_neq_0_conv\<close>)
      from less.hyps [OF this more(5)] show ?thesis using keeps_trans [OF read_keeps(1) [OF more(1)]] by blast
    qed (auto dest: read_keeps)
  qed
qed

lemma sequential_count:
  fixes rem_len :: u64 and chunk :: u32
  shows "unat (ucast (min rem_len (ucast chunk)) :: u32) = min (unat rem_len) (unat chunk)"
proof -
  have "unat (ucast (min rem_len (ucast chunk)) :: u32) = unat (min rem_len (ucast chunk :: u64))"
    by (rule unat_ucast_chunk [of "ucast chunk"]) simp_all
  then show ?thesis by (auto simp: min_def word_le_nat_alt)
qed

lemma sequential_filled:
  assumes "sequential_into h req out offset rem_len None io = (Ok out', io')" and "serves file n io'"
    and "n \<le> length (issued io)" and "0 < read_chunk_size (ns_config (inner io))" and "unat offset + unat rem_len < 2 ^ 64"
  shows "filled file out offset rem_len req out'"
  using assms(1,3-)
proof (induction "unat rem_len" arbitrary: out offset rem_len io rule: less_induct)
  case less
  show ?case
  proof (cases "rem_len = 0")
    case True
    then show ?thesis using less.prems(1) by (simp add: sequential_into.simps Let_def then_outcome_Ok filled_def)
  next
    case False
    define count :: u32 where "count = ucast (min rem_len (ucast (read_chunk_size (ns_config (inner io)))))"
    have count: "unat count = min (unat rem_len) (unat (read_chunk_size (ns_config (inner io))))"
      by (simp add: count_def sequential_count)
    then have pos: "0 < count" using False less.prems(3) by (simp add: word_less_nat_alt unat_gt_0)
    have valid: "length (read_data read) \<le> unat rem_len" "read_data read \<noteq> [] \<or> read_eof read"
      if "validate_read_reply read count = Ok ()" for read
      using that pos count by (auto simp: validate_read_reply_Ok)
    from less.prems(1) False count_def show ?thesis
    proof (cases rule: sequential_cases)
      case (ends read)
      then have eof: "read_eof read" using valid(2) [OF ends(2)] by blast
      have "expected_eof req = Some e \<Longrightarrow> eof_offset e = offset + len64 (read_data read)" for e
        using ends(5) eof by (auto simp: then_outcome_Ok validate_optional_observed_eof_def split: if_splits)
      moreover have "out' = out @ read_data read" using ends(5) by (metis outcome.inject(1) then_outcome_Ok)
      ultimately show ?thesis
        using filled_whole [OF read_serves(1) [OF assms(2) less.prems(2) ends(1)] valid(1) [OF ends(2)] less.prems(4)] eof by simp
    next
      case (more read io1)
      let ?rem = "u64_saturating_sub rem_len (len64 (read_data read))"
      note k = read_keeps(1) [OF more(1)] and part = read_serves(1) [OF serves_backwards [OF sequential_keeps [OF more(5)] assms(2)] less.prems(2) more(1)]
      have dec: "unat ?rem < unat rem_len"
        by (rule saturating_sub_decreases [OF _ more(3) validated_length [OF more(2)]]) (use False in \<open>simp add: word_neq_0_conv\<close>)
      have "unat (offset + len64 (read_data read)) + unat ?rem < 2 ^ 64"
        using less.prems(4) valid(1) [OF more(2)] unat_add_len64 [of offset "read_data read"] validated_len64 [OF more(2)]
        by (simp add: u64_saturating_sub_def unat_sub word_le_nat_alt)
      then have "filled file (out @ read_data read) (offset + len64 (read_data read)) ?rem req out'"
        using less.hyps [OF dec more(5)] less.prems(2,3) keeps_issued_length [OF k] keeps_config [OF k] by simp
      then have next_part: "length (read_data read) < unat rem_len \<Longrightarrow> ?thesis"
        using filled_extend [OF part more(3) valid(1) [OF more(2)] less.prems(4)] by blast
      have "?thesis" if all: "length (read_data read) = unat rem_len"
      proof -
        have "len64 (read_data read) = rem_len"
          using all validated_len64 [OF more(2)] by (intro unsigned_word_eqI) simp
        then have "?rem = 0" by (simp add: u64_saturating_sub_def)
        then have "validate_optional_observed_eof (expected_eof req) None = Ok ()" "out' = out @ read_data read"
          using more(5) by (simp_all add: sequential_into.simps Let_def then_outcome_Ok)
        moreover have "filled file out offset rem_len req (out @ read_data read)" if "expected_eof req = None"
          by (rule filled_whole [OF part valid(1) [OF more(2)] less.prems(4)]) (use all that in simp_all)
        ultimately show ?thesis by (simp add: validate_optional_observed_eof_def split: option.splits)
      qed
      then show ?thesis using next_part valid(1) [OF more(2)] by linarith
    qed simp
  qed
qed

definition readable :: "Io \<Rightarrow> bool" where
  "readable io \<longleftrightarrow> 0 < read_granularity (ns_config (inner io)) \<and>
     read_granularity (ns_config (inner io)) \<le> read_chunk_size (ns_config (inner io))"

lemma readable_keeps: "keeps io io' \<Longrightarrow> readable io' \<longleftrightarrow> readable io"
  by (simp add: readable_def keeps_config)

lemma readable_chunk: "readable io \<Longrightarrow> 0 < read_chunk_size (ns_config (inner io))"
  by (auto simp: readable_def intro: less_le_trans)

lemma granularity64_run:
  "unat (granularity64 s) = unat (read_granularity (ns_config s))" "unat (granularity64 s) < 2 ^ 32"
  by (simp_all add: granularity64_def)

lemma pipelined_keeps:
  "read_handle_to_bytes_pipelined_into picks h out start total_len req io = (r, io') \<Longrightarrow> keeps io io'"
  using session_reads.into_forwards [where ?io0.0 = io] by (simp add: read_handle_to_bytes_pipelined_into_def)

lemma serves_later: "serves file n io \<Longrightarrow> n \<le> m \<Longrightarrow> serves file m io"
  unfolding serves_def by (meson order_trans)

lemma pipelined_filled:
  assumes "read_handle_to_bytes_pipelined_into picks h out start total_len req io = (Ok out', io')" and "serves file n io'"
    and "n \<le> length (issued io)" and "readable io" and "unat start + unat total_len < 2 ^ 64"
  shows "filled file out start total_len req out'"
proof -
  let ?c = "ucast (read_granularity (ns_config (inner io))) :: u64"
  have c: "0 < ?c" "unat ?c < 2 ^ 32"
    using assms(4) granularity64_run [of "inner io"] by (simp_all add: readable_def word_less_nat_alt granularity64_def)
  have d: "0 < operation_pipeline_depth (inner io)"
    by (simp add: operation_pipeline_depth_def operation_pipeline_depth_for_slots_def)
  note r = session_reads.into_result
    [OF assms(1) [unfolded read_handle_to_bytes_pipelined_into_def] serves_later [OF assms(2,3)] d c keeps_refl]
  show ?thesis
    using r u64_saturating_add_bounds(3) [OF assms(5)] by (auto simp: filled_def)
qed

lemma after_prefix_filled:
  assumes "read_handle_to_bytes_after_prefix picks h out offset len req io = (Ok out', io')" and "serves file n io'"
    and "n \<le> length (issued io)" and "readable io" and "unat offset + unat len < 2 ^ 64"
  shows "filled file out offset len req out'"
  using assms(1) pipelined_filled [OF _ assms(2-5)] sequential_filled [OF _ assms(2,3) readable_chunk [OF assms(4)] assms(5)]
  by (auto simp: read_handle_to_bytes_after_prefix_def read_handle_to_bytes_sequential_into_def split: if_splits)

lemma validated_whole:
  assumes "file_part file offset (read_data read) (read_eof read)" and "validate_read_reply read count = Ok ()"
    and "unat count = unat len" and "unat offset + unat len < 2 ^ 64" and "\<not> read_needs_retry read count"
    and "validate_optional_expected_eof (expected_eof req) (offset + len64 (read_data read)) (read_eof read) = Ok ()"
  shows "filled file out offset len req (out @ read_data read)"
proof (rule filled_whole [OF assms(1) _ assms(4)])
  show le: "length (read_data read) \<le> unat len" using assms(2,3) by (simp add: validate_read_reply_Ok)
  show all: "read_eof read \<or> length (read_data read) = unat len"
    using le assms(3,5) by (auto simp: read_needs_retry_def)
  fix e
  assume e: "expected_eof req = Some e" "unat (eof_offset e) = unat offset + unat len"
  have o: "unat (offset + len64 (read_data read)) = unat offset + length (read_data read)"
    using le assms(4) by (intro unat_add_len64) linarith
  show "read_eof read \<and> eof_offset e = offset + len64 (read_data read)"
    using assms(6) e o all
    by (auto simp: validate_optional_expected_eof_def validate_eof_expectation_def Let_def word_le_nat_alt split: if_splits)
qed

lemma single_chunk_filled:
  assumes "read_handle_single_chunk_or_continue h offset count req io = (Ok out', io')" and "serves file n io'"
    and "n \<le> length (issued io)" and "readable io" and "unat offset + unat len < 2 ^ 64" and "unat count = unat len" and "0 < len"
  shows "filled file [] offset len req out'"
proof -
  obtain read io1 where run: "read_anonymous h offset count io = (Ok read, io1)" and v: "validate_read_reply read count = Ok ()"
    and rest: "(if \<not> read_needs_retry read count
      then and_then (lift (validate_optional_expected_eof (expected_eof req) (offset + len64 (read_data read)) (read_eof read))) (\<lambda>_.
        ok (read_data read))
      else read_handle_to_bytes_sequential_into h (read_data read) (offset + len64 (read_data read))
        (u64_saturating_sub (ucast count) (len64 (read_data read))) req) io1 = (Ok out', io')"
    using assms(1) by (auto simp: read_handle_single_chunk_or_continue_def and_then_Ok)
  show ?thesis
  proof (cases "read_needs_retry read count")
    case False
    then have w: "validate_optional_expected_eof (expected_eof req) (offset + len64 (read_data read)) (read_eof read) = Ok ()"
      "out' = read_data read" "io1 = io'" using rest by (auto simp: and_then_Ok)
    show ?thesis
      using validated_whole [OF read_serves(1) [OF assms(2,3) run [unfolded w(3)]] v assms(6,5) False w(1), of "[]"] w(2) by simp
  next
    case True
    then have s: "sequential_into h req (read_data read) (offset + len64 (read_data read))
        (u64_saturating_sub (ucast count) (len64 (read_data read))) None io1 = (Ok out', io')"
      and lt: "length (read_data read) < unat len" "\<not> read_eof read"
      using rest assms(6) by (simp_all add: read_handle_to_bytes_sequential_into_def read_needs_retry_def)
    have len: "ucast count = len" using assms(6) by (metis unat_ucast_64 unsigned_word_eqI)
    note k = read_keeps(1) [OF run] and part = read_serves(1) [OF serves_backwards [OF sequential_keeps [OF s] assms(2)] assms(3) run]
    have ne: "read_data read \<noteq> []" using v lt(2) assms(6,7) by (auto simp: validate_read_reply_Ok word_less_nat_alt)
    have "unat (offset + len64 (read_data read)) + unat (u64_saturating_sub len (len64 (read_data read))) < 2 ^ 64"
      using assms(5) lt(1) unat_add_len64 [of offset "read_data read"] validated_len64 [OF v]
      by (simp add: u64_saturating_sub_def unat_sub word_le_nat_alt)
    then have "filled file (read_data read) (offset + len64 (read_data read)) (u64_saturating_sub len (len64 (read_data read))) req out'"
      using sequential_filled [OF s assms(2)] assms(3,4) keeps_issued_length [OF k] readable_chunk [of io1] readable_keeps [OF k] len by simp
    then show ?thesis using filled_extend [OF part ne _ assms(5) lt(1), of "[]"] lt(1) by simp
  qed
qed

lemma single_chunk_keeps: "read_handle_single_chunk_or_continue h offset count req io = (r, io') \<Longrightarrow> keeps io io'"
  unfolding read_handle_single_chunk_or_continue_def read_handle_to_bytes_sequential_into_def
  by (erule and_then_keeps) (auto simp: and_then_def dest: read_keeps sequential_keeps split: outcome.splits if_splits)

lemma after_prefix_keeps: "read_handle_to_bytes_after_prefix picks h pre offset len req io = (r, io') \<Longrightarrow> keeps io io'"
  by (auto simp: read_handle_to_bytes_after_prefix_def read_handle_to_bytes_sequential_into_def
      dest: sequential_keeps pipelined_keeps split: if_splits)

lemma to_bytes_keeps: "read_handle_to_bytes picks h offset len req io = (r, io') \<Longrightarrow> keeps io io'"
  by (auto simp: read_handle_to_bytes_def read_handle_to_bytes_sequential_into_def
      dest: sequential_keeps pipelined_keeps single_chunk_keeps split: if_splits)

lemma unat_ucast_small: "len \<le> granularity64 s \<Longrightarrow> unat (ucast len :: u32) = unat len"
  by (rule unat_ucast_chunk [OF granularity64_run(2)])

lemma to_bytes_filled:
  assumes "read_handle_to_bytes picks h offset len req io = (Ok out', io')" and "serves file n io'"
    and "n \<le> length (issued io)" and "readable io" and "unat offset + unat len < 2 ^ 64"
  shows "filled file [] offset len req out'"
proof (cases "len = 0")
  case True
  then show ?thesis using assms(1) by (simp add: read_handle_to_bytes_def filled_def)
next
  case False
  then have pos: "0 < len" by (simp add: word_neq_0_conv)
  show ?thesis
  proof (cases "len \<le> granularity64 (inner io)")
    case True
    then show ?thesis
      using assms(1) False single_chunk_filled [OF _ assms(2-5) unat_ucast_small [OF True] pos]
      by (simp add: read_handle_to_bytes_def)
  next
    case more: False
    then show ?thesis
      using assms(1) False pipelined_filled [OF _ assms(2-5)]
        sequential_filled [OF _ assms(2,3) readable_chunk [OF assms(4)] assms(5)]
      by (auto simp: read_handle_to_bytes_def read_handle_to_bytes_sequential_into_def split: if_splits)
  qed
qed

lemma range_small_filled:
  assumes "read_range_anonymous picks components start len req io = (Ok out', io')" and "serves file n io'"
    and "n \<le> length (issued io)" and "readable io" and "unat start + unat len < 2 ^ 64" and "len \<le> granularity64 (inner io)"
  shows "filled file [] start len req out'"
proof -
  let ?count = "ucast len :: u32"
  obtain read io1 where run: "read_path_anonymous components start ?count io = (Ok read, io1)"
    and v: "validate_read_reply read ?count = Ok ()"
    and rest: "(if \<not> read_needs_retry read ?count
      then and_then (lift (validate_optional_expected_eof (expected_eof req) (start + len64 (read_data read)) (read_eof read))) (\<lambda>_.
        ok (read_data read))
      else and_then (lookup_file_handle components) (\<lambda>h. read_handle_to_bytes picks h start len req)) io1 = (Ok out', io')"
    using assms(1,6) by (auto simp: read_range_anonymous_def run_session Let_def)
  note k = read_keeps(2) [OF run]
  show ?thesis
  proof (cases "read_needs_retry read ?count")
    case False
    then have w: "validate_optional_expected_eof (expected_eof req) (start + len64 (read_data read)) (read_eof read) = Ok ()"
      "out' = read_data read" "io1 = io'" using rest by (auto simp: and_then_Ok)
    show ?thesis
      using validated_whole [OF read_serves(2) [OF assms(2,3) run [unfolded w(3)]] v unat_ucast_small [OF assms(6)] assms(5) False w(1), of "[]"]
        w(2) by simp
  next
    case True
    then obtain h io2 where l: "lookup_file_handle components io1 = (Ok h, io2)"
      and b: "read_handle_to_bytes picks h start len req io2 = (Ok out', io')"
      using rest by (auto simp: and_then_Ok)
    have k2: "keeps io io2" by (rule keeps_trans [OF k read_keeps(5) [OF l]])
    show ?thesis
      using to_bytes_filled [OF b assms(2)] assms(3-5) keeps_issued_length [OF k2] readable_keeps [OF k2] by simp
  qed
qed

lemma range_filled:
  assumes "read_range_anonymous picks components start len req io = (Ok out', io')" and "serves file n io'"
    and "n \<le> length (issued io)" and "readable io" and "unat start + unat len < 2 ^ 64"
  shows "filled file [] start len req out'"
proof (cases "len \<le> granularity64 (inner io)")
  case True
  then show ?thesis by (rule range_small_filled [OF assms])
next
  case False
  let ?count = "read_granularity (ns_config (inner io))"
  have lt: "unat ?count < unat len" using False by (simp add: granularity64_run(1) word_le_nat_alt)
  obtain h read io1 where run: "read_path_anonymous_with_handle components start ?count io = (Ok (h, read), io1)"
    and v: "validate_read_reply read ?count = Ok ()"
    and rest: "(if read_eof read
       then and_then (lift (validate_optional_expected_eof (expected_eof req) (start + len64 (read_data read)) True)) (\<lambda>_.
         ok (read_data read))
       else read_handle_to_bytes_after_prefix picks h (read_data read) (start + len64 (read_data read))
         (len - len64 (read_data read)) req) io1 = (Ok out', io')"
    using assms(1) False by (auto simp: read_range_anonymous_def run_session Let_def)
  have le: "length (read_data read) < unat len" "read_data read \<noteq> [] \<or> read_eof read"
    using v lt assms(4) by (auto simp: validate_read_reply_Ok readable_def)
  show ?thesis
  proof (cases "read_eof read")
    case True
    then have w: "validate_optional_expected_eof (expected_eof req) (start + len64 (read_data read)) True = Ok ()"
      "out' = [] @ read_data read" "io1 = io'" using rest by (auto simp: and_then_Ok)
    show ?thesis
      unfolding w(2)
      by (rule filled_whole [OF read_serves(3) [OF assms(2,3) run [unfolded w(3)]] less_imp_le [OF le(1)] assms(5)])
        (use True w(1) in \<open>auto simp: validate_optional_expected_eof_def validate_eof_expectation_def Let_def split: if_splits\<close>)
  next
    case more: False
    then have a: "read_handle_to_bytes_after_prefix picks h (read_data read) (start + len64 (read_data read))
         (len - len64 (read_data read)) req io1 = (Ok out', io')" using rest by simp
    note k = read_keeps(3) [OF run] and part = read_serves(3) [OF serves_backwards [OF after_prefix_keeps [OF a] assms(2)] assms(3) run]
    have sub: "u64_saturating_sub len (len64 (read_data read)) = len - len64 (read_data read)"
      using le(1) validated_len64 [OF v] by (simp add: u64_saturating_sub_def word_le_nat_alt)
    have "unat (start + len64 (read_data read)) + unat (len - len64 (read_data read)) < 2 ^ 64"
      using assms(5) le(1) unat_add_len64 [of start "read_data read"] validated_len64 [OF v]
      by (simp add: unat_sub word_le_nat_alt)
    then have "filled file (read_data read) (start + len64 (read_data read)) (len - len64 (read_data read)) req out'"
      using after_prefix_filled [OF a assms(2)] assms(3,4) keeps_issued_length [OF k] readable_keeps [OF k] by simp
    then show ?thesis using filled_extend [OF part _ _ assms(5) le(1), of "[]"] le more sub by simp
  qed
qed

subsection \<open>The read operations return the file\<close>

lemma get_once_file:
  assumes "get_once picks limit components io = (Ok out, io')" and "serves file n io'"
    and "n \<le> length (issued io)" and "readable io"
  shows "out = file"
proof -
  let ?count = "small_get_probe_count (inner io) limit"
  obtain h sz read io1 where run: "read_path_anonymous_with_size components ?count io = (Ok (h, sz, read), io1)"
    and v: "validate_read_reply read ?count = Ok ()"
    and rest: "(let read_len = len64 (read_data read) in
      if read_len = sz
      then and_then (lift (validate_eof_expectation (ResolvedWithFile sz) read_len (read_eof read))) (\<lambda>_. ok (read_data read))
      else if read_len > sz
      then fail (size_expectation_error (ResolvedWithFile sz) (if read_eof read then Some read_len else None))
      else if read_eof read then fail (size_expectation_error (ResolvedWithFile sz) (Some read_len))
      else read_handle_to_bytes_after_prefix picks h (read_data read) read_len (sz - read_len)
             (requirements_resolved_exact sz limit)) io1 = (Ok out, io')"
    using assms(1) by (auto simp: get_once_def run_session Let_def)
  note l = validated_len64 [OF v]
  show ?thesis
  proof (cases "len64 (read_data read) = sz")
    case True
    then have w: "read_eof read" "out = read_data read" "io1 = io'"
      using rest by (auto simp: and_then_Ok validate_eof_expectation_def Let_def split: if_splits)
    then have "file_part file 0 out True" using read_serves(4) [OF assms(2,3) run [unfolded w(3)]] by simp
    then have "out = take (length out) file" "length file \<le> length out" unfolding file_part_def by simp_all
    then show ?thesis by (metis take_all)
  next
    case False
    then have lt: "len64 (read_data read) < sz" and a: "read_handle_to_bytes_after_prefix picks h (read_data read)
        (len64 (read_data read)) (sz - len64 (read_data read)) (requirements_resolved_exact sz limit) io1 = (Ok out, io')"
      using rest by (auto simp: Let_def split: if_splits)
    note k = read_keeps(4) [OF run] and part = read_serves(4) [OF serves_backwards [OF after_prefix_keeps [OF a] assms(2)] assms(3) run]
    have rem: "unat (sz - len64 (read_data read)) = unat sz - length (read_data read)" "length (read_data read) < unat sz"
      using lt l unat_sub [OF less_imp_le [OF lt]] by (simp_all add: word_less_nat_alt)
    have "unat (len64 (read_data read)) + unat (sz - len64 (read_data read)) < 2 ^ 64"
      using rem l unat_lt_64 [of sz] by simp
    then have f: "filled file (read_data read) (len64 (read_data read)) (sz - len64 (read_data read)) (requirements_resolved_exact sz limit) out"
      using after_prefix_filled [OF a assms(2)] assms(3,4) keeps_issued_length [OF k] readable_keeps [OF k] by simp
    have "0 < sz - len64 (read_data read)" using rem by (simp add: word_less_nat_alt)
    then have "unat sz = max (length (read_data read)) (length file)"
      using f l rem by (simp add: filled_def requirements_resolved_exact_def)
    then have "unat sz = length file" using rem(2) by (simp add: max_def split: if_splits)
    then show ?thesis
      using f l rem file_part_split [OF part, of "unat sz"] by (simp add: filled_def)
  qed
qed

lemma get_known_size_file:
  assumes "get_known_size_once picks limit components sz io = (Ok out, io')" and "serves file n io'"
    and "n \<le> length (issued io)" and "readable io"
  shows "out = file \<and> length file = unat sz"
proof (cases "sz = 0")
  case True
  then obtain read where run: "read_path_anonymous components 0 1 io = (Ok read, io')"
    and v: "validate_read_reply read 1 = Ok ()" and e: "validate_expected_eof 0 (len64 (read_data read)) (read_eof read) = Ok ()" and o: "out = []"
    using assms(1) by (auto simp: get_known_size_once_def and_then_Ok)
  have "read_eof read" "len64 (read_data read) = 0"
    using e by (auto simp: validate_expected_eof_def validate_eof_expectation_def Let_def split: if_splits)
  moreover have "read_data read = []" using validated_len64 [OF v] calculation(2) by simp
  ultimately show ?thesis
    using read_serves(2) [OF assms(2,3) run] o True by (simp add: file_part_def)
next
  case False
  have "read_range_anonymous picks components 0 sz (requirements_exact sz limit) io = (Ok out, io')"
    using assms(1) False by (auto simp: get_known_size_once_def and_then_Ok)
  then have f: "filled file [] 0 sz (requirements_exact sz limit) out"
    using range_filled [OF _ assms(2-4)] unat_lt_64 [of sz] by simp
  have "0 < sz" using False by (simp add: word_neq_0_conv)
  then show ?thesis using f by (auto simp: filled_def requirements_exact_def)
qed

lemma buffered_range_take:
  fixes start end' :: u64
  assumes "start \<le> end'" and "\<And>sz. attrs = Some sz \<Longrightarrow> unat sz = length file"
  shows "take (unat (min (buffered_range_len start end' attrs) (end' - start))) (drop (unat start) file) =
    take (unat end' - unat start) (drop (unat start) file)"
proof (cases attrs)
  case None
  then show ?thesis using assms(1) by (simp add: buffered_range_len_def unat_sub)
next
  case (Some sz)
  then have sz: "unat sz = length file" using assms(2) by simp
  show ?thesis
  proof (cases "sz \<le> start")
    case True
    then have "drop (unat start) file = []" using sz by (simp add: word_le_nat_alt)
    then show ?thesis by simp
  next
    case False
    then have "unat (buffered_range_len start end' attrs) = min (unat end') (length file) - unat start"
      using Some sz assms(1) by (auto simp: buffered_range_len_def u64_saturating_sub_def unat_sub min_def word_le_nat_alt)
    then have "unat (min (buffered_range_len start end' attrs) (end' - start)) = min (unat end') (length file) - unat start"
      using assms(1) by (simp add: min_def word_le_nat_alt unat_sub)
    then show ?thesis by (simp add: min_def)
  qed
qed

lemma get_range_file:
  assumes "get_range_once picks limit components start end' io = (Ok out, io')" and "serves file n io'"
    and "n \<le> length (issued io)" and "readable io" and "start \<le> end'"
  shows "out = take (unat end' - unat start) (drop (unat start) file)"
proof -
  have len: "unat (end' - start) = unat end' - unat start" using assms(5) by (simp add: unat_sub)
  have fits: "unat start + unat (end' - start) < 2 ^ 64" using assms(5) unat_lt_64 [of end'] by (simp add: len word_le_nat_alt)
  show ?thesis
  proof (cases "range_read_needs_size (end' - start) limit")
    case False
    then show ?thesis
      using assms(1) range_filled [OF _ assms(2-4) fits] by (auto simp: get_range_once_def Let_def filled_def len)
  next
    case True
    obtain h attrs io1 where run: "lookup_file_handle_attrs components AttrSize io = (Ok (h, attrs), io1)"
      and rest: "(let rem_len = min (buffered_range_len start end' (attr_size attrs)) (end' - start) in
         if rem_len = 0 then ok []
         else read_handle_to_bytes picks h start rem_len
           (requirements_new (Some (buffered_range_len start end' (attr_size attrs))) limit)) io1 = (Ok out, io')"
      using assms(1) True by (auto simp: get_range_once_def and_then_Ok Let_def)
    define rem_len where "rem_len = min (buffered_range_len start end' (attr_size attrs)) (end' - start)"
    note k = read_keeps(6) [OF run]
    have k': "keeps io1 io'" using rest by (auto simp: Let_def dest: to_bytes_keeps split: if_splits)
    have size: "attr_size attrs = Some sz \<Longrightarrow> unat sz = length file" for sz
      by (rule read_serves(5) [OF serves_backwards [OF k' assms(2)] assms(3) run])
    have rem: "take (unat rem_len) (drop (unat start) file) = take (unat end' - unat start) (drop (unat start) file)"
      unfolding rem_len_def by (rule buffered_range_take [OF assms(5) size])
    have "unat start + unat rem_len < 2 ^ 64"
      using fits by (auto simp: rem_len_def min_def word_le_nat_alt)
    then have bytes: "read_handle_to_bytes picks h start rem_len req io1 = (Ok out, io') \<Longrightarrow>
        out = take (unat rem_len) (drop (unat start) file)" for req
      using to_bytes_filled [OF _ assms(2), of picks h start rem_len req io1 out] assms(3,4) keeps_issued_length [OF k] readable_keeps [OF k]
      by (simp add: filled_def)
    show ?thesis
    proof (cases "rem_len = 0")
      case True
      then have "out = []" using rest by (simp add: Let_def rem_len_def [symmetric])
      then show ?thesis using rem True by simp
    next
      case False
      then show ?thesis using rest bytes rem by (simp add: Let_def rem_len_def [symmetric])
    qed
  qed
qed

text \<open>
  C13. What a read returns is the file: when every READ that the server answered during the operation
  returned what one file holds there, and set the end-of-file flag only at its end, a successful
  \<open>get_once\<close> returns exactly that file, \<open>get_known_size_once\<close> returns it only if it has the
  size the caller gave, and \<open>get_range_once\<close> returns the part of it in the range. This holds for
  every order in which the READs of a pipelined read complete, and for short replies.
\<close>

theorem reads_return_file:
  assumes "serves file (length (issued io)) io'" and "readable io"
  shows "(get_once picks limit components io = (Ok out, io') \<longrightarrow> out = file) \<and>
    (get_known_size_once picks limit components sz io = (Ok out, io') \<longrightarrow> out = file \<and> length file = unat sz) \<and>
    (get_range_once picks limit components start end' io = (Ok out, io') \<and> start \<le> end' \<longrightarrow>
       out = take (unat end' - unat start) (drop (unat start) file))"
  using get_once_file [OF _ assms(1) le_refl assms(2)] get_known_size_file [OF _ assms(1) le_refl assms(2)]
    get_range_file [OF _ assms(1) le_refl assms(2)] by blast

lemma demo_transport: "keeps (demo bs) io \<Longrightarrow> answer_of io k = Ok bs"
  by (simp add: keeps_def answer_of_def demo_def)

abbreviation (input) read_script :: "op_reply list" where
  "read_script \<equiv> [(op_u32 OpCode.PutFh, status_OK, []), (op_u32 OpCode.Lookup, status_OK, []),
     (op_u32 OpCode.Read, status_OK, be_bytes 4 (1 :: u32) @ opaque_wire [1, 2, 3])]"

lemma read_script_decodes:
  "decode_read_path_compound (demo_reply read_script) 1 = Ok \<lparr> read_eof = True, read_data = [1, 2, 3] \<rparr>"
proof -
  have r: "decode_read_data ((be_bytes 4 (1 :: u32) @ opaque_wire [1, 2, 3]) @ d) = (Ok \<lparr> read_eof = True, read_data = [1, 2, 3] \<rparr>, d)" for d
    using decode_read_data_wire [of "[1, 2, 3]" True d] by (simp add: u32_max_def)
  show ?thesis
    by (simp add: decode_read_path_compound_def with_replies_wire u32_max_def and_then_def walk_sequence_wire advance_wire
        walk_result_wire [where decode = decode_read_data and body = "be_bytes 4 (1 :: u32) @ opaque_wire [1, 2, 3]"
          and rest = "[]", simplified, OF _ _ r [of "[]", simplified]]
        walk_finish_def require_result_def sequence_body_def del: op_u32.simps)
qed

lemma read_script_run:
  "\<exists>io'. read_path_anonymous [''f''] 0 3 (demo (demo_reply read_script)) = (Ok \<lparr> read_eof = True, read_data = [1, 2, 3] \<rparr>, io') \<and>
     serves [1, 2, 3] 0 io'"
proof -
  let ?io = "demo (demo_reply read_script)"
  let ?ops = "[NfsOp.PutFh [], NfsOp.Lookup ''f'', NfsOp.Read stateid_anonymous 0 3]"
  have ops: "path_ops (inner ?io) [''f''] @ [NfsOp.Read stateid_anonymous 0 3] = ?ops"
    by (simp add: path_ops_def export_path_ops_def demo_def extend_export_path_ops_def)
  have send: "sendable ''read-path-anon'' ?ops" by (simp add: sendable_eqs stateid_anonymous_def)
  obtain io' where run: "compound_decode ''read-path-anon'' ?ops (\<lambda>bs. decode_read_path_compound bs 1) ?io =
      (Ok \<lparr> read_eof = True, read_data = [1, 2, 3] \<rparr>, io')"
    using demo_detailed [where decode = "\<lambda>bs. decode_read_path_compound bs 1", OF send _ read_script_decodes, of True]
    by (auto simp: u32_max_def compound_decode_def)
  obtain x where "conversed ?ops (\<lambda>bs. decode_read_path_compound bs 1) ?io x io'"
    using compound_decode_conversed [OF run] by metis
  then have all: "req_ops (issued io' ! k) = ?ops" if "k < length (issued io')" for k
    using that by (simp add: conversed_def demo_def)
  note answers = demo_transport [OF compound_decode_keeps [OF run]]
  have "serves [1, 2, 3] 0 io'"
    unfolding serves_def
  proof (intro allI impI conjI)
    fix k bs offset read
    assume k: "0 \<le> k \<and> k < length (issued io') \<and> answer_of io' k = Ok bs"
    then have bs: "bs = demo_reply read_script" and o: "req_ops (issued io' ! k) = ?ops" using answers [of k] all by simp_all
    show "file_part [1, 2, 3] offset (read_data read) (read_eof read)" if "read_reply (req_ops (issued io' ! k)) bs offset read"
      using that unfolding o
      by (cases rule: read_reply.cases)
        (auto simp: path_ops_def export_path_ops_def extend_export_path_ops_def Cons_eq_append_conv append_eq_Cons_conv map_eq_Cons_conv bs
          read_script_decodes [unfolded One_nat_def] file_part_def simp del: op_u32.simps)
    show "unat sz = length [1, 2, 3 :: 8 word]" if "size_reply (req_ops (issued io' ! k)) bs sz" for sz
      using that unfolding o
      by (cases rule: size_reply.cases) (auto simp: path_ops_def export_path_ops_def extend_export_path_ops_def Cons_eq_append_conv append_eq_Cons_conv map_eq_Cons_conv)
  qed
  then show ?thesis using run ops by (auto simp: read_path_anonymous_def run_session)
qed

theorem reads_return_file_witness:
  "\<exists>out io'. get_known_size_once (\<lambda>_. 0) None [''f''] 3 (demo (demo_reply read_script)) = (Ok out, io') \<and>
     serves [1, 2, 3] 0 io' \<and> readable (demo (demo_reply read_script)) \<and> out = [1, 2, 3]"
proof -
  let ?io = "demo (demo_reply read_script)"
  obtain io' where run: "read_path_anonymous [''f''] 0 3 ?io = (Ok \<lparr> read_eof = True, read_data = [1, 2, 3] \<rparr>, io')"
    and s: "serves [1, 2, 3] 0 io'"
    using read_script_run by blast
  have r: "readable ?io" by (simp add: readable_def demo_def nfs_config_new_def)
  have get: "get_known_size_once (\<lambda>_. 0) None [''f''] 3 ?io = (Ok [1, 2, 3], io')"
    using run
    by (simp add: get_known_size_once_def ensure_known_size_within_limit_def read_range_anonymous_def run_session and_then_def
        granularity64_def demo_def nfs_config_new_def Let_def validate_read_reply_def ensure_buffered_read_within_limit_def
        requirements_exact_def read_needs_retry_def validate_optional_expected_eof_def validate_eof_expectation_def len64_def)
  have "length (issued ?io) = 0" by (simp add: demo_def)
  then show ?thesis using reads_return_file [of "[1, 2, 3]" ?io io'] s r get by fastforce
qed

text \<open>
  C16. A pipelined read ends: whatever the replies are and in whatever order the READs complete, it
  issues at most one READ for each byte of the range, because every READ that completes fills at
  least one byte of it, ends the file there or fails.
\<close>

theorem pipelined_read_ends:
  assumes "0 < chunk_size" and "unat chunk_size < 2 ^ 32"
  shows "\<exists>r. pipelined_loop (Suc (unat total_len)) picks (read_chunk h) depth
    (scheduler_new start (u64_saturating_add start total_len) chunk_size) (emit_new out start req) [] io = Some r"
  using session_reads.into_enough [OF assms] by blast

theorem pipelined_read_ends_witness:
  "\<exists>r. pipelined_loop (Suc 10) (\<lambda>_. 1) (read_chunk [7]) 2 (scheduler_new 0 (u64_saturating_add 0 10) 4)
     (emit_new [] 0 (requirements_new None None)) [] (demo (demo_reply [])) = Some r"
  using pipelined_read_ends [of 4 10] by simp

subsection \<open>The buffer limit\<close>

definition within_limit :: "u64 option \<Rightarrow> bytes \<Rightarrow> bool" where
  "within_limit limit out \<longleftrightarrow> (\<forall>m. limit = Some m \<and> unat m < usize_max \<longrightarrow> length out \<le> unat m)"

lemma within_limit_append:
  "ensure_buffered_read_within_limit (length out) (length data) len limit = Ok () \<Longrightarrow> within_limit limit (out @ data)"
  by (auto simp: ensure_buffered_read_within_limit_def within_limit_def saturating_add_def split: option.splits if_splits)

lemma emit_within:
  assumes "within_limit (read_limit (pe_requirements p)) (pe_out p)"
  shows "within_limit (read_limit (pe_requirements p)) (pe_out (emit read p))"
proof (cases "rt_data read = []")
  case True
  then show ?thesis using assms by (simp add: emit_def)
next
  case False
  let ?e = "ensure_buffered_read_within_limit (length (pe_out p)) (length (rt_data read))
    (expected_len (pe_requirements p)) (read_limit (pe_requirements p))"
  have "?e = Ok () \<or> (\<exists>e. ?e = Err e)" by (auto simp: ensure_buffered_read_within_limit_def split: option.splits)
  then show ?thesis
    using False assms within_limit_append by (auto simp: emit_def Let_def)
qed

lemma drain_within:
  "within_limit (read_limit (pe_requirements p)) (pe_out p) \<Longrightarrow>
   within_limit (read_limit (pe_requirements p)) (pe_out (drain_queued p)) \<and>
   pe_requirements (drain_queued p) = pe_requirements p"
proof (induction p rule: drain_queued.induct)
  case (1 p)
  obtain r q where t: "take_completed p = (r, q)" by fastforce
  then have q: "pe_out q = pe_out p" "pe_requirements q = pe_requirements p"
    by (auto simp: take_completed_def split: option.splits)
  show ?case
    using 1 t q emit_within [of q "the r"]
    by (cases r) (auto simp: drain_queued.simps [of p] Let_def)
qed

lemma record_read_within:
  assumes "within_limit (read_limit (pe_requirements p)) (pe_out p)"
  shows "within_limit (read_limit (pe_requirements p)) (pe_out (record_read read p)) \<and>
    pe_requirements (record_read read p) = pe_requirements p"
proof -
  define q where "q = (if rt_eof read then observe_read_eof read p else p)"
  have "within_limit (read_limit (pe_requirements q)) (pe_out q)" "pe_requirements q = pe_requirements p"
    using assms by (simp_all add: q_def)
  then show ?thesis
    using emit_within [of q read] drain_within [of "emit read q"]
    by (auto simp: record_read_def q_def [symmetric] Let_def)
qed

lemma loop_within:
  "pipelined_loop fuel picks task depth s p reads st = Some (Ok p', st') \<Longrightarrow>
   within_limit (read_limit (pe_requirements p)) (pe_out p) \<Longrightarrow> within_limit (read_limit (pe_requirements p)) (pe_out p')"
proof (induction fuel arbitrary: s p reads st)
  case (Suc fuel)
  obtain s' reads' where n: "schedule_reads depth p s reads = (s', reads')" by fastforce
  let ?i = "picks fuel mod length reads'"
  obtain offset count where o: "reads' ! ?i = (offset, count)" by fastforce
  obtain x st1 where t: "task offset count st = (x, st1)" by fastforce
  show ?case
    using Suc.prems n o t record_read_within [OF Suc.prems(2)] Suc.IH [of _ "record_read (case x of Ok read \<Rightarrow> read) p" _ st1]
      Suc.IH [of _ "record_error (case x of Err e \<Rightarrow> e) p" _ st1]
    by (cases x) (auto simp: Let_def split: if_splits)
qed simp

lemma into_within:
  assumes "pipelined_into picks task depth chunk_size out start total_len req st = (Ok out', st')"
    and "within_limit (read_limit req) out"
  shows "within_limit (read_limit req) out'"
proof -
  obtain p' where "pipelined_loop (Suc (unat total_len)) picks task depth
      (scheduler_new start (u64_saturating_add start total_len) chunk_size) (emit_new out start req) [] st = Some (Ok p', st')"
    and "out' = pe_out p'"
    using assms(1) by (auto simp: pipelined_into_def then_outcome_Ok simp del: pipelined_loop.simps split: option.splits prod.splits outcome.splits)
  then show ?thesis using loop_within assms(2) by (fastforce simp: emit_new_def simp del: pipelined_loop.simps)
qed

lemma sequential_within:
  "sequential_into h req out offset rem_len observed io = (Ok out', io') \<Longrightarrow> within_limit (read_limit req) out \<Longrightarrow>
   within_limit (read_limit req) out'"
proof (induction "unat rem_len" arbitrary: out offset rem_len io rule: less_induct)
  case less
  show ?case
  proof (cases "rem_len = 0")
    case True
    then show ?thesis using less.prems by (simp add: sequential_into.simps Let_def then_outcome_Ok)
  next
    case False
    from less.prems(1) False refl show ?thesis
    proof (cases rule: sequential_cases)
      case (ends read)
      have "out' = out @ read_data read" using ends(5) by (metis outcome.inject(1) then_outcome_Ok)
      then show ?thesis using within_limit_append [OF ends(4)] less.prems(2) by (cases "read_data read = []") simp_all
    next
      case (more read io1)
      have "unat (u64_saturating_sub rem_len (len64 (read_data read))) < unat rem_len"
        by (rule saturating_sub_decreases [OF _ more(3) validated_length [OF more(2)]]) (use False in \<open>simp add: word_neq_0_conv\<close>)
      from less.hyps [OF this more(5) within_limit_append [OF more(6)]] show ?thesis .
    qed simp
  qed
qed

lemma within_limit_Nil [simp]: "within_limit limit []"
  by (simp add: within_limit_def)

lemma after_prefix_within:
  "read_handle_to_bytes_after_prefix picks h pre offset len req io = (Ok out, io') \<Longrightarrow> within_limit (read_limit req) pre \<Longrightarrow>
   within_limit (read_limit req) out"
  by (auto simp: read_handle_to_bytes_after_prefix_def read_handle_to_bytes_sequential_into_def
      read_handle_to_bytes_pipelined_into_def dest: sequential_within into_within split: if_splits)

lemma to_bytes_within:
  "read_handle_to_bytes picks h offset len req io = (Ok out, io') \<Longrightarrow> within_limit (read_limit req) out"
  by (auto simp: read_handle_to_bytes_def read_handle_single_chunk_or_continue_def read_handle_to_bytes_sequential_into_def
      read_handle_to_bytes_pipelined_into_def and_then_Ok
      dest: sequential_within into_within within_limit_append [where out = "[]", simplified] split: if_splits)

lemma range_within:
  "read_range_anonymous picks components start len req io = (Ok out, io') \<Longrightarrow> within_limit (read_limit req) out"
  by (auto simp: read_range_anonymous_def run_session Let_def
      dest!: within_limit_append [where out = "[]", simplified] dest: to_bytes_within after_prefix_within split: if_splits)

lemma get_once_within:
  assumes "get_once picks limit components io = (Ok out, io')"
  shows "within_limit limit out"
proof -
  obtain h sz read io1 where v: "validate_read_reply read (small_get_probe_count (inner io) limit) = Ok ()"
    and sz: "ensure_known_size_within_limit sz limit = Ok ()"
    and rest: "len64 (read_data read) = sz \<and> out = read_data read \<or>
      len64 (read_data read) < sz \<and> read_handle_to_bytes_after_prefix picks h (read_data read) (len64 (read_data read))
        (sz - len64 (read_data read)) (requirements_resolved_exact sz limit) io1 = (Ok out, io')"
    using assms by (fastforce simp: get_once_def run_session Let_def split: if_splits)
  have "length (read_data read) \<le> unat sz" using rest validated_len64 [OF v] by (auto simp: word_less_nat_alt)
  then have "within_limit limit (read_data read)"
    using sz by (auto simp: within_limit_def ensure_known_size_within_limit_def word_le_nat_alt not_less split: if_splits)
  then show ?thesis
    using rest after_prefix_within [of picks h "read_data read" _ _ "requirements_resolved_exact sz limit" io1]
    by (auto simp: requirements_resolved_exact_def)
qed

text \<open>
  C15. A buffered read never returns more than the limit of the client (\<open>max_buffered_read_size\<close>), whatever
  sizes and data the server reports.
\<close>

theorem reads_within_limit:
  assumes "limit = Some m" and "unat m < usize_max"
    and "get_once picks limit components io = (Ok out, io') \<or>
      get_known_size_once picks limit components sz io = (Ok out, io') \<or>
      get_range_once picks limit components start end' io = (Ok out, io')"
  shows "length out \<le> unat m"
proof -
  have known: "get_known_size_once picks limit components sz io = (Ok out, io') \<Longrightarrow> within_limit limit out"
    by (auto simp: get_known_size_once_def and_then_Ok requirements_exact_def dest: range_within split: if_splits)
  have ranged: "get_range_once picks limit components start end' io = (Ok out, io') \<Longrightarrow> within_limit limit out"
    by (auto simp: get_range_once_def and_then_Ok requirements_new_def Let_def dest: range_within to_bytes_within split: if_splits)
  show ?thesis using known ranged get_once_within assms by (auto simp: within_limit_def)
qed

theorem reads_within_limit_witness:
  "\<exists>out io'. get_known_size_once (\<lambda>_. 0) (Some 5) [''f''] 3 (demo (demo_reply read_script)) = (Ok out, io') \<and> length out \<le> 5"
proof -
  let ?io = "demo (demo_reply read_script)"
  obtain io' where run: "read_path_anonymous [''f''] 0 3 ?io = (Ok \<lparr> read_eof = True, read_data = [1, 2, 3] \<rparr>, io')"
    using read_script_run by blast
  have get: "get_known_size_once (\<lambda>_. 0) (Some 5) [''f''] 3 ?io = (Ok [1, 2, 3], io')"
    using run
    by (simp add: get_known_size_once_def ensure_known_size_within_limit_def read_range_anonymous_def run_session and_then_def
        granularity64_def demo_def nfs_config_new_def Let_def validate_read_reply_def ensure_buffered_read_within_limit_def saturating_add_def
        requirements_exact_def read_needs_retry_def validate_optional_expected_eof_def validate_eof_expectation_def len64_def usize_max_def)
  then show ?thesis
    using reads_within_limit [of "Some 5" 5 "\<lambda>_. 0" "[''f'']" ?io _ io' 3] by (auto simp: usize_max_def)
qed

end
