(* ===== verification/Client_Write.thy ===== *)
theory Client_Write
  imports Client_Read
begin

text \<open>
  Writing the body of a file (\<open>src/client.rs\<close>): \<open>write_bytes\<close> with its three ways, a body of one chunk
  written and committed at once, chunks one after the other, and pipelined chunks. A server may write
  less than it was given; the rest is written again from there. \<open>stored\<close> says what the server has
  acknowledged of a body; the lemmas show that a successful write acknowledged every byte of it and
  carries the one verifier that a later COMMIT has to return.
\<close>

subsection \<open>Outcomes\<close>

record WriteOutcome =
  bytes_written :: u64
  unstable_verifier :: "bytes option"

definition outcome_default :: WriteOutcome where
  "outcome_default = \<lparr> bytes_written = 0, unstable_verifier = None \<rparr>"

definition from_write :: "WriteData \<Rightarrow> usize \<Rightarrow> WriteOutcome" where
  "from_write write n =
    \<lparr> bytes_written = of_nat n, unstable_verifier = (if requires_commit write then Some (write_verifier write) else None) \<rparr>"

definition record_unstable :: "bytes \<Rightarrow> WriteOutcome \<Rightarrow> unit result \<times> WriteOutcome" where
  "record_unstable verifier outcome = (case unstable_verifier outcome of
     Some existing \<Rightarrow> (ensure_write_verifier existing verifier, outcome)
   | None \<Rightarrow> (Ok (), outcome\<lparr> unstable_verifier := Some verifier \<rparr>))"

definition merge_outcome :: "WriteOutcome \<Rightarrow> WriteOutcome \<Rightarrow> unit result \<times> WriteOutcome" where
  "merge_outcome outcome added =
    (let outcome = outcome\<lparr> bytes_written := bytes_written outcome + bytes_written added \<rparr> in
     case unstable_verifier added of
       Some verifier \<Rightarrow> record_unstable verifier outcome
     | None \<Rightarrow> (Ok (), outcome))"

text \<open>\<open>merge_outcome\<close> followed by \<open>?\<close>: the caller that gets an error drops the outcome.\<close>

definition try_merge :: "WriteOutcome \<Rightarrow> WriteOutcome \<Rightarrow> WriteOutcome result" where
  "try_merge outcome added = (case merge_outcome outcome added of (r, outcome) \<Rightarrow> then_outcome r (\<lambda>_. Ok outcome))"

definition validate_write_reply :: "WriteData \<Rightarrow> usize \<Rightarrow> usize result" where
  "validate_write_reply write requested_len =
    (let written = unat (write_count write) in
     if written = 0 then Err (Protocol ''NFS WRITE made no progress'')
     else if written > requested_len then Err (Protocol ''NFS WRITE reported {} bytes for a {} byte request'')
     else Ok written)"

subsection \<open>One chunk after the other\<close>

text \<open>One turn of the loop of \<open>write_chunk_all\<close>: what was written so far, the offset and the outcome after it.\<close>

definition write_step :: "OpenedFile \<Rightarrow> bytes \<Rightarrow> usize \<Rightarrow> u64 \<Rightarrow> WriteOutcome \<Rightarrow> (usize \<times> u64 \<times> WriteOutcome) io" where
  "write_step opened chunk written_total offset outcome =
    and_then session_of (\<lambda>s.
    (let end' = min (written_total + unat (write_chunk_size (ns_config s))) (length chunk);
         part = take (end' - written_total) (drop written_total chunk) in
     and_then (session_write opened offset part) (\<lambda>write.
     and_then (lift (validate_write_reply write (length part))) (\<lambda>written.
     and_then (lift (try_merge outcome (from_write write written))) (\<lambda>outcome.
     ok (written_total + written, offset + of_nat written, outcome))))))"

lemma validate_write_reply_Ok:
  "validate_write_reply write len = Ok n \<longleftrightarrow> n = unat (write_count write) \<and> 0 < n \<and> n \<le> len"
  by (auto simp: validate_write_reply_def Let_def)

lemma write_step_Ok:
  assumes "write_step opened chunk written_total offset outcome io = (Ok (total', offset', outcome'), io')"
  obtains part w where
    "part = take (min (written_total + unat (write_chunk_size (ns_config (inner io)))) (length chunk) - written_total) (drop written_total chunk)"
    and "session_write opened offset part io = (Ok w, io')" and "0 < unat (write_count w)"
    and "unat (write_count w) \<le> length part" and "total' = written_total + unat (write_count w)"
    and "offset' = offset + of_nat (unat (write_count w))"
    and "try_merge outcome (from_write w (unat (write_count w))) = Ok outcome'"
  using assms by (auto simp: write_step_def run_session Let_def validate_write_reply_Ok)

function write_all_from :: "OpenedFile \<Rightarrow> bytes \<Rightarrow> usize \<Rightarrow> u64 \<Rightarrow> WriteOutcome \<Rightarrow> WriteOutcome io" where
  "write_all_from opened chunk written_total offset outcome io =
    (if written_total < length chunk then
       (case write_step opened chunk written_total offset outcome io of
          (Ok (written_total, offset, outcome), io) \<Rightarrow> write_all_from opened chunk written_total offset outcome io
        | (Err e, io) \<Rightarrow> (Err e, io)
        | (Panic, io) \<Rightarrow> (Panic, io))
     else (Ok outcome, io))"
  by pat_completeness auto
termination
  by (relation "measure (\<lambda>(opened, chunk, written_total, offset, outcome, io). length chunk - written_total)")
    (auto dest!: sym [of _ "write_step _ _ _ _ _ _"] elim!: write_step_Ok)

declare write_all_from.simps [simp del]

definition write_chunk_all :: "OpenedFile \<Rightarrow> u64 \<Rightarrow> bytes \<Rightarrow> WriteOutcome io" where
  "write_chunk_all opened offset chunk = write_all_from opened chunk 0 offset outcome_default"

definition write_chunk :: "OpenedFile \<Rightarrow> u64 \<Rightarrow> bytes \<Rightarrow> WriteOutcome io" where
  "write_chunk opened offset chunk =
    and_then (session_write opened offset chunk) (\<lambda>write.
    and_then (lift (validate_write_reply write (length chunk))) (\<lambda>written.
    (let outcome = from_write write written in
     if written = length chunk then ok outcome
     else and_then (write_chunk_all opened (offset + of_nat written) (drop written chunk)) (\<lambda>rest.
       lift (try_merge outcome rest)))))"

subsection \<open>A single chunk, committed\<close>

definition commit_step :: "OpenedFile \<Rightarrow> bytes \<Rightarrow> usize \<Rightarrow> u64 \<Rightarrow> (usize \<times> u64) io" where
  "commit_step opened chunk written_total offset =
    (let part = drop written_total chunk in
     and_then (write_and_commit opened offset part) (\<lambda>(write, commit_verifier).
     and_then (lift (validate_write_reply write (length part))) (\<lambda>written.
     and_then (if requires_commit write then lift (ensure_write_verifier (write_verifier write) commit_verifier) else ok ()) (\<lambda>_.
     ok (written_total + written, offset + of_nat written)))))"

lemma commit_step_Ok:
  assumes "commit_step opened chunk written_total offset io = (Ok (total', offset'), io')"
  obtains w verifier where "write_and_commit opened offset (drop written_total chunk) io = (Ok (w, verifier), io')"
    and "0 < unat (write_count w)" and "unat (write_count w) \<le> length chunk - written_total"
    and "requires_commit w \<Longrightarrow> verifier = write_verifier w"
    and "total' = written_total + unat (write_count w)" and "offset' = offset + of_nat (unat (write_count w))"
  using assms
  by (auto simp: commit_step_def run_session Let_def validate_write_reply_Ok ensure_write_verifier_def split: if_splits)

function commit_from :: "OpenedFile \<Rightarrow> bytes \<Rightarrow> usize \<Rightarrow> u64 \<Rightarrow> usize io" where
  "commit_from opened chunk written_total offset io =
    (if written_total < length chunk then
       (case commit_step opened chunk written_total offset io of
          (Ok (written_total, offset), io) \<Rightarrow> commit_from opened chunk written_total offset io
        | (Err e, io) \<Rightarrow> (Err e, io)
        | (Panic, io) \<Rightarrow> (Panic, io))
     else (Ok written_total, io))"
  by pat_completeness auto
termination
  by (relation "measure (\<lambda>(opened, chunk, written_total, offset, io). length chunk - written_total)")
    (auto dest!: sym [of _ "commit_step _ _ _ _ _"] elim!: commit_step_Ok)

declare commit_from.simps [simp del]

definition write_single_chunk_committed :: "OpenedFile \<Rightarrow> u64 \<Rightarrow> bytes \<Rightarrow> WriteOutcome io" where
  "write_single_chunk_committed opened offset chunk =
    and_then (commit_from opened chunk 0 offset) (\<lambda>written_total.
    ok \<lparr> bytes_written = of_nat written_total, unstable_verifier = None \<rparr>)"

subsection \<open>Pipelined chunks\<close>

text \<open>
  A \<open>write_chunk\<close> in flight: before its first reply, or in the loop that writes the rest. One step is
  one WRITE and its reply; \<open>picks\<close> decides whose reply arrives next.
\<close>

datatype WriteTask =
    FirstWrite u64 bytes
  | RestWrite WriteOutcome bytes usize u64 WriteOutcome

fun task_step :: "OpenedFile \<Rightarrow> WriteTask \<Rightarrow> (WriteTask + WriteOutcome) io" where
  "task_step opened (FirstWrite offset chunk) =
    and_then (session_write opened offset chunk) (\<lambda>write.
    and_then (lift (validate_write_reply write (length chunk))) (\<lambda>written.
    (let outcome = from_write write written in
     if written = length chunk then ok (Inr outcome)
     else ok (Inl (RestWrite outcome (drop written chunk) 0 (offset + of_nat written) outcome_default)))))"
| "task_step opened (RestWrite outcome chunk written_total offset rest) =
    and_then (write_step opened chunk written_total offset rest) (\<lambda>(written_total, offset, rest).
    if written_total < length chunk then ok (Inl (RestWrite outcome chunk written_total offset rest))
    else and_then (lift (try_merge outcome rest)) (\<lambda>outcome. ok (Inr outcome)))"

function schedule_writes ::
  "usize \<Rightarrow> usize \<Rightarrow> bytes \<Rightarrow> Error option \<Rightarrow> usize \<Rightarrow> WriteTask list \<Rightarrow> usize \<times> WriteTask list" where
  "schedule_writes depth max_write_size body first_error next_offset writes =
    (if first_error = None \<and> length writes < depth \<and> next_offset < length body then
       (let end' = min (next_offset + max_write_size) (length body) in
        schedule_writes depth max_write_size body first_error end'
          (writes @ [FirstWrite (of_nat next_offset) (take (end' - next_offset) (drop next_offset body))]))
     else (next_offset, writes))"
  by pat_completeness auto
termination
  by (relation "measure (\<lambda>(depth, m, body, e, next_offset, writes). depth - length writes)") auto

declare schedule_writes.simps [simp del]

definition get_or_insert :: "Error \<Rightarrow> Error option \<Rightarrow> Error option" where
  "get_or_insert e first_error = (case first_error of None \<Rightarrow> Some e | Some first \<Rightarrow> Some first)"

primrec write_loop ::
  "nat \<Rightarrow> (nat \<Rightarrow> nat) \<Rightarrow> OpenedFile \<Rightarrow> bytes \<Rightarrow> usize \<Rightarrow> usize \<Rightarrow> WriteTask list \<Rightarrow> WriteOutcome \<Rightarrow> Error option \<Rightarrow> Io \<Rightarrow>
     (WriteOutcome result \<times> Io) option" where
  "write_loop 0 picks opened body depth next_offset writes outcome first_error io = None"
| "write_loop (Suc fuel) picks opened body depth next_offset writes outcome first_error io =
    (case schedule_writes depth (unat (write_chunk_size (ns_config (inner io)))) body first_error next_offset writes of
       (next_offset, writes) \<Rightarrow>
         if writes = [] then Some (case first_error of Some e \<Rightarrow> Err e | None \<Rightarrow> Ok outcome, io)
         else
           (let i = picks fuel mod length writes; left_over = take i writes @ drop (Suc i) writes in
            case task_step opened (writes ! i) io of
              (Ok (Inl task), io) \<Rightarrow>
                write_loop fuel picks opened body depth next_offset (writes[i := task]) outcome first_error io
            | (Ok (Inr written), io) \<Rightarrow>
                (case merge_outcome outcome written of
                   (Err e, outcome) \<Rightarrow>
                     write_loop fuel picks opened body depth next_offset left_over outcome (get_or_insert e first_error) io
                 | (_, outcome) \<Rightarrow> write_loop fuel picks opened body depth next_offset left_over outcome first_error io)
            | (Err e, io) \<Rightarrow>
                write_loop fuel picks opened body depth next_offset left_over outcome (get_or_insert e first_error) io
            | (Panic, io) \<Rightarrow> Some (Panic, io)))"

text \<open>\<open>write_loop_enough\<close> shows that the fuel is enough, so that the last case is never taken.\<close>

definition write_chunk_all_pipelined :: "(nat \<Rightarrow> nat) \<Rightarrow> OpenedFile \<Rightarrow> bytes \<Rightarrow> usize \<Rightarrow> WriteOutcome io" where
  "write_chunk_all_pipelined picks opened body depth io =
    (case write_loop (Suc (length body)) picks opened body depth 0 [] outcome_default None io of
       Some (r, io) \<Rightarrow> (r, io)
     | None \<Rightarrow> (Panic, io))"

definition write_bytes :: "(nat \<Rightarrow> nat) \<Rightarrow> OpenedFile \<Rightarrow> bytes \<Rightarrow> WriteOutcome io" where
  "write_bytes picks opened body io =
    (let body_len = length body;
         max_size = unat (write_chunk_size (ns_config (inner io)));
         depth = (if pipeline_write_chunks (ns_config (inner io)) then operation_pipeline_depth (inner io) else 1) in
     if body_len = 0 then (Ok outcome_default, io)
     else if body_len \<le> max_size then write_single_chunk_committed opened 0 body io
     else if depth \<le> 1 then write_chunk_all opened 0 body io
     else write_chunk_all_pipelined picks opened body depth io)"

subsection \<open>What the server has acknowledged\<close>

text \<open>
  \<open>write_reply opened ops bs offset data w v\<close>: \<open>bs\<close> answers a request that wrote \<open>data\<close> at \<open>offset\<close> with \<open>w\<close>;
  \<open>v\<close> is the verifier of the COMMIT in the same request, if there was one.
\<close>

inductive write_reply :: "OpenedFile \<Rightarrow> NfsOp list \<Rightarrow> bytes \<Rightarrow> u64 \<Rightarrow> bytes \<Rightarrow> WriteData \<Rightarrow> bytes option \<Rightarrow> bool" where
  plain: "decode_write_compound bs = Ok w \<Longrightarrow>
     write_reply opened [NfsOp.PutFh (fh opened), NfsOp.Write (opened_stateid opened) offset data] bs offset data w None"
| with_commit: "decode_write_commit_compound bs = Ok (w, v) \<Longrightarrow>
     write_reply opened (write_and_commit_ops opened offset data) bs offset data w (Some v)"

text \<open>
  \<open>stored opened body n verifier io i\<close>: byte \<open>i\<close> of the body was in a WRITE of the run from request \<open>n\<close> on that the
  server acknowledged, and the write is stable, or the COMMIT with it returned its verifier, or its
  verifier is \<open>verifier\<close>.
\<close>

definition acked :: "OpenedFile \<Rightarrow> bytes \<Rightarrow> bytes option \<Rightarrow> Io \<Rightarrow> nat \<Rightarrow> nat \<Rightarrow> bool" where
  "acked opened body verifier io k i \<longleftrightarrow> k < length (issued io) \<and>
     (\<exists>bs offset data w v. answer_of io k = Ok bs \<and>
        write_reply opened (req_ops (issued io ! k)) bs offset data w v \<and>
        unat offset \<le> i \<and> i < unat offset + unat (write_count w) \<and> unat (write_count w) \<le> length data \<and>
        data = take (length data) (drop (unat offset) body) \<and>
        (requires_commit w \<longrightarrow> v = Some (write_verifier w) \<or> verifier = Some (write_verifier w)))"

definition stored :: "OpenedFile \<Rightarrow> bytes \<Rightarrow> nat \<Rightarrow> bytes option \<Rightarrow> Io \<Rightarrow> nat \<Rightarrow> bool" where
  "stored opened body n verifier io i \<longleftrightarrow> (\<exists>k \<ge> n. acked opened body verifier io k i)"

lemma stored_keeps: "stored opened body n verifier io i \<Longrightarrow> keeps io io' \<Longrightarrow> stored opened body n verifier io' i"
  using keeps_response [of io io'] keeps_nth [of io io'] unfolding stored_def acked_def by metis

lemma stored_verifier:
  "stored opened body n verifier io i \<Longrightarrow> (\<And>v. verifier = Some v \<Longrightarrow> verifier' = Some v) \<Longrightarrow>
   stored opened body n verifier' io i"
  unfolding stored_def acked_def by metis

lemma try_merge_Ok:
  assumes "try_merge outcome added = Ok out"
  shows "bytes_written out = bytes_written outcome + bytes_written added"
    and "unstable_verifier outcome = Some v \<Longrightarrow> unstable_verifier out = Some v"
    and "unstable_verifier added = Some v \<Longrightarrow> unstable_verifier out = Some v"
  using assms
  by (auto simp: try_merge_def merge_outcome_def record_unstable_def ensure_write_verifier_def Let_def then_outcome_Ok
      split: option.splits if_splits)

lemma write_keeps:
  "session_write opened offset data io = (r, io') \<Longrightarrow> keeps io io'"
  "write_and_commit opened offset data io = (r1, io') \<Longrightarrow> keeps io io'"
  unfolding session_write_def write_and_commit_def by (auto dest: compound_decode_keeps)

lemma session_write_stored:
  assumes "session_write opened offset data io = (Ok w, io')" and "data = take (length data) (drop (unat offset) body)"
    and "unat (write_count w) \<le> length data" and "unat offset \<le> i" and "i < unat offset + unat (write_count w)"
    and "n \<le> length (issued io)"
  shows "stored opened body n (unstable_verifier (from_write w m)) io' i"
proof -
  obtain k bs where "length (issued io) \<le> k" "k < length (issued io')" "req_ops (issued io' ! k) =
      [NfsOp.PutFh (fh opened), NfsOp.Write (opened_stateid opened) offset data]" "answer_of io' k = Ok bs" "decode_write_compound bs = Ok w"
    using assms(1) unfolding session_write_def by (rule compound_decode_reply)
  then show ?thesis
    unfolding stored_def acked_def using assms(2-)
    by (intro exI [of _ k] conjI exI [of _ bs] exI [of _ offset] exI [of _ data] exI [of _ w] exI [of _ None])
      (auto simp: from_write_def intro: write_reply.plain)
qed

lemma write_and_commit_stored:
  assumes "write_and_commit opened offset data io = (Ok (w, v), io')" and "data = take (length data) (drop (unat offset) body)"
    and "unat (write_count w) \<le> length data" and "unat offset \<le> i" and "i < unat offset + unat (write_count w)"
    and "n \<le> length (issued io)" and "requires_commit w \<Longrightarrow> v = write_verifier w"
  shows "stored opened body n verifier io' i"
proof -
  obtain k bs where "length (issued io) \<le> k" "k < length (issued io')"
      "req_ops (issued io' ! k) = write_and_commit_ops opened offset data" "answer_of io' k = Ok bs"
      "decode_write_commit_compound bs = Ok (w, v)"
    using assms(1) unfolding write_and_commit_def by (rule compound_decode_reply)
  then show ?thesis
    unfolding stored_def acked_def using assms(2-)
    by (intro exI [of _ k] conjI exI [of _ bs] exI [of _ offset] exI [of _ data] exI [of _ w] exI [of _ "Some v"])
      (auto intro: write_reply.with_commit)
qed

lemma write_step_keeps: "write_step opened chunk sofar offset outcome io = (r, io') \<Longrightarrow> keeps io io'"
  by (auto simp: write_step_def session_of_def and_then_def Let_def dest: write_keeps split: prod.splits outcome.splits if_splits)

lemma commit_step_keeps: "commit_step opened chunk sofar offset io = (r, io') \<Longrightarrow> keeps io io'"
  by (auto simp: commit_step_def and_then_def Let_def dest: write_keeps split: prod.splits outcome.splits if_splits)

text \<open>\<open>placed chunk start body\<close>: the chunk is the part of the body at \<open>start\<close>.\<close>

definition placed :: "bytes \<Rightarrow> nat \<Rightarrow> bytes \<Rightarrow> bool" where
  "placed chunk start body \<longleftrightarrow> (\<exists>pre post. body = pre @ chunk @ post \<and> length pre = start)"

lemma placed_part:
  assumes "placed chunk start body"
  shows "chunk = take (length chunk) (drop start body)" and "start + length chunk \<le> length body"
  using assms by (auto simp: placed_def)

lemma placed_take: "placed chunk start body \<Longrightarrow> placed (take n chunk) start body"
  unfolding placed_def by (metis append.assoc append_take_drop_id)

lemma placed_drop:
  assumes "placed chunk start body" and "n \<le> length chunk"
  shows "placed (drop n chunk) (start + n) body"
proof -
  obtain pre post where "body = pre @ chunk @ post" "length pre = start" using assms(1) by (auto simp: placed_def)
  then show ?thesis
    unfolding placed_def using assms(2) by (intro exI [of _ "pre @ take n chunk"] exI [of _ post]) simp
qed

lemma placed_slice: "n \<le> length body \<Longrightarrow> placed (take m (drop n body)) n body"
  unfolding placed_def
  by (intro exI [of _ "take n body"] exI [of _ "drop m (drop n body)"]) (simp del: drop_drop)

lemma unat_add_nat:
  fixes a :: u64
  assumes "unat a + n < 2 ^ 64"
  shows "unat (a + of_nat n) = unat a + n"
  using assms by (simp add: unat_word_ariths unat_of_nat)

lemma from_write_bytes [simp]: "n < 2 ^ 64 \<Longrightarrow> unat (bytes_written (from_write w n)) = n"
  by (simp add: from_write_def unat_of_nat)

lemma write_step_stored:
  assumes "write_step opened chunk sofar offset outcome io = (Ok (sofar', offset', outcome'), io')"
    and "placed chunk start body" and "unat offset = start + sofar" and "sofar \<le> length chunk"
    and "length body < 2 ^ 64" and "n \<le> length (issued io)" and "unat (bytes_written outcome) + (length chunk - sofar) < 2 ^ 64"
  shows "sofar < sofar' \<and> sofar' \<le> length chunk \<and> unat offset' = start + sofar' \<and>
    unat (bytes_written outcome') = unat (bytes_written outcome) + (sofar' - sofar) \<and>
    (\<forall>v. unstable_verifier outcome = Some v \<longrightarrow> unstable_verifier outcome' = Some v) \<and>
    (\<forall>i. start + sofar \<le> i \<and> i < start + sofar' \<longrightarrow> stored opened body n (unstable_verifier outcome') io' i)"
  using assms(1)
proof (cases rule: write_step_Ok)
  case (1 part w)
  let ?c = "unat (write_count w)"
  have part: "placed part (unat offset) body"
    unfolding 1(1) assms(3) by (rule placed_take [OF placed_drop [OF assms(2,4)]])
  have lp: "length part \<le> length chunk - sofar" unfolding 1(1) by simp
  have le: "sofar + ?c \<le> length chunk" using 1(4) lp assms(4) by linarith
  have b: "start + length chunk \<le> length body" using placed_part(2) [OF assms(2)] .
  have off: "unat offset' = start + sofar'"
    using 1(5,6) le b assms(3,5) unat_add_nat [of offset ?c] by simp
  note m = try_merge_Ok [OF 1(7)]
  have "?c < 2 ^ 64" by (rule less_trans [OF unat_less_2p32]) simp
  then have bytes: "unat (bytes_written outcome') = unat (bytes_written outcome) + ?c"
    unfolding m(1) using assms(7) le by (simp add: unat_word_ariths)
  have "stored opened body n (unstable_verifier outcome') io' i" if "start + sofar \<le> i" "i < start + sofar'" for i
  proof -
    have "stored opened body n (unstable_verifier (from_write w ?c)) io' i"
      using session_write_stored [OF 1(2) placed_part(1) [OF part] 1(4), of i n] that 1(5) assms(3,6) by simp
    then show ?thesis by (rule stored_verifier) (rule m(3))
  qed
  then show ?thesis using 1(3,5) le off bytes m(2) by simp
qed

lemma write_all_from_stored:
  assumes "write_all_from opened chunk sofar offset outcome io = (Ok out, io')"
    and "placed chunk start body" and "unat offset = start + sofar" and "sofar \<le> length chunk"
    and "length body < 2 ^ 64" and "n \<le> length (issued io)" and "unat (bytes_written outcome) + (length chunk - sofar) < 2 ^ 64"
  shows "unat (bytes_written out) = unat (bytes_written outcome) + (length chunk - sofar) \<and>
    (\<forall>v. unstable_verifier outcome = Some v \<longrightarrow> unstable_verifier out = Some v) \<and>
    (\<forall>i. start + sofar \<le> i \<and> i < start + length chunk \<longrightarrow> stored opened body n (unstable_verifier out) io' i) \<and> keeps io io'"
  using assms(1,3,4,6,7)
proof (induction "length chunk - sofar" arbitrary: sofar offset outcome io rule: less_induct)
  case less
  show ?case
  proof (cases "sofar < length chunk")
    case False
    then show ?thesis using less.prems by (auto simp: write_all_from.simps)
  next
    case True
    then obtain sofar' offset' outcome' io1 where
      step: "write_step opened chunk sofar offset outcome io = (Ok (sofar', offset', outcome'), io1)"
      and rest: "write_all_from opened chunk sofar' offset' outcome' io1 = (Ok out, io')"
      using less.prems(1) by (auto simp: write_all_from.simps [of opened chunk sofar] split: prod.splits outcome.splits)
    note w = write_step_stored [OF step assms(2) less.prems(2,3) assms(5) less.prems(4,5)] and k = write_step_keeps [OF step]
    have r: "unat (bytes_written out) = unat (bytes_written outcome') + (length chunk - sofar') \<and>
        (\<forall>v. unstable_verifier outcome' = Some v \<longrightarrow> unstable_verifier out = Some v) \<and>
        (\<forall>i. start + sofar' \<le> i \<and> i < start + length chunk \<longrightarrow> stored opened body n (unstable_verifier out) io' i) \<and> keeps io1 io'"
      by (rule less.hyps [OF _ rest]) (use w True less.prems(4,5) keeps_issued_length [OF k] in auto)
    have "stored opened body n (unstable_verifier out) io' i" if "start + sofar \<le> i" "i < start + length chunk" for i
    proof (cases "i < start + sofar'")
      case True
      then have "stored opened body n (unstable_verifier outcome') io1 i" using w that(1) by blast
      then show ?thesis using stored_verifier stored_keeps r by metis
    qed (use r that(2) in auto)
    moreover have "unat (bytes_written out) = unat (bytes_written outcome) + (length chunk - sofar)" using r w by auto
    ultimately show ?thesis using r w keeps_trans [OF k] by auto
  qed
qed

lemma commit_from_stored:
  assumes "commit_from opened chunk sofar offset io = (Ok written, io')"
    and "placed chunk start body" and "unat offset = start + sofar" and "sofar \<le> length chunk"
    and "length body < 2 ^ 64" and "n \<le> length (issued io)"
  shows "written = length chunk \<and>
    (\<forall>i. start + sofar \<le> i \<and> i < start + length chunk \<longrightarrow> stored opened body n None io' i) \<and> keeps io io'"
  using assms(1,3,4,6)
proof (induction "length chunk - sofar" arbitrary: sofar offset io rule: less_induct)
  case less
  show ?case
  proof (cases "sofar < length chunk")
    case False
    then show ?thesis using less.prems by (auto simp: commit_from.simps)
  next
    case True
    then obtain sofar' offset' io1 where
      step: "commit_step opened chunk sofar offset io = (Ok (sofar', offset'), io1)"
      and rest: "commit_from opened chunk sofar' offset' io1 = (Ok written, io')"
      using less.prems(1) by (auto simp: commit_from.simps [of opened chunk sofar] split: prod.splits outcome.splits)
    note k = commit_step_keeps [OF step]
    from step show ?thesis
    proof (cases rule: commit_step_Ok)
      case (1 w v)
      let ?c = "unat (write_count w)"
      have b: "start + length chunk \<le> length body" using placed_part(2) [OF assms(2)] .
      have part: "placed (drop sofar chunk) (unat offset) body"
        unfolding less.prems(2) by (rule placed_drop [OF assms(2) less.prems(3)])
      have off: "unat offset' = start + sofar'" "sofar' \<le> length chunk" "sofar < sofar'"
        using 1(2,3,5,6) b less.prems(2,3) assms(5) unat_add_nat [of offset ?c] by simp_all
      have r: "written = length chunk \<and>
          (\<forall>i. start + sofar' \<le> i \<and> i < start + length chunk \<longrightarrow> stored opened body n None io' i) \<and> keeps io1 io'"
        by (rule less.hyps [OF _ rest]) (use off True less.prems(4) keeps_issued_length [OF k] in auto)
      have "stored opened body n None io' i" if "start + sofar \<le> i" "i < start + length chunk" for i
      proof (cases "i < start + sofar'")
        case True
        have "stored opened body n None io1 i"
          using write_and_commit_stored [OF 1(1) placed_part(1) [OF part] _ _ _ less.prems(4) 1(4), of i None] True that(1) 1(3,5) less.prems(2)
          by simp
        then show ?thesis using stored_keeps r by blast
      qed (use r that(2) in auto)
      then show ?thesis using r keeps_trans [OF k] by blast
    qed
  qed
qed

subsection \<open>The pipelined write\<close>

fun task_left :: "WriteTask \<Rightarrow> nat" where
  "task_left (FirstWrite offset chunk) = length chunk"
| "task_left (RestWrite outcome chunk sofar offset rest) = length chunk - sofar"

fun task_done :: "WriteTask \<Rightarrow> nat" where
  "task_done (FirstWrite offset chunk) = 0"
| "task_done (RestWrite outcome chunk sofar offset rest) = unat (bytes_written outcome) + unat (bytes_written rest)"

fun task_placed :: "bytes \<Rightarrow> WriteTask \<Rightarrow> bool" where
  "task_placed body (FirstWrite offset chunk) \<longleftrightarrow> placed chunk (unat offset) body"
| "task_placed body (RestWrite outcome chunk sofar offset rest) \<longleftrightarrow>
     (\<exists>start. placed chunk start body \<and> unat offset = start + sofar \<and> sofar \<le> length chunk)"

fun task_pending :: "WriteTask \<Rightarrow> nat \<Rightarrow> bool" where
  "task_pending (FirstWrite offset chunk) i \<longleftrightarrow> unat offset \<le> i \<and> i < unat offset + length chunk"
| "task_pending (RestWrite outcome chunk sofar offset rest) i \<longleftrightarrow>
     unat offset \<le> i \<and> i < unat offset + (length chunk - sofar)"

fun task_stored :: "OpenedFile \<Rightarrow> bytes \<Rightarrow> nat \<Rightarrow> Io \<Rightarrow> WriteTask \<Rightarrow> nat \<Rightarrow> bool" where
  "task_stored opened body n io (FirstWrite offset chunk) i \<longleftrightarrow> False"
| "task_stored opened body n io (RestWrite outcome chunk sofar offset rest) i \<longleftrightarrow>
     stored opened body n (unstable_verifier outcome) io i \<or> stored opened body n (unstable_verifier rest) io i"

lemma task_step_keeps: "task_step opened t io = (r, io') \<Longrightarrow> keeps io io'"
  by (cases t) (auto simp: and_then_def Let_def dest: write_keeps write_step_keeps split: prod.splits outcome.splits if_splits)

lemma task_step_left:
  assumes "task_step opened t io = (Ok (Inl t'), io')"
  shows "task_left t' < task_left t \<and> 0 < task_left t'"
  using assms
  by (cases t) (auto simp: and_then_Ok Let_def validate_write_reply_Ok elim!: write_step_Ok split: if_splits)

lemma task_stored_keeps:
  "task_stored opened body n io t i \<Longrightarrow> keeps io io' \<Longrightarrow> task_stored opened body n io' t i"
  by (cases t) (auto intro: stored_keeps)

lemma first_write_step:
  assumes "task_step opened (FirstWrite offset chunk) io = (Ok r, io')" and "placed chunk (unat offset) body"
    and "length body < 2 ^ 64" and "n \<le> length (issued io)"
  obtains w where "unat (write_count w) \<le> length chunk" and "0 < unat (write_count w)"
    and "unat (offset + of_nat (unat (write_count w))) = unat offset + unat (write_count w)"
    and "r = (if unat (write_count w) = length chunk then Inr (from_write w (unat (write_count w)))
      else Inl (RestWrite (from_write w (unat (write_count w))) (drop (unat (write_count w)) chunk) 0
        (offset + of_nat (unat (write_count w))) outcome_default))"
    and "\<And>i. unat offset \<le> i \<Longrightarrow> i < unat offset + unat (write_count w) \<Longrightarrow>
      stored opened body n (unstable_verifier (from_write w (unat (write_count w)))) io' i"
proof -
  obtain w where w: "session_write opened offset chunk io = (Ok w, io')" "unat (write_count w) \<le> length chunk" "0 < unat (write_count w)"
    "r = (if unat (write_count w) = length chunk then Inr (from_write w (unat (write_count w)))
      else Inl (RestWrite (from_write w (unat (write_count w))) (drop (unat (write_count w)) chunk) 0
        (offset + of_nat (unat (write_count w))) outcome_default))"
    using assms(1) by (auto simp: and_then_Ok Let_def validate_write_reply_Ok split: if_splits)
  have "unat (offset + of_nat (unat (write_count w))) = unat offset + unat (write_count w)"
    using w(2) placed_part(2) [OF assms(2)] assms(3) by (intro unat_add_nat) linarith
  then show thesis
    using that [OF w(2,3) _ w(4)] session_write_stored [OF w(1) placed_part(1) [OF assms(2)] w(2) _ _ assms(4)] by blast
qed

text \<open>A step that leaves the task in flight, and one that completes it.\<close>

definition task_advances :: "OpenedFile \<Rightarrow> bytes \<Rightarrow> nat \<Rightarrow> Io \<Rightarrow> WriteTask \<Rightarrow> Io \<Rightarrow> WriteTask \<Rightarrow> bool" where
  "task_advances opened body n io t io' t' \<longleftrightarrow>
     task_placed body t' \<and> task_done t' + task_left t' = task_done t + task_left t \<and>
     (\<forall>i. task_pending t i \<or> task_stored opened body n io t i \<longrightarrow> task_pending t' i \<or> task_stored opened body n io' t' i)"

definition task_completes :: "OpenedFile \<Rightarrow> bytes \<Rightarrow> nat \<Rightarrow> Io \<Rightarrow> WriteTask \<Rightarrow> Io \<Rightarrow> WriteOutcome \<Rightarrow> bool" where
  "task_completes opened body n io t io' out \<longleftrightarrow>
     unat (bytes_written out) = task_done t + task_left t \<and>
     (\<forall>i. task_pending t i \<or> task_stored opened body n io t i \<longrightarrow> stored opened body n (unstable_verifier out) io' i)"

lemma first_step:
  assumes "task_step opened (FirstWrite offset chunk) io = (Ok r, io')" and "placed chunk (unat offset) body"
    and "length body < 2 ^ 64" and "n \<le> length (issued io)"
  shows "case r of Inl t' \<Rightarrow> task_advances opened body n io (FirstWrite offset chunk) io' t'
    | Inr out \<Rightarrow> task_completes opened body n io (FirstWrite offset chunk) io' out"
  using assms
proof (cases rule: first_write_step)
  case (1 w)
  let ?c = "unat (write_count w)"
  have c: "?c < 2 ^ 64" by (rule less_trans [OF unat_less_2p32]) simp
  show ?thesis
  proof (cases "?c = length chunk")
    case True
    then show ?thesis using 1(4,5) c by (simp add: task_completes_def)
  next
    case False
    let ?t = "RestWrite (from_write w ?c) (drop ?c chunk) 0 (offset + of_nat ?c) outcome_default"
    have "task_placed body ?t" using 1(3) placed_drop [OF assms(2) 1(1)] by auto
    moreover have "task_done ?t + task_left ?t = length chunk" using 1(1) c by (simp add: outcome_default_def)
    moreover have "task_pending ?t i \<or> task_stored opened body n io' ?t i" if "task_pending (FirstWrite offset chunk) i" for i
      using that 1(3) 1(5) [of i] by (cases "i < unat offset + ?c") auto
    ultimately show ?thesis using False 1(4) by (simp add: task_advances_def)
  qed
qed

lemma rest_step:
  assumes "task_step opened (RestWrite outcome chunk sofar offset rest) io = (Ok r, io')"
    and "task_placed body (RestWrite outcome chunk sofar offset rest)"
    and "length body < 2 ^ 64" and "n \<le> length (issued io)"
    and "task_done (RestWrite outcome chunk sofar offset rest) + task_left (RestWrite outcome chunk sofar offset rest) < 2 ^ 64"
  shows "case r of Inl t' \<Rightarrow> task_advances opened body n io (RestWrite outcome chunk sofar offset rest) io' t'
    | Inr out \<Rightarrow> task_completes opened body n io (RestWrite outcome chunk sofar offset rest) io' out"
proof -
  obtain start where s: "placed chunk start body" "unat offset = start + sofar" "sofar \<le> length chunk" using assms(2) by auto
  obtain sofar' offset' rest' where step: "write_step opened chunk sofar offset rest io = (Ok (sofar', offset', rest'), io')"
    and r: "if sofar' < length chunk then r = Inl (RestWrite outcome chunk sofar' offset' rest')
      else \<exists>out. try_merge outcome rest' = Ok out \<and> r = Inr out"
    using assms(1) by (auto simp: and_then_Ok split: if_splits)
  have "unat (bytes_written rest) + (length chunk - sofar) < 2 ^ 64" using assms(5) by simp
  note w = write_step_stored [OF step s assms(3,4) this] and k = write_step_keeps [OF step]
  have old: "stored opened body n (unstable_verifier outcome) io' i \<or> stored opened body n (unstable_verifier rest') io' i"
    if "task_stored opened body n io (RestWrite outcome chunk sofar offset rest) i" for i
    using that w stored_keeps [OF _ k] stored_verifier [of opened body n "unstable_verifier rest" io' i "unstable_verifier rest'"] by auto
  have new: "stored opened body n (unstable_verifier rest') io' i \<or> unat offset' \<le> i \<and> i < unat offset' + (length chunk - sofar')"
    if "task_pending (RestWrite outcome chunk sofar offset rest) i" for i
    using that w s by (cases "i < start + sofar'") auto
  show ?thesis
  proof (cases "sofar' < length chunk")
    case True
    then show ?thesis using r w s old new by (fastforce simp: task_advances_def)
  next
    case False
    then obtain out where o: "try_merge outcome rest' = Ok out" "r = Inr out" using r by auto
    note m = try_merge_Ok [OF o(1)]
    have full: "sofar' = length chunk" using False w by simp
    have "unat (bytes_written out) = task_done (RestWrite outcome chunk sofar offset rest) + task_left (RestWrite outcome chunk sofar offset rest)"
      unfolding m(1) using assms(5) w full by (simp add: unat_word_ariths)
    moreover have "stored opened body n (unstable_verifier out) io' i"
      if "stored opened body n (unstable_verifier outcome) io' i \<or> stored opened body n (unstable_verifier rest') io' i" for i
      using that m(2,3) stored_verifier by blast
    ultimately show ?thesis using o(2) old new full by (fastforce simp: task_completes_def)
  qed
qed

lemma task_step_runs:
  assumes "task_step opened t io = (Ok r, io')" and "task_placed body t" and "length body < 2 ^ 64"
    and "n \<le> length (issued io)" and "task_done t + task_left t < 2 ^ 64"
  shows "case r of Inl t' \<Rightarrow> task_advances opened body n io t io' t' | Inr out \<Rightarrow> task_completes opened body n io t io' out"
  using assms first_step rest_step by (cases t) (simp only: task_placed.simps, blast)+

definition write_backlog :: "bytes \<Rightarrow> usize \<Rightarrow> WriteTask list \<Rightarrow> nat" where
  "write_backlog body next_offset writes = sum_list (map task_left writes) + (length body - next_offset)"

definition writing :: "OpenedFile \<Rightarrow> bytes \<Rightarrow> nat \<Rightarrow> Io \<Rightarrow> usize \<Rightarrow> WriteTask list \<Rightarrow> WriteOutcome \<Rightarrow> bool" where
  "writing opened body n io next_offset writes outcome \<longleftrightarrow>
     next_offset \<le> length body \<and> (\<forall>t \<in> set writes. task_placed body t) \<and>
     unat (bytes_written outcome) + sum_list (map task_done writes) + write_backlog body next_offset writes = length body \<and>
     (\<forall>i < length body. next_offset \<le> i \<or> stored opened body n (unstable_verifier outcome) io i \<or>
        (\<exists>t \<in> set writes. task_pending t i \<or> task_stored opened body n io t i))"

lemma schedule_writes_invariant:
  assumes "schedule_writes depth max_size body err next_offset writes = (next', writes')" and "P next_offset writes"
    and "\<And>m ts end'. m < length body \<Longrightarrow> end' = min (m + max_size) (length body) \<Longrightarrow> P m ts \<Longrightarrow>
      P end' (ts @ [FirstWrite (of_nat m) (take (end' - m) (drop m body))])"
  shows "P next' writes'"
  using assms(1,2)
proof (induction "depth - length writes" arbitrary: next_offset writes rule: less_induct)
  case less
  show ?case
  proof (cases "err = None \<and> length writes < depth \<and> next_offset < length body")
    case True
    let ?upto = "min (next_offset + max_size) (length body)"
    let ?ts = "writes @ [FirstWrite (of_nat next_offset) (take (?upto - next_offset) (drop next_offset body))]"
    have "schedule_writes depth max_size body err ?upto ?ts = (next', writes')"
      using less.prems(1) [unfolded schedule_writes.simps [of depth max_size body err next_offset writes]] True by (simp add: Let_def)
    moreover have "depth - length ?ts < depth - length writes" using True by (simp add: diff_less_mono2)
    ultimately show ?thesis using less.hyps [of ?ts ?upto] assms(3) [OF _ refl less.prems(2)] True by blast
  next
    case False
    then show ?thesis using less.prems by (auto simp: schedule_writes.simps [of depth max_size body err next_offset writes])
  qed
qed

lemma schedule_writes_done:
  assumes "schedule_writes depth max_size body err next_offset writes = (next', [])" and "err = None" and "0 < depth"
  shows "writes = [] \<and> next' = next_offset \<and> length body \<le> next_offset"
proof -
  have "length writes \<le> length ([] :: WriteTask list)"
    using schedule_writes_invariant [OF assms(1), where P = "\<lambda>_ ts. length writes \<le> length ts"] by simp
  then have w: "writes = []" by simp
  have "length body \<le> next_offset"
  proof (rule ccontr)
    assume "\<not> ?thesis"
    then have "schedule_writes depth max_size body err (min (next_offset + max_size) (length body))
        [FirstWrite (of_nat next_offset) (take (min (next_offset + max_size) (length body) - next_offset) (drop next_offset body))] = (next', [])"
      using assms(1) [unfolded w schedule_writes.simps [of depth max_size body err next_offset "[]"]] assms(2,3) by (simp add: Let_def)
    from schedule_writes_invariant [OF this, where P = "\<lambda>_ ts. 1 \<le> length ts"] show False by simp
  qed
  then show ?thesis using assms(1) w by (simp add: schedule_writes.simps [of depth max_size body err next_offset "[]"])
qed

lemma push_write:
  assumes "m < length body" and "end' = min (m + max_size) (length body)" and "0 < max_size" and "length body < 2 ^ 64"
    and "t = FirstWrite (of_nat m) (take (end' - m) (drop m body))"
  shows "0 < task_left t" and "write_backlog body end' (ts @ [t]) = write_backlog body m ts"
    and "writing opened body n io m ts outcome \<Longrightarrow> writing opened body n io end' (ts @ [t]) outcome"
proof -
  have e: "m < end'" "end' \<le> length body" using assms(1-3) by auto
  show l: "0 < task_left t" "write_backlog body end' (ts @ [t]) = write_backlog body m ts"
    using e by (simp_all add: assms(5) write_backlog_def)
  have u: "unat (of_nat m :: u64) = m" using assms(1,4) by (simp add: unat_of_nat)
  have p: "task_placed body t" using placed_slice [of m body "end' - m"] e u by (simp add: assms(5))
  have pend: "task_pending t i \<longleftrightarrow> m \<le> i \<and> i < end'" for i using e u by (auto simp: assms(5))
  show "writing opened body n io end' (ts @ [t]) outcome" if w: "writing opened body n io m ts outcome"
    unfolding writing_def
  proof (intro conjI allI impI)
    show "end' \<le> length body" by (rule e(2))
    show "\<forall>t \<in> set (ts @ [t]). task_placed body t" using w p by (simp add: writing_def)
    show "unat (bytes_written outcome) + sum_list (map task_done (ts @ [t])) + write_backlog body end' (ts @ [t]) = length body"
      using w l(2) by (simp add: writing_def assms(5))
    fix i
    assume "i < length body"
    then have "m \<le> i \<or> stored opened body n (unstable_verifier outcome) io i \<or>
        (\<exists>t \<in> set ts. task_pending t i \<or> task_stored opened body n io t i)" using w by (simp add: writing_def)
    then show "end' \<le> i \<or> stored opened body n (unstable_verifier outcome) io i \<or>
        (\<exists>t \<in> set (ts @ [t]). task_pending t i \<or> task_stored opened body n io t i)"
      using pend [of i] by (cases "end' \<le> i") auto
  qed
qed

lemma write_loop_step:
  assumes "write_loop (Suc fuel) picks opened body depth next_offset writes outcome err io = r"
    and "schedule_writes depth (unat (write_chunk_size (ns_config (inner io)))) body err next_offset writes = (next', writes')"
    and "writes' \<noteq> []"
  obtains us t vs where "writes' = us @ t # vs"
    and "r = (case task_step opened t io of
        (Ok (Inl task), io) \<Rightarrow> write_loop fuel picks opened body depth next' (us @ task # vs) outcome err io
      | (Ok (Inr written), io) \<Rightarrow>
          (case merge_outcome outcome written of
             (Err e, outcome) \<Rightarrow> write_loop fuel picks opened body depth next' (us @ vs) outcome (get_or_insert e err) io
           | (_, outcome) \<Rightarrow> write_loop fuel picks opened body depth next' (us @ vs) outcome err io)
      | (Err e, io) \<Rightarrow> write_loop fuel picks opened body depth next' (us @ vs) outcome (get_or_insert e err) io
      | (Panic, io) \<Rightarrow> Some (Panic, io))"
proof -
  let ?i = "picks fuel mod length writes'"
  have i: "?i < length writes'" using assms(3) by simp
  have w: "writes' = take ?i writes' @ writes' ! ?i # drop (Suc ?i) writes'" using i by (rule id_take_nth_drop)
  have upd: "writes'[?i := task] = take ?i writes' @ task # drop (Suc ?i) writes'" for task
    using i by (rule upd_conv_take_nth_drop)
  show thesis
    by (rule that [OF w assms(1) [symmetric, unfolded write_loop.simps assms(2) prod.case Let_def if_not_P [OF assms(3)] upd]])
qed

lemma sum_list_replace: "sum_list (map f (us @ t # vs)) = sum_list (map f (us @ vs)) + (f t :: nat)"
  by simp

lemma writing_schedule:
  assumes "schedule_writes depth max_size body err next_offset writes = (next', writes')" and "0 < max_size" and "length body < 2 ^ 64"
    and "writing opened body n io next_offset writes outcome"
  shows "writing opened body n io next' writes' outcome"
  by (rule schedule_writes_invariant [OF assms(1), where P = "\<lambda>m ts. writing opened body n io m ts outcome"])
    (use assms(2-4) push_write(3) in blast)+

lemma schedule_writes_live:
  assumes "schedule_writes depth max_size body err next_offset writes = (next', writes')" and "0 < max_size" and "length body < 2 ^ 64"
    and "\<forall>t \<in> set writes. 0 < task_left t"
  shows "(\<forall>t \<in> set writes'. 0 < task_left t) \<and> write_backlog body next' writes' = write_backlog body next_offset writes"
  by (rule schedule_writes_invariant [OF assms(1), where
        P = "\<lambda>m ts. (\<forall>t \<in> set ts. 0 < task_left t) \<and> write_backlog body m ts = write_backlog body next_offset writes"])
    (use assms(2-4) push_write(1,2) in auto)

lemma write_loop_enough:
  "write_backlog body next_offset writes < fuel \<Longrightarrow> \<forall>t \<in> set writes. 0 < task_left t \<Longrightarrow>
   0 < write_chunk_size (ns_config (inner io)) \<Longrightarrow> length body < 2 ^ 64 \<Longrightarrow>
   write_loop fuel picks opened body depth next_offset writes outcome err io \<noteq> None"
proof (induction fuel arbitrary: next_offset writes outcome err io)
  case (Suc fuel)
  let ?max = "unat (write_chunk_size (ns_config (inner io)))"
  obtain next' writes' where n: "schedule_writes depth ?max body err next_offset writes = (next', writes')" by fastforce
  have max: "0 < ?max" using Suc.prems(3) by (simp add: word_less_nat_alt)
  note l = schedule_writes_live [OF n max Suc.prems(4,2)]
  show ?case
  proof (cases "writes' = []")
    case True
    then show ?thesis using n by simp
  next
    case False
    show ?thesis
    proof (rule write_loop_step [OF refl n False])
      fix us t vs
      assume w: "writes' = us @ t # vs"
      obtain x io1 where s: "task_step opened t io = (x, io1)" by fastforce
      have cfg: "0 < write_chunk_size (ns_config (inner io1))" using Suc.prems(3) keeps_config [OF task_step_keeps [OF s]] by simp
      have drop: "write_backlog body next' (us @ vs) < fuel"
        using l w Suc.prems(1) by (auto simp: write_backlog_def)
      have next_step: "write_backlog body next' (us @ t' # vs) < fuel \<and> (\<forall>t \<in> set (us @ t' # vs). 0 < task_left t)" if "x = Ok (Inl t')" for t'
        using task_step_left [OF s [unfolded that]] l w Suc.prems(1) by (auto simp: write_backlog_def)
      have live: "\<forall>t \<in> set (us @ vs). 0 < task_left t" using l w by simp
      assume "write_loop (Suc fuel) picks opened body depth next_offset writes outcome err io = (case task_step opened t io of
        (Ok (Inl task), io) \<Rightarrow> write_loop fuel picks opened body depth next' (us @ task # vs) outcome err io
      | (Ok (Inr written), io) \<Rightarrow>
          (case merge_outcome outcome written of
             (Err e, outcome) \<Rightarrow> write_loop fuel picks opened body depth next' (us @ vs) outcome (get_or_insert e err) io
           | (_, outcome) \<Rightarrow> write_loop fuel picks opened body depth next' (us @ vs) outcome err io)
      | (Err e, io) \<Rightarrow> write_loop fuel picks opened body depth next' (us @ vs) outcome (get_or_insert e err) io
      | (Panic, io) \<Rightarrow> Some (Panic, io))"
      then show ?thesis
        using s Suc.IH [OF drop live cfg Suc.prems(4)] Suc.IH [OF _ _ cfg Suc.prems(4)] next_step
        by (auto split: prod.splits outcome.splits sum.splits)
    qed
  qed
qed simp

lemma writing_bound:
  assumes "writing opened body n io next_offset (us @ t # vs) outcome" and "length body < 2 ^ 64"
  shows "task_placed body t" and "task_done t + task_left t < 2 ^ 64"
    and "unat (bytes_written outcome) + (task_done t + task_left t) < 2 ^ 64"
  using assms by (auto simp: writing_def write_backlog_def)

lemma writing_sum:
  "writing opened body n io next_offset writes outcome \<Longrightarrow>
   unat (bytes_written outcome) + sum_list (map task_done writes) + write_backlog body next_offset writes = length body"
  by (simp add: writing_def)

lemma writing_advance:
  assumes "writing opened body n io next_offset (us @ t # vs) outcome" and "task_advances opened body n io t io' t'" and "keeps io io'"
  shows "writing opened body n io' next_offset (us @ t' # vs) outcome"
  unfolding writing_def
proof (intro conjI allI impI)
  show "next_offset \<le> length body" "\<forall>t \<in> set (us @ t' # vs). task_placed body t"
    using assms(1,2) by (simp_all add: writing_def task_advances_def)
  show "unat (bytes_written outcome) + sum_list (map task_done (us @ t' # vs)) + write_backlog body next_offset (us @ t' # vs) = length body"
  proof -
    have "task_done t' + task_left t' = task_done t + task_left t" using assms(2) by (simp add: task_advances_def)
    then show ?thesis using writing_sum [OF assms(1)] by (simp add: write_backlog_def)
  qed
  fix i
  assume "i < length body"
  then have "next_offset \<le> i \<or> stored opened body n (unstable_verifier outcome) io i \<or>
      (\<exists>t \<in> set (us @ t # vs). task_pending t i \<or> task_stored opened body n io t i)" using assms(1) by (simp add: writing_def)
  then show "next_offset \<le> i \<or> stored opened body n (unstable_verifier outcome) io' i \<or>
      (\<exists>t \<in> set (us @ t' # vs). task_pending t i \<or> task_stored opened body n io' t i)"
    using stored_keeps [OF _ assms(3)] task_stored_keeps [OF _ assms(3)] assms(2) by (fastforce simp: task_advances_def)
qed

lemma writing_complete:
  assumes "writing opened body n io next_offset (us @ t # vs) outcome" and "task_completes opened body n io t io' written"
    and "keeps io io'" and "try_merge outcome written = Ok out" and "length body < 2 ^ 64"
  shows "writing opened body n io' next_offset (us @ vs) out"
  unfolding writing_def
proof (intro conjI allI impI)
  note m = try_merge_Ok [OF assms(4)]
  show "next_offset \<le> length body" "\<forall>t \<in> set (us @ vs). task_placed body t" using assms(1) by (simp_all add: writing_def)
  have "unat (bytes_written out) = unat (bytes_written outcome) + (task_done t + task_left t)"
    unfolding m(1) using assms(2) writing_bound(3) [OF assms(1,5)] by (simp add: task_completes_def unat_word_ariths)
  then show "unat (bytes_written out) + sum_list (map task_done (us @ vs)) + write_backlog body next_offset (us @ vs) = length body"
    using writing_sum [OF assms(1)] by (simp add: write_backlog_def)
  fix i
  assume "i < length body"
  then have "next_offset \<le> i \<or> stored opened body n (unstable_verifier outcome) io i \<or>
      (\<exists>t \<in> set (us @ t # vs). task_pending t i \<or> task_stored opened body n io t i)" using assms(1) by (simp add: writing_def)
  moreover have "stored opened body n (unstable_verifier out) io' i"
    if "stored opened body n (unstable_verifier outcome) io i \<or> task_pending t i \<or> task_stored opened body n io t i"
    using that stored_verifier [OF stored_keeps [OF _ assms(3)] m(2)] stored_verifier [OF _ m(3)] assms(2)
    unfolding task_completes_def by blast
  ultimately show "next_offset \<le> i \<or> stored opened body n (unstable_verifier out) io' i \<or>
      (\<exists>t \<in> set (us @ vs). task_pending t i \<or> task_stored opened body n io' t i)"
    using task_stored_keeps [OF _ assms(3)] by fastforce
qed

lemma merge_outcome_cases:
  obtains (merged) out where "merge_outcome outcome written = (Ok (), out)" and "try_merge outcome written = Ok out"
  | (clash) e out where "merge_outcome outcome written = (Err e, out)"
  by (cases "merge_outcome outcome written")
    (auto simp: try_merge_def merge_outcome_def record_unstable_def ensure_write_verifier_def Let_def split: option.splits if_splits)

lemma get_or_insert_Some [simp]: "get_or_insert e err \<noteq> None"
  by (simp add: get_or_insert_def split: option.splits)

lemma write_loop_stored:
  "write_loop fuel picks opened body depth next_offset writes outcome err io = Some (Ok out, io') \<Longrightarrow>
   (err = None \<Longrightarrow> writing opened body n io next_offset writes outcome) \<Longrightarrow>
   0 < write_chunk_size (ns_config (inner io)) \<Longrightarrow> n \<le> length (issued io) \<Longrightarrow> 0 < depth \<Longrightarrow> length body < 2 ^ 64 \<Longrightarrow>
   err = None \<and> unat (bytes_written out) = length body \<and>
   (\<forall>i < length body. stored opened body n (unstable_verifier out) io' i) \<and> keeps io io'"
proof (induction fuel arbitrary: next_offset writes outcome err io)
  case (Suc fuel)
  let ?max = "unat (write_chunk_size (ns_config (inner io)))"
  obtain next' writes' where n: "schedule_writes depth ?max body err next_offset writes = (next', writes')" by fastforce
  have max: "0 < ?max" using Suc.prems(3) by (simp add: word_less_nat_alt)
  show ?case
  proof (cases "writes' = []")
    case True
    then have e: "err = None" "out = outcome" "io' = io" using n Suc.prems(1) by (auto split: option.splits)
    have "writes = [] \<and> next' = next_offset \<and> length body \<le> next_offset"
      by (rule schedule_writes_done [OF n [unfolded True] e(1) Suc.prems(5)])
    then show ?thesis using Suc.prems(2) [OF e(1)] e by (auto simp: writing_def write_backlog_def)
  next
    case False
    show ?thesis
    proof (rule write_loop_step [OF Suc.prems(1) n False])
      fix us t vs
      assume w: "writes' = us @ t # vs"
      have inv: "writing opened body n io next' (us @ t # vs) outcome" if "err = None"
        using writing_schedule [OF n max Suc.prems(6) Suc.prems(2) [OF that]] w by simp
      obtain x io1 where s: "task_step opened t io = (x, io1)" by fastforce
      note k = task_step_keeps [OF s]
      have cfg: "0 < write_chunk_size (ns_config (inner io1))" "n \<le> length (issued io1)"
        using Suc.prems(3,4) keeps_config [OF k] keeps_issued_length [OF k] by simp_all
      note IH = Suc.IH [OF _ _ cfg Suc.prems(5,6)]
      assume l: "Some (Ok out, io') = (case task_step opened t io of
        (Ok (Inl task), io) \<Rightarrow> write_loop fuel picks opened body depth next' (us @ task # vs) outcome err io
      | (Ok (Inr written), io) \<Rightarrow>
          (case merge_outcome outcome written of
             (Err e, outcome) \<Rightarrow> write_loop fuel picks opened body depth next' (us @ vs) outcome (get_or_insert e err) io
           | (_, outcome) \<Rightarrow> write_loop fuel picks opened body depth next' (us @ vs) outcome err io)
      | (Err e, io) \<Rightarrow> write_loop fuel picks opened body depth next' (us @ vs) outcome (get_or_insert e err) io
      | (Panic, io) \<Rightarrow> Some (Panic, io))"
      have failed: False if "write_loop fuel picks opened body depth next' (us @ vs) oc (get_or_insert e err) io1 = Some (Ok out, io')" for oc e
        using IH [OF that] by simp
      have runs: "case r of Inl t' \<Rightarrow> task_advances opened body n io t io1 t' | Inr o' \<Rightarrow> task_completes opened body n io t io1 o'"
        if "x = Ok r" "err = None" for r
        using task_step_runs [OF s [unfolded that(1)] _ Suc.prems(6,4)] writing_bound [OF inv [OF that(2)] Suc.prems(6)] by blast
      show ?thesis
      proof (cases x)
        case (Ok r)
        show ?thesis
        proof (cases r)
          case (Inl t')
          have "write_loop fuel picks opened body depth next' (us @ t' # vs) outcome err io1 = Some (Ok out, io')" using l s Ok Inl by simp
          then show ?thesis using IH writing_advance [OF inv _ k] runs [OF Ok] Inl keeps_trans [OF k] by auto
        next
          case (Inr written)
          show ?thesis
          proof (cases rule: merge_outcome_cases [of outcome written])
            case (merged o')
            have "write_loop fuel picks opened body depth next' (us @ vs) o' err io1 = Some (Ok out, io')" using l s Ok Inr merged by simp
            then show ?thesis
              using IH writing_complete [OF inv _ k merged(2) Suc.prems(6)] runs [OF Ok] Inr keeps_trans [OF k] by auto
          next
            case (clash e o')
            then have "write_loop fuel picks opened body depth next' (us @ vs) o' (get_or_insert e err) io1 = Some (Ok out, io')"
              using l s Ok Inr by simp
            then show ?thesis using failed by blast
          qed
        qed
      next
        case (Err e)
        then have "write_loop fuel picks opened body depth next' (us @ vs) outcome (get_or_insert e err) io1 = Some (Ok out, io')"
          using l s by simp
        then show ?thesis using failed by blast
      qed (use l s in simp)
    qed
  qed
qed simp

subsection \<open>A written body is acknowledged\<close>

lemma pipelined_stored:
  assumes "write_chunk_all_pipelined picks opened body depth io = (Ok out, io')" and "0 < depth"
    and "0 < write_chunk_size (ns_config (inner io))" and "length body < 2 ^ 64"
  shows "unat (bytes_written out) = length body \<and>
    (\<forall>i < length body. stored opened body (length (issued io)) (unstable_verifier out) io' i) \<and> keeps io io'"
proof -
  have "write_loop (Suc (length body)) picks opened body depth 0 [] outcome_default None io = Some (Ok out, io')"
    using assms(1) by (auto simp: write_chunk_all_pipelined_def simp del: write_loop.simps split: option.splits)
  moreover have "writing opened body (length (issued io)) io 0 [] outcome_default"
    by (simp add: writing_def write_backlog_def outcome_default_def)
  ultimately show ?thesis using write_loop_stored assms(2-4) by blast
qed

lemma write_bytes_stored:
  assumes "write_bytes picks opened body io = (Ok out, io')"
    and "0 < write_chunk_size (ns_config (inner io))" and "length body < 2 ^ 64"
  shows "unat (bytes_written out) = length body \<and>
    (\<forall>i < length body. stored opened body (length (issued io)) (unstable_verifier out) io' i) \<and> keeps io io'"
proof -
  define max_size where "max_size = unat (write_chunk_size (ns_config (inner io)))"
  define depth where "depth = (if pipeline_write_chunks (ns_config (inner io)) then operation_pipeline_depth (inner io) else 1)"
  have run: "(if length body = 0 then (Ok outcome_default, io)
     else if length body \<le> max_size then write_single_chunk_committed opened 0 body io
     else if depth \<le> 1 then write_chunk_all opened 0 body io
     else write_chunk_all_pipelined picks opened body depth io) = (Ok out, io')"
    using assms(1) unfolding write_bytes_def Let_def max_size_def depth_def .
  have body: "placed body 0 body" by (simp add: placed_def)
  consider (empty) "length body = 0" | (single) "length body \<noteq> 0" "length body \<le> max_size"
    | (seq) "length body \<noteq> 0" "\<not> length body \<le> max_size" "depth \<le> 1"
    | (piped) "length body \<noteq> 0" "\<not> length body \<le> max_size" "\<not> depth \<le> 1" by blast
  then show ?thesis
  proof cases
    case empty
    then show ?thesis using run by (auto simp: outcome_default_def)
  next
    case single
    then have "write_single_chunk_committed opened 0 body io = (Ok out, io')" using run by simp
    then obtain written where c: "commit_from opened body 0 0 io = (Ok written, io')"
      "out = \<lparr> bytes_written = of_nat written, unstable_verifier = None \<rparr>"
      by (auto simp: write_single_chunk_committed_def and_then_Ok)
    show ?thesis
      using commit_from_stored [OF c(1) body _ _ assms(3) le_refl] c(2) assms(3) by (simp add: unat_of_nat)
  next
    case seq
    then have "write_all_from opened body 0 0 outcome_default io = (Ok out, io')"
      using run by (simp add: write_chunk_all_def)
    from write_all_from_stored [OF this body _ _ assms(3) le_refl] show ?thesis
      using assms(3) by (simp add: outcome_default_def)
  next
    case piped
    then have "write_chunk_all_pipelined picks opened body depth io = (Ok out, io')" using run by simp
    then show ?thesis using pipelined_stored assms(2,3) piped(3) by simp
  qed
qed

text \<open>
  C14. A successful \<open>write_bytes\<close> has stored the whole body: it reports the length of the body, and every
  byte of it is in a WRITE of this file that the server acknowledged, at the offset of that byte.
  Each such write is stable, or was committed in the same request with the verifier of the write, or
  has the one verifier that the outcome carries into the closing COMMIT. This holds for short writes
  and for every order in which the replies to pipelined writes arrive.
\<close>

theorem written_bytes_stored:
  assumes "write_bytes picks opened body io = (Ok out, io')"
    and "0 < write_chunk_size (ns_config (inner io))" and "length body < 2 ^ 64"
  shows "unat (bytes_written out) = length body \<and>
    (\<forall>i < length body. stored opened body (length (issued io)) (unstable_verifier out) io' i)"
  using write_bytes_stored [OF assms] by blast

text \<open>
  C17. A pipelined write ends: whatever the server replies and in whatever order, it issues at most one
  WRITE for each byte of the body, because every reply acknowledges at least one byte or fails.
\<close>

theorem pipelined_write_ends:
  assumes "0 < write_chunk_size (ns_config (inner io))" and "length body < 2 ^ 64"
  shows "\<exists>r. write_loop (Suc (length body)) picks opened body depth 0 [] outcome_default None io = Some r"
  using write_loop_enough [of body 0 "[]" "Suc (length body)" io picks opened depth outcome_default None] assms
  by (auto simp: write_backlog_def simp del: write_loop.simps)

abbreviation (input) write_script :: "op_reply list" where
  "write_script \<equiv> [(op_u32 OpCode.PutFh, status_OK, []),
     (op_u32 OpCode.Write, status_OK, be_bytes 4 (3 :: u32) @ be_bytes 4 (0 :: u32) @ replicate 8 9),
     (op_u32 OpCode.Commit, status_OK, replicate 8 9)]"

lemma write_script_run:
  "\<exists>io'. write_bytes (\<lambda>_. 0) demo_file [1, 2, 3] (demo (demo_reply write_script)) =
     (Ok \<lparr> bytes_written = 3, unstable_verifier = None \<rparr>, io')"
proof -
  let ?io = "demo (demo_reply write_script)"
  let ?wr = "be_bytes 4 (3 :: u32) @ be_bytes 4 (0 :: u32) @ replicate 8 9"
  let ?w = "\<lparr> write_count = 3, committed = Unstable, write_verifier = replicate 8 9 \<rparr>"
  have w: "decode_write_data (?wr @ d) = (Ok ?w, d)" for d
    by (rule decode_write_data_wire) (simp_all add: write_stability_from_raw_def)
  have c: "read_bytes 8 (replicate 8 9 @ d) = (Ok (replicate 8 9), d)" for d by (rule read_bytes_wire) simp
  have send: "sendable ''write-commit'' (write_and_commit_ops demo_file 0 [1, 2, 3])"
    by (simp add: sendable_eqs write_and_commit_ops_def demo_file_def commit_count_def)
  have dec: "decode_write_commit_compound (demo_reply write_script) = Ok (?w, replicate 8 9)"
    by (simp add: decode_write_commit_compound_def with_replies_wire u32_max_def and_then_def walk_sequence_wire advance_wire
        walk_result_wire [where decode = decode_write_data and body = ?wr, OF _ _ w]
        walk_result_wire [where decode = "read_bytes 8" and body = "replicate 8 9" and rest = "[]", simplified, OF _ _ c [of "[]", simplified]]
        walk_finish_def require_result_def sequence_body_def del: op_u32.simps append_assoc)
  obtain io' where "write_and_commit demo_file 0 [1, 2, 3] ?io = (Ok (?w, replicate 8 9), io')"
    using demo_detailed [where decode = decode_write_commit_compound, OF send _ dec, of True]
    by (auto simp: u32_max_def write_and_commit_def compound_decode_def)
  then have "commit_step demo_file [1, 2, 3] 0 0 ?io = (Ok (3, 3), io')"
    by (simp add: commit_step_def Let_def and_then_def validate_write_reply_def requires_commit_def ensure_write_verifier_def)
  then have "commit_from demo_file [1, 2, 3] 0 0 ?io = (Ok 3, io')"
    by (simp add: commit_from.simps)
  then show ?thesis
    by (simp add: write_bytes_def write_single_chunk_committed_def and_then_def demo_def nfs_config_new_def)
qed

theorem written_bytes_stored_witness:
  "\<exists>out io'. write_bytes (\<lambda>_. 0) demo_file [1, 2, 3] (demo (demo_reply write_script)) = (Ok out, io') \<and>
     unat (bytes_written out) = 3 \<and> (\<forall>i < 3. stored demo_file [1, 2, 3] 0 None io' i)"
proof -
  obtain io' where run: "write_bytes (\<lambda>_. 0) demo_file [1, 2, 3] (demo (demo_reply write_script)) =
      (Ok \<lparr> bytes_written = 3, unstable_verifier = None \<rparr>, io')"
    using write_script_run by blast
  have "0 < write_chunk_size (ns_config (inner (demo (demo_reply write_script))))" "length (issued (demo (demo_reply write_script))) = 0"
    by (simp_all add: demo_def nfs_config_new_def)
  then show ?thesis using written_bytes_stored [OF run] run by simp
qed

theorem pipelined_write_ends_witness:
  "\<exists>r. write_loop (Suc 10) (\<lambda>_. 1) demo_file (replicate 10 7) 2 0 [] outcome_default None (demo []) = Some r"
  using pipelined_write_ends [of "demo []" "replicate 10 7" "\<lambda>_. 1" demo_file 2]
  by (simp add: demo_def nfs_config_new_def del: write_loop.simps)

text \<open>
  The steps of a task are those of \<open>write_chunk\<close>: \<open>finish_task\<close> runs what is left of it at once, and a step
  followed by that is the same.
\<close>

fun finish_task :: "OpenedFile \<Rightarrow> WriteTask \<Rightarrow> WriteOutcome io" where
  "finish_task opened (FirstWrite offset chunk) = write_chunk opened offset chunk"
| "finish_task opened (RestWrite outcome chunk sofar offset rest) =
    and_then (write_all_from opened chunk sofar offset rest) (\<lambda>rest. lift (try_merge outcome rest))"

lemma finish_task_step:
  assumes "0 < task_left t"
  shows "finish_task opened t = and_then (task_step opened t) (case_sum (finish_task opened) ok)"
proof (cases t)
  case (FirstWrite offset chunk)
  show ?thesis
    unfolding FirstWrite finish_task.simps task_step.simps write_chunk_def
    by (rule ext) (auto simp: and_then_def lift_def Let_def write_chunk_all_def split: prod.splits outcome.splits)
next
  case (RestWrite outcome chunk sofar offset rest)
  have "sofar < length chunk" using assms RestWrite by simp
  then show ?thesis
    unfolding RestWrite finish_task.simps task_step.simps
    by (intro ext) (auto simp: and_then_def lift_def write_all_from.simps [of opened chunk sofar] write_all_from.simps split: prod.splits outcome.splits)
qed

end
