(* ===== verification/Client_Files.thy ===== *)
theory Client_Files
  imports Client_Write
begin

text \<open>
  The file operations of the client over one session (\<open>src/client.rs\<close>): publishing a body through a
  temporary file (\<open>put_once\<close>), deleting, sweeping abandoned temporary files and listing a directory
  page, with the classification of errors that decides whether an operation may be repeated.

  \<open>Environment\<close> holds what the sources take from outside: \<open>ulid\<close> is the text of a new ULID,
  \<open>ulid_timestamp\<close> what the ULID library reads back from a text, \<open>worker_takes\<close> whether the deferred-close
  worker still receives, and \<open>picks\<close> the order in which concurrent requests complete. The first and the
  third depend on how often the task has been suspended.
\<close>

subsection \<open>Names and errors\<close>

record Environment =
  ulid :: "nat \<Rightarrow> string"
  ulid_timestamp :: "string \<Rightarrow> u64 option"
  worker_takes :: "nat \<Rightarrow> bool"
  picks :: "nat \<Rightarrow> nat"

abbreviation (input) TEMP_FILE_CREATE_RETRIES :: usize where "TEMP_FILE_CREATE_RETRIES \<equiv> 8"

datatype PutMode = Overwrite | IfNotExists

datatype PublishError = Published | PublishAlreadyExists | NoPublish | PublishUnknown

definition error_proves_operation_not_run :: "Error \<Rightarrow> bool" where
  "error_proves_operation_not_run err \<longleftrightarrow>
     is_request_not_sent err \<or> nfs_status_code err \<noteq> None \<and> \<not> is_nfs_operation err OpCode.Illegal"

definition classify_publish_error :: "PutMode \<Rightarrow> Error \<Rightarrow> PublishError" where
  "classify_publish_error mode err =
    (if mode = IfNotExists \<and> is_nfs_operation err OpCode.Remove then Published
     else if mode = IfNotExists \<and> is_nfs_error err status_EXIST OpCode.Link then PublishAlreadyExists
     else if error_proves_operation_not_run err then NoPublish
     else PublishUnknown)"

definition outcome_unknown_error :: "string \<Rightarrow> string \<Rightarrow> Error" where
  "outcome_unknown_error action path =
    OutcomeUnknown action path ''the operation failed after it may have reached the server: {operation_error}''"

primrec put_operation_name :: "PutMode \<Rightarrow> string" where
  "put_operation_name Overwrite = ''overwrite put''"
| "put_operation_name IfNotExists = ''create-new put''"

definition publish_result :: "PutMode \<Rightarrow> Error \<Rightarrow> string \<Rightarrow> unit result" where
  "publish_result mode err raw_path = (case classify_publish_error mode err of
     Published \<Rightarrow> Ok ()
   | PublishAlreadyExists \<Rightarrow> Err (Error.AlreadyExists raw_path)
   | NoPublish \<Rightarrow> Err err
   | PublishUnknown \<Rightarrow> Err (outcome_unknown_error (put_operation_name mode) raw_path))"

definition delete_result :: "RemoveOutcome result \<Rightarrow> string \<Rightarrow> unit result" where
  "delete_result r raw_path = (case r of
     Ok _ \<Rightarrow> Ok ()
   | Err err \<Rightarrow> if error_proves_operation_not_run err then Err err else Err (outcome_unknown_error ''delete'' raw_path)
   | Panic \<Rightarrow> Panic)"

definition temp_file_name :: "Environment \<Rightarrow> Io \<Rightarrow> string" where
  "temp_file_name env io = TEMP_FILE_PREFIX @ ulid env (awaits io)"

definition parse_temp_file_created_ms :: "Environment \<Rightarrow> string \<Rightarrow> u64 option" where
  "parse_temp_file_created_ms env name =
    (if starts_with name TEMP_FILE_PREFIX then ulid_timestamp env (drop (length TEMP_FILE_PREFIX) name) else None)"

subsection \<open>Publishing a body\<close>

text \<open>\<open>let _ =\<close> drops a result, not a panic.\<close>

definition ignoring :: "'a io \<Rightarrow> unit io" where
  "ignoring m io = (case m io of (Panic, io) \<Rightarrow> (Panic, io) | (_, io) \<Rightarrow> (Ok (), io))"

primrec open_temp_attempts :: "nat \<Rightarrow> Environment \<Rightarrow> string list \<Rightarrow> (string \<times> OpenedFile) io" where
  "open_temp_attempts 0 env parent =
    fail (Protocol ''failed to allocate a unique temporary file after {TEMP_FILE_CREATE_RETRIES} attempts'')"
| "open_temp_attempts (Suc n) env parent = (\<lambda>io.
    (let temp_name = temp_file_name env io in
     and_then (open_file parent temp_name) (\<lambda>outcome. case outcome of
         Opened opened \<Rightarrow> ok (temp_name, opened)
       | OpenOutcome.AlreadyExists \<Rightarrow> open_temp_attempts n env parent) io))"

definition open_temp_file :: "Environment \<Rightarrow> string list \<Rightarrow> (string \<times> OpenedFile) io" where
  "open_temp_file env parent = open_temp_attempts TEMP_FILE_CREATE_RETRIES env parent"

text \<open>\<open>defer_close\<close> hands the state to the worker, or gives it back when the worker is gone.\<close>

definition defer_close :: "Environment \<Rightarrow> OpenedFile \<Rightarrow> OpenedFile option io" where
  "defer_close env opened io = (Ok (if worker_takes env (awaits io) then None else Some opened), suspended io)"

primrec fused_attempts ::
  "nat \<Rightarrow> Environment \<Rightarrow> string list \<Rightarrow> string \<Rightarrow> string \<Rightarrow> bytes \<Rightarrow> PutMode \<Rightarrow> unit option io" where
  "fused_attempts 0 env parent name raw_path data mode = ok None"
| "fused_attempts (Suc n) env parent name raw_path data mode = (\<lambda>io.
    (let temp_name = temp_file_name env io in
     case try_put_fused parent temp_name name data (mode = IfNotExists) io of
       (Ok (Some (Opened (len, opened))), io) \<Rightarrow>
         and_then (defer_close env opened) (\<lambda>returned.
         and_then (case returned of None \<Rightarrow> ok () | Some opened \<Rightarrow> ignoring (close_file opened)) (\<lambda>_. ok (Some ()))) io
     | (Ok (Some OpenOutcome.AlreadyExists), io) \<Rightarrow> fused_attempts n env parent name raw_path data mode io
     | (Ok None, io) \<Rightarrow> (Ok None, io)
     | (Err err, io) \<Rightarrow>
         and_then (ignoring (session_remove parent temp_name)) (\<lambda>_.
         case classify_publish_error mode err of
           Published \<Rightarrow> ok (Some ())
         | PublishAlreadyExists \<Rightarrow> fail (Error.AlreadyExists raw_path)
         | NoPublish \<Rightarrow> if is_retryable err then fail err else ok None
         | PublishUnknown \<Rightarrow> fail (outcome_unknown_error (put_operation_name mode) raw_path)) io
     | (Panic, io) \<Rightarrow> (Panic, io)))"

definition put_once_fused ::
  "Environment \<Rightarrow> string list \<Rightarrow> string \<Rightarrow> string \<Rightarrow> bytes \<Rightarrow> PutMode \<Rightarrow> unit option io" where
  "put_once_fused env parent name raw_path data mode io =
    (if \<not> fused_put_viable (length data) (inner io) then (Ok None, io)
     else fused_attempts TEMP_FILE_CREATE_RETRIES env parent name raw_path data mode io)"

text \<open>What \<open>put_once\<close> does when the body could not be written, and when publishing it failed.\<close>

definition abandon_temp :: "string list \<Rightarrow> string \<Rightarrow> OpenedFile \<Rightarrow> Error \<Rightarrow> unit io" where
  "abandon_temp parent temp_name opened err io = (case close_file opened io of
     (Panic, io) \<Rightarrow> (Panic, io)
   | (close_result, io) \<Rightarrow>
       and_then (ignoring (session_remove parent temp_name)) (\<lambda>_. case close_result of
         Err close_err \<Rightarrow> fail (with_close_failure err close_err)
       | _ \<Rightarrow> fail err) io)"

definition publish_temp ::
  "string list \<Rightarrow> string \<Rightarrow> string \<Rightarrow> string \<Rightarrow> OpenedFile \<Rightarrow> WriteOutcome \<Rightarrow> PutMode \<Rightarrow> unit io" where
  "publish_temp parent temp_name name raw_path opened outcome mode io =
    (case session_close_publish opened parent temp_name name (bytes_written outcome) (unstable_verifier outcome)
            (mode = IfNotExists) io of
       (Ok _, io) \<Rightarrow> (Ok (), io)
     | (Err err, io) \<Rightarrow>
         and_then (ignoring (session_remove parent temp_name)) (\<lambda>_. lift (publish_result mode err raw_path)) io
     | (Panic, io) \<Rightarrow> (Panic, io))"

definition put_multi ::
  "Environment \<Rightarrow> string list \<Rightarrow> string \<Rightarrow> string \<Rightarrow> bytes \<Rightarrow> PutMode \<Rightarrow> unit io" where
  "put_multi env parent name raw_path data mode io =
    and_then (\<lambda>io. case open_temp_file env parent io of
        (Err err, io) \<Rightarrow>
          if is_nfs_error err status_NOENT OpCode.Lookup
          then and_then (create_parent_dirs parent) (\<lambda>_. open_temp_file env parent) io
          else (Err err, io)
      | (r, io) \<Rightarrow> (r, io)) (\<lambda>(temp_name, opened) io.
    case write_bytes (picks env) opened data io of
      (Err err, io) \<Rightarrow> abandon_temp parent temp_name opened err io
    | (Ok outcome, io) \<Rightarrow> publish_temp parent temp_name name raw_path opened outcome mode io
    | (Panic, io) \<Rightarrow> (Panic, io)) io"

definition put_once :: "Environment \<Rightarrow> NfsPath \<Rightarrow> string \<Rightarrow> bytes \<Rightarrow> PutMode \<Rightarrow> unit io" where
  "put_once env path raw_path data mode =
    and_then (lift (parent_and_name path)) (\<lambda>(parent, name).
    and_then (put_once_fused env parent name raw_path data mode) (\<lambda>done.
    case done of
      Some _ \<Rightarrow> ok ()
    | None \<Rightarrow> put_multi env parent name raw_path data mode))"

subsection \<open>Deleting and sweeping\<close>

definition delete_once :: "NfsPath \<Rightarrow> string \<Rightarrow> unit io" where
  "delete_once path raw_path =
    and_then (lift (parent_and_name path)) (\<lambda>(parent, name) io.
    case session_remove parent name io of (r, io) \<Rightarrow> (delete_result r raw_path, io))"

text \<open>\<open>tally_remove_result\<close> with the count and the first error it updates.\<close>

definition tally_remove_result :: "RemoveOutcome result \<Rightarrow> u64 \<times> Error option \<Rightarrow> u64 \<times> Error option" where
  "tally_remove_result r = (\<lambda>(removed, first_error). case r of
     Ok Removed \<Rightarrow> (removed + 1, first_error)
   | Ok Missing \<Rightarrow> (removed, first_error)
   | Err err \<Rightarrow> (removed, get_or_insert err first_error)
   | Panic \<Rightarrow> (removed, first_error))"

text \<open>
  \<open>removes\<close> are the names whose REMOVE is in flight. One turn fills it up to the depth, unless an error
  was recorded, and takes the reply of one of them.
\<close>

definition schedule_removes :: "usize \<Rightarrow> Error option \<Rightarrow> string list \<Rightarrow> string list \<Rightarrow> string list \<times> string list" where
  "schedule_removes depth first_error names removes =
    (let n = (if first_error = None then depth - length removes else 0) in (drop n names, removes @ take n names))"

lemma schedule_removes_length:
  "schedule_removes depth err names removes = (names', removes') \<Longrightarrow>
   length names' + length removes' = length names + length removes"
  by (auto simp: schedule_removes_def Let_def)

lemma shorter_without:
  assumes "i = n mod length xs" and "xs \<noteq> []"
  shows "length (take i xs @ drop (Suc i) xs) < length xs"
proof -
  have "i < length xs" using assms by simp
  then show ?thesis by simp
qed

function remove_loop ::
  "(nat \<Rightarrow> nat) \<Rightarrow> usize \<Rightarrow> FileHandle \<Rightarrow> string list \<Rightarrow> string list \<Rightarrow> u64 \<times> Error option \<Rightarrow> (u64 \<times> Error option) io" where
  "remove_loop order depth dir names removes tally io =
    (case schedule_removes depth (snd tally) names removes of (names, removes) \<Rightarrow>
     if removes = [] then (Ok tally, io)
     else
       (let i = order (length names + length removes) mod length removes in
        case remove_at dir (removes ! i) io of
          (Panic, io) \<Rightarrow> (Panic, io)
        | (r, io) \<Rightarrow>
            remove_loop order depth dir names (take i removes @ drop (Suc i) removes) (tally_remove_result r tally) io))"
  by pat_completeness auto
termination
proof (relation "measure (\<lambda>(order, depth, dir, names, removes, tally, io). length names + length removes)", simp, goal_cases)
  case 1
  from shorter_without [OF 1(3,2)] show ?case using schedule_removes_length [OF 1(1) [symmetric]] by simp
next
  case 2
  from shorter_without [OF 2(3,2)] show ?case using schedule_removes_length [OF 2(1) [symmetric]] by simp
qed

declare remove_loop.simps [simp del]

definition remove_temp_names :: "(nat \<Rightarrow> nat) \<Rightarrow> FileHandle \<Rightarrow> string list \<Rightarrow> u64 \<Rightarrow> (u64 \<times> Error option) io" where
  "remove_temp_names order dir names removed io =
    remove_loop order (operation_pipeline_depth (inner io)) dir names [] (removed, None) io"

definition sweep_result :: "u64 \<Rightarrow> Error option \<Rightarrow> string \<Rightarrow> u64 result" where
  "sweep_result removed err raw_directory = (case err of
     Some e \<Rightarrow> Err (outcome_unknown_error ''sweep temporary files'' raw_directory)
   | None \<Rightarrow> Ok removed)"

definition advance_dir_cursor :: "u64 \<Rightarrow> DirPage \<Rightarrow> (u64 \<times> bytes) result" where
  "advance_dir_cursor cookie page =
    (if last_cookie page = cookie then Err (Protocol ''READDIR did not advance the cookie and was not EOF'')
     else Ok (last_cookie page, page_verifier page))"

definition stale_names :: "Environment \<Rightarrow> u64 \<Rightarrow> DirPage \<Rightarrow> string list" where
  "stale_names env cutoff page =
    filter (\<lambda>name. case parse_temp_file_created_ms env name of Some created \<Rightarrow> created \<le> cutoff | None \<Rightarrow> False)
      (page_entries page)"

text \<open>
  A server can make a sweep go on for ever, by listing new stale names or new pages. One unit of fuel
  is one turn of a loop, which reads at most one page; the result is None when it runs out. \<open>at\<close> is the
  directory and the page that was read, or None at the start and after a removal.
\<close>

primrec sweep_loop ::
  "nat \<Rightarrow> Environment \<Rightarrow> string list \<Rightarrow> string \<Rightarrow> u64 \<Rightarrow> u64 \<Rightarrow> (FileHandle \<times> u64 \<times> DirPage) option \<Rightarrow> u64 option io" where
  "sweep_loop 0 env components raw_directory cutoff removed at = ok None"
| "sweep_loop (Suc fuel) env components raw_directory cutoff removed at = (case at of
     None \<Rightarrow>
       and_then (read_dir_path_page components 0 (replicate 8 0) None) (\<lambda>(dir, page).
       sweep_loop fuel env components raw_directory cutoff removed (Some (dir, 0, page)))
   | Some (dir, cookie, page) \<Rightarrow>
       (let stale = stale_names env cutoff page in
        if stale \<noteq> [] then
          and_then (remove_temp_names (picks env) dir stale removed) (\<lambda>(removed, err).
          if err \<noteq> None then and_then (lift (sweep_result removed err raw_directory)) (\<lambda>n. ok (Some n))
          else sweep_loop fuel env components raw_directory cutoff removed None)
        else if page_eof page then ok (Some removed)
        else
          and_then (lift (advance_dir_cursor cookie page)) (\<lambda>(cookie, verifier).
          and_then (read_dir_page dir cookie verifier None) (\<lambda>page.
          sweep_loop fuel env components raw_directory cutoff removed (Some (dir, cookie, page))))))"

definition sweep_temp_files_once :: "nat \<Rightarrow> Environment \<Rightarrow> NfsPath \<Rightarrow> string \<Rightarrow> u64 \<Rightarrow> u64 option io" where
  "sweep_temp_files_once fuel env path raw_directory cutoff = sweep_loop fuel env path raw_directory cutoff 0 None"

subsection \<open>Listing\<close>

record ContinuationToken =
  token_directory :: string
  token_cookie :: u64
  token_verifier :: bytes

definition from_list_position :: "string \<Rightarrow> u64 \<Rightarrow> bytes \<Rightarrow> ContinuationToken" where
  "from_list_position directory cookie verifier =
    \<lparr> token_directory = directory, token_cookie = cookie, token_verifier = verifier \<rparr>"

definition list_position :: "string \<Rightarrow> ContinuationToken \<Rightarrow> (u64 \<times> bytes) result" where
  "list_position directory token =
    (if token_directory token \<noteq> directory
     then Err (InvalidConfig ''list continuation token does not match the requested directory'')
     else Ok (token_cookie token, token_verifier token))"

record ListEntry =
  entry_path :: string
  entry_name :: string

record ListResult =
  list_entries :: "ListEntry list"
  next_token :: "ContinuationToken option"

definition base_path :: "NfsPath \<Rightarrow> string" where
  "base_path components = join_slashes components"

definition list_page_once :: "NfsPath \<Rightarrow> usize \<Rightarrow> ContinuationToken option \<Rightarrow> ListResult io" where
  "list_page_once path max_entries token =
    (let base = base_path path; entry_path_prefix = (if base = [] then [] else base @ ''/'') in
     and_then (lift (case token of Some token \<Rightarrow> list_position base token | None \<Rightarrow> Ok (0, replicate 8 0))) (\<lambda>(cookie, verifier).
     and_then (read_dir_path_page_without_handle path cookie verifier (Some max_entries)) (\<lambda>page.
     and_then (if page_eof page then ok None
       else if last_cookie page = cookie then fail (Protocol ''READDIR did not advance the cookie and was not EOF'')
       else ok (Some (from_list_position base (last_cookie page) (page_verifier page)))) (\<lambda>next_token.
     ok \<lparr> list_entries = map (\<lambda>name. \<lparr> entry_path = entry_path_prefix @ name, entry_name = name \<rparr>) (page_entries page),
          next_token = next_token \<rparr>))))"

end
