(* ===== verification/Spec2Isabelle.thy ===== *)
theory Spec2Isabelle
  imports Errors Xdr_Codec Paths Nfs_Ops Rpc_Wire Compound Result_Decode Replies Slots Session Rpc_Calls Client_Files
begin

text \<open>
  nfs-crust: an NFSv4.1 client library in Rust.
\<close>

end
